(* ===== verification/Prelude.thy ===== *)
theory Prelude
  imports Main "HOL-Library.Word" "HOL-Library.Multiset"
begin

text \<open>
  The vocabulary every component shares: the machine integers of a 64-bit target, the pieces of
  Rust's standard library that several modules call (\<open>Result\<close>, \<open>usize::next_power_of_two\<close>,
  \<open>Vec::swap_remove\<close>), the scan loop that the scheduler and the reactor both run over a vector, and
  the lemmas on words and lists that carry the component proofs.
\<close>

unbundle bit_operations_syntax

named_theorems usize_simps \<open>reading machine words as natural numbers\<close>
named_theorems scan_simps \<open>unfolding of the swap-remove scan\<close>

type_synonym u8 = "8 word"
type_synonym u32 = "32 word"
type_synonym u64 = "64 word"
type_synonym usize = "64 word"

subsection \<open>Rust's Result\<close>

datatype ('a, 'e) result = Ok 'a | Err 'e

subsection \<open>Words\<close>

text \<open>
  \<open>(a as isize).wrapping_sub(b as isize)\<close>: the two's complement reading of the wrapped difference.
\<close>

definition isize_wrapping_sub :: "usize \<Rightarrow> usize \<Rightarrow> int" where
  "isize_wrapping_sub a b = sint (a - b)"

text \<open>\<open>usize::saturating_sub\<close> and \<open>u32::saturating_add\<close>.\<close>

definition saturating_sub :: "'a::len word \<Rightarrow> 'a word \<Rightarrow> 'a word" where
  "saturating_sub a b = (if a < b then 0 else a - b)"

definition saturating_add :: "'a::len word \<Rightarrow> 'a word \<Rightarrow> 'a word" where
  "saturating_add a b = (if unat a + unat b < 2 ^ LENGTH('a) then a + b else - 1)"

text \<open>\<open>next_power_of_two\<close>, read as a natural number before it is stored in a \<open>usize\<close>.\<close>

function npot_from :: "nat \<Rightarrow> nat \<Rightarrow> nat" where
  "npot_from p n = (if 0 < p \<and> p < n then npot_from (2 * p) n else p)"
  by pat_completeness auto
termination
  by (relation "measure (\<lambda>(p, n). n - p)") auto

declare npot_from.simps [simp del]

definition next_power_of_two :: "nat \<Rightarrow> nat" where
  "next_power_of_two n = npot_from 1 n"

subsection \<open>The swap-remove scan\<close>

text \<open>
  \<open>Vec::swap_remove(i)\<close>: the element at \<open>i\<close> leaves, the last one takes its place. The callers' loop
  guards keep \<open>i\<close> in range, where the method does not panic.
\<close>

definition swap_remove :: "'a list \<Rightarrow> nat \<Rightarrow> 'a list" where
  "swap_remove xs i = butlast (xs[i := last xs])"

text \<open>
  The loop \<open>while i < v.len() { .. if remove { v.swap_remove(i) } else { i += 1 } }\<close>. The body \<open>f\<close>
  sees the element and the state of the loop; it answers whether the element is removed, the element
  as the body leaves it, and the new state.
\<close>

function scan :: "('a \<Rightarrow> 's \<Rightarrow> bool \<times> 'a \<times> 's) \<Rightarrow> nat \<Rightarrow> 'a list \<Rightarrow> 's \<Rightarrow> 'a list \<times> 's" where
  "scan f i xs s =
     (if i < length xs then
        (case f (xs ! i) s of
           (remove, x, s') \<Rightarrow>
             if remove then scan f i (swap_remove xs i) s' else scan f (Suc i) (xs[i := x]) s')
      else (xs, s))"
  by pat_completeness auto
termination
  by (relation "measure (\<lambda>(f, i, xs, s). length xs - i)") (auto simp: swap_remove_def)

declare scan.simps [simp del]

subsection \<open>Lemmas: words\<close>

lemma unat_and_mask [usize_simps]:
  assumes "k \<le> 64"
  shows "unat ((p::usize) AND of_nat (2 ^ k - 1)) = unat p mod 2 ^ k"
proof -
  have "(of_nat (2 ^ k - 1) :: usize) = mask k"
    by (simp add: mask_eq_exp_minus_1 of_nat_diff)
  then show ?thesis
    by (simp only: take_bit_eq_mask [symmetric] unsigned_take_bit_eq)
      (simp add: take_bit_nat_def)
qed

lemma unat_add_mod [usize_simps]:
  assumes "k \<le> 64"
  shows "unat ((p::usize) + of_nat j) mod 2 ^ k = (unat p + j) mod 2 ^ k"
proof -
  have dv: "(2::nat) ^ k dvd 2 ^ 64"
    using assms by (rule le_imp_power_dvd)
  have "unat (p + of_nat j) = (unat p + j) mod 2 ^ 64"
    by (simp add: unat_word_ariths unat_of_nat mod_simps)
  then show ?thesis
    using dv by (simp add: mod_mod_cancel)
qed

lemma mod_add_left_cancel: "((a::nat) + i) mod m = (a + j) mod m \<longleftrightarrow> i mod m = j mod m"
proof (induction i j rule: linorder_wlog)
  case (le i j)
  then have "(a + j) mod m = (a + i) mod m \<longleftrightarrow> j mod m = i mod m"
    by (simp add: mod_eq_dvd_iff_nat)
  then show ?case by (metis)
next
  case (sym i j)
  then show ?case by metis
qed

lemma isize_wrapping_sub_of_nat:
  assumes "j < 2 ^ 63"
  shows "isize_wrapping_sub (p + of_nat j) p = int j"
proof -
  have "sint (of_nat j :: usize) = int j"
    using assms by (simp add: sint_uint uint_nat unat_of_nat signed_take_bit_int_eq_self)
  then show ?thesis
    by (simp add: isize_wrapping_sub_def)
qed

lemma isize_wrapping_sub_neg:
  assumes "0 < j" "j \<le> 2 ^ 63"
  shows "isize_wrapping_sub p (p + of_nat j) = - int j"
proof -
  have "(- of_nat j :: usize) = word_of_int (- int j)"
    by simp
  then have "sint (- of_nat j :: usize) = signed_take_bit 63 (- int j)"
    by (simp only: sint_sbintrunc' signed_of_int) simp
  also have "\<dots> = - int j"
    using assms by (intro signed_take_bit_int_eq_self) auto
  finally show ?thesis
    by (simp add: isize_wrapping_sub_def)
qed

lemma isize_wrapping_sub_eq_0 [simp]: "isize_wrapping_sub a b = 0 \<longleftrightarrow> a = b"
  by (simp add: isize_wrapping_sub_def signed_eq_0_iff)

lemma isize_wrapping_sub_self [simp]: "isize_wrapping_sub a a = 0"
  by simp

subsection \<open>Lemmas: powers of two\<close>

lemma npot_from_ge: "0 < p \<Longrightarrow> n \<le> npot_from p n"
proof (induction p n rule: npot_from.induct)
  case (1 p n)
  then show ?case by (subst npot_from.simps) auto
qed

lemma npot_from_pow2: "\<exists>k. npot_from (2 ^ m) n = 2 ^ k \<and> m \<le> k"
proof (induction "2 ^ m :: nat" n arbitrary: m rule: npot_from.induct)
  case (1 n)
  show ?case
  proof (cases "2 ^ m < n")
    case True
    then obtain k where "npot_from (2 * 2 ^ m) n = 2 ^ k" "Suc m \<le> k"
      using 1 [of "Suc m"] by auto
    with True show ?thesis
      by (subst npot_from.simps) (auto intro: Suc_leD)
  next
    case False
    then show ?thesis by (subst npot_from.simps) auto
  qed
qed

lemma npot_from_lt_double: "0 < p \<Longrightarrow> p < n \<Longrightarrow> npot_from p n < 2 * n"
proof (induction p n rule: npot_from.induct)
  case (1 p n)
  then show ?case
    by (cases "2 * p < n") (auto simp: npot_from.simps [of p n] npot_from.simps [of "2 * p" n])
qed

lemma next_power_of_two_pow2: "\<exists>k. next_power_of_two n = 2 ^ k"
  using npot_from_pow2 [of 0 n] by (auto simp: next_power_of_two_def)

lemma next_power_of_two_ge: "n \<le> next_power_of_two n"
  by (simp add: next_power_of_two_def npot_from_ge)

lemma next_power_of_two_lt_double: "1 < n \<Longrightarrow> next_power_of_two n < 2 * n"
  by (simp add: next_power_of_two_def npot_from_lt_double)

subsection \<open>Lemmas: lists and the scan\<close>

lemma length_swap_remove [simp]: "length (swap_remove xs i) = length xs - 1"
  by (simp add: swap_remove_def)

lemma mset_swap_remove:
  assumes "i < length xs"
  shows "mset (swap_remove xs i) = mset xs - {#xs ! i#}"
proof -
  obtain ys y where xs: "xs = ys @ [y]"
    using assms by (cases xs rule: rev_cases) auto
  show ?thesis
  proof (cases "i < length ys")
    case True
    then show ?thesis
      by (simp add: xs swap_remove_def list_update_append nth_append mset_update)
  next
    case False
    then show ?thesis
      using assms by (simp add: xs swap_remove_def list_update_append nth_append)
  qed
qed

lemma set_swap_remove: "i < length xs \<Longrightarrow> set (swap_remove xs i) \<subseteq> set xs"
  using mset_swap_remove [of i xs] by (metis in_diffD set_mset_mset subsetI)

lemma scan_invariant:
  assumes "scan f i xs s = (ys, t)" "i \<le> length xs" "I i xs s"
    and "\<And>i xs s x s'. i < length xs \<Longrightarrow> I i xs s \<Longrightarrow> f (xs ! i) s = (True, x, s') \<Longrightarrow> I i (swap_remove xs i) s'"
    and "\<And>i xs s x s'. i < length xs \<Longrightarrow> I i xs s \<Longrightarrow> f (xs ! i) s = (False, x, s') \<Longrightarrow> I (Suc i) (xs[i := x]) s'"
  shows "I (length ys) ys t"
  using assms
proof (induction f i xs s rule: scan.induct)
  case (1 f i xs s)
  show ?case
  proof (cases "i < length xs")
    case True
    obtain r x s' where b: "f (xs ! i) s = (r, x, s')"
      by (metis prod_cases3)
    note IH = 1(1,2) [OF True b [symmetric] refl]
    show ?thesis
    proof (cases r)
      case True
      have "i \<le> length (swap_remove xs i)"
        using \<open>i < length xs\<close> by (simp add: swap_remove_def)
      then show ?thesis
        using IH(1) True b 1(3,5) 1(6) [OF \<open>i < length xs\<close> 1(5)] 1(6,7) \<open>i < length xs\<close>
        by (simp add: scan.simps [of f i xs s])
    next
      case False
      then show ?thesis
        using IH(2) b 1(3,5) 1(7) [OF \<open>i < length xs\<close> 1(5)] 1(6,7) \<open>i < length xs\<close>
        by (simp add: scan.simps [of f i xs s])
    qed
  next
    case False
    then have "i = length xs" "ys = xs" "t = s"
      using 1(3,4) by (simp_all add: scan.simps [of f "length xs" xs s])
    then show ?thesis using 1(5) by simp
  qed
qed

lemma take_swap_remove: "i < length xs \<Longrightarrow> take i (swap_remove xs i) = take i xs"
  by (simp add: swap_remove_def butlast_conv_take)

lemma mset_drop_swap_remove:
  assumes "i < length xs"
  shows "mset (drop i xs) = add_mset (xs ! i) (mset (drop i (swap_remove xs i)))"
proof -
  have "mset (take i xs) + mset (drop i (swap_remove xs i)) = mset xs - {#xs ! i#}"
    using assms mset_swap_remove [OF assms] take_swap_remove [OF assms]
    by (metis append_take_drop_id mset_append)
  moreover have "mset (take i xs) + mset (drop i xs) = mset xs"
    by (metis append_take_drop_id mset_append)
  moreover have "xs ! i \<in># mset xs"
    using assms by simp
  ultimately show ?thesis
    by (metis add_mset_remove_trivial_If add_right_imp_eq insert_DiffM union_commute
        union_mset_add_mset_right)
qed

text \<open>
  An observer of the scan: the same body, which also notes every element it is called on. The scan
  calls its body exactly once on every element that was in the vector when it started, whatever the
  body answers and although a removal reorders the elements not yet visited.
\<close>

definition logged :: "('a \<Rightarrow> 's \<Rightarrow> bool \<times> 'a \<times> 's) \<Rightarrow> 'a \<Rightarrow> 's \<times> 'a list \<Rightarrow> bool \<times> 'a \<times> ('s \<times> 'a list)" where
  "logged f x sl = (case f x (fst sl) of (remove, x', s') \<Rightarrow> (remove, x', (s', snd sl @ [x])))"

lemma scan_logged_visits:
  "mset (snd (snd (scan (logged f) i xs sl))) = mset (snd sl) + mset (drop i xs)"
proof (induction "logged f" i xs sl rule: scan.induct)
  case (1 i xs sl)
  show ?case
  proof (cases "i < length xs")
    case True
    obtain remove x s' where f: "f (xs ! i) (fst sl) = (remove, x, s')"
      by (metis prod_cases3)
    then have l: "logged f (xs ! i) sl = (remove, x, s', snd sl @ [xs ! i])"
      by (simp add: logged_def)
    note IH = 1 [OF True l [symmetric] refl]
    show ?thesis
    proof (cases remove)
      assume remove
      with True l IH(1) show ?thesis
        by (simp add: scan.simps [of "logged f" i xs] mset_drop_swap_remove [OF True])
    next
      assume "\<not> remove"
      moreover have "mset (drop i xs) = add_mset (xs ! i) (mset (drop (Suc i) xs))"
        by (metis Cons_nth_drop_Suc True mset.simps(2))
      ultimately show ?thesis
        using True l IH(2) by (simp add: scan.simps [of "logged f" i xs])
    qed
  next
    case False
    then show ?thesis
      by (subst scan.simps) simp
  qed
qed

lemma scan_logged_result:
  "scan f i xs (fst sl) = (fst (scan (logged f) i xs sl), fst (snd (scan (logged f) i xs sl)))"
proof (induction "logged f" i xs sl rule: scan.induct)
  case (1 i xs sl)
  obtain remove x s' where f: "f (xs ! i) (fst sl) = (remove, x, s')"
    by (metis prod_cases3)
  then have l: "logged f (xs ! i) sl = (remove, x, s', snd sl @ [xs ! i])"
    by (simp add: logged_def)
  show ?case
    using 1 [OF _ l [symmetric] refl] f l
    by (auto simp: scan.simps [of f i xs "fst sl"] scan.simps [of "logged f" i xs sl])
qed

end
