(* ===== verification/Messages.thy ===== *)
theory Messages
  imports Prelude
begin

text \<open>
  The public vocabulary of \<open>core/src/lib.rs\<close>: the two error types of a send, the recovery of the
  message they carry and their texts.
\<close>

datatype 'm try_send_error = Full 'm | Closed 'm

datatype 'm send_error = SendClosed 'm

fun try_into_message :: "'m try_send_error \<Rightarrow> 'm" where
  "try_into_message (Full m) = m"
| "try_into_message (Closed m) = m"

fun send_into_message :: "'m send_error \<Rightarrow> 'm" where
  "send_into_message (SendClosed m) = m"

fun try_send_debug :: "'m try_send_error \<Rightarrow> string" where
  "try_send_debug (Full _) = ''TrySendError::Full(mailbox full)''"
| "try_send_debug (Closed _) = ''TrySendError::Closed(actor gone)''"

fun try_send_display :: "'m try_send_error \<Rightarrow> string" where
  "try_send_display (Full _) = ''mailbox full (backpressure)''"
| "try_send_display (Closed _) = ''actor is gone (permanently closed)''"

fun send_debug :: "'m send_error \<Rightarrow> string" where
  "send_debug (SendClosed _) = ''SendError::Closed(actor gone)''"

fun send_display :: "'m send_error \<Rightarrow> string" where
  "send_display (SendClosed _) = ''actor is gone (permanently closed)''"

type_synonym 'm send_result = "(unit, 'm try_send_error) result"

text \<open>The message a failed send hands back, if it failed.\<close>

fun handed_back :: "'m send_result \<Rightarrow> 'm option" where
  "handed_back (Ok _) = None"
| "handed_back (Err e) = Some (try_into_message e)"

end
