(* ===== verification/Mailbox.thy ===== *)
theory Mailbox
  imports Messages
begin

text \<open>
  What a mailbox promises to the runtime above it: a bounded FIFO of messages with a count of the
  sending ends and a flag for the receiving end. The queue of \<open>core/src/mpsc.rs\<close> is proved to
  implement it (theory \<open>Mpsc\<close>); the scheduler, the timer service and \<open>ask\<close> are modelled on top
  of it.
\<close>

record 'm mailbox =
  items :: "'m list"
  mb_cap :: nat
  senders :: nat
  receiver_alive :: bool

definition mb_new :: "nat \<Rightarrow> 'm mailbox" where
  "mb_new cap = \<lparr>items = [], mb_cap = cap, senders = 1, receiver_alive = True\<rparr>"

definition mb_try_send :: "'m mailbox \<Rightarrow> 'm \<Rightarrow> 'm send_result \<times> 'm mailbox" where
  "mb_try_send mb m =
     (if \<not> receiver_alive mb then (Err (Closed m), mb)
      else if length (items mb) < mb_cap mb then (Ok (), mb\<lparr>items := items mb @ [m]\<rparr>)
      else (Err (Full m), mb))"

definition mb_try_recv :: "'m mailbox \<Rightarrow> 'm option \<times> 'm mailbox" where
  "mb_try_recv mb =
     (case items mb of [] \<Rightarrow> (None, mb) | m # ms \<Rightarrow> (Some m, mb\<lparr>items := ms\<rparr>))"

definition mb_is_empty :: "'m mailbox \<Rightarrow> bool" where
  "mb_is_empty mb \<longleftrightarrow> items mb = []"

definition mb_producers_alive :: "'m mailbox \<Rightarrow> bool" where
  "mb_producers_alive mb \<longleftrightarrow> 0 < senders mb"

definition mb_clone :: "'m mailbox \<Rightarrow> 'm mailbox" where
  "mb_clone mb = mb\<lparr>senders := senders mb + 1\<rparr>"

definition mb_drop_sender :: "'m mailbox \<Rightarrow> 'm mailbox" where
  "mb_drop_sender mb = mb\<lparr>senders := senders mb - 1\<rparr>"

definition mb_drop_receiver :: "'m mailbox \<Rightarrow> 'm mailbox" where
  "mb_drop_receiver mb = mb\<lparr>receiver_alive := False\<rparr>"

lemmas mb_defs = mb_new_def mb_try_send_def mb_try_recv_def mb_is_empty_def
  mb_producers_alive_def mb_clone_def mb_drop_sender_def mb_drop_receiver_def

lemma mb_new_simps [simp]:
  "senders (mb_new n) = 1" "items (mb_new n) = []" "mb_cap (mb_new n) = n" "receiver_alive (mb_new n)"
  by (simp_all add: mb_new_def)

subsection \<open>Sequences of mailbox calls\<close>

datatype 'm mb_op = Send 'm | Recv | IsEmpty | ProducersAlive | CloneSender | DropSender | DropReceiver

datatype 'm mb_reply = Sent "'m send_result" | Received "'m option" | Answer bool | Done

fun mb_step :: "'m mb_op \<Rightarrow> 'm mailbox \<Rightarrow> 'm mb_reply \<times> 'm mailbox" where
  "mb_step (Send m) mb = (case mb_try_send mb m of (r, mb') \<Rightarrow> (Sent r, mb'))"
| "mb_step Recv mb = (case mb_try_recv mb of (r, mb') \<Rightarrow> (Received r, mb'))"
| "mb_step IsEmpty mb = (Answer (mb_is_empty mb), mb)"
| "mb_step ProducersAlive mb = (Answer (mb_producers_alive mb), mb)"
| "mb_step CloneSender mb = (Done, mb_clone mb)"
| "mb_step DropSender mb = (Done, mb_drop_sender mb)"
| "mb_step DropReceiver mb = (Done, mb_drop_receiver mb)"

fun mb_run :: "'m mb_op list \<Rightarrow> 'm mailbox \<Rightarrow> 'm mb_reply list \<times> 'm mailbox" where
  "mb_run [] mb = ([], mb)"
| "mb_run (x # xs) mb =
     (case mb_step x mb of (r, mb') \<Rightarrow> case mb_run xs mb' of (rs, mb'') \<Rightarrow> (r # rs, mb''))"

text \<open>
  The messages a run accepted and the messages it handed out, in order. What comes out, followed by
  what is still inside, is what was inside followed by what went in.
\<close>

fun accepted :: "'m mb_op list \<Rightarrow> 'm mb_reply list \<Rightarrow> 'm list" where
  "accepted (Send m # xs) (Sent (Ok _) # rs) = m # accepted xs rs"
| "accepted (_ # xs) (_ # rs) = accepted xs rs"
| "accepted _ _ = []"

fun delivered :: "'m mb_reply list \<Rightarrow> 'm list" where
  "delivered (Received (Some m) # rs) = m # delivered rs"
| "delivered (_ # rs) = delivered rs"
| "delivered [] = []"

lemma mb_run_fifo:
  "mb_run xs mb = (rs, mb') \<Longrightarrow> delivered rs @ items mb' = items mb @ accepted xs rs"
proof (induction xs arbitrary: mb rs)
  case Nil
  then show ?case by simp
next
  case (Cons x xs)
  then show ?case
    by (cases x) (auto simp: mb_defs split: prod.splits if_splits list.splits dest!: Cons.IH)
qed

lemma mb_run_capacity:
  "mb_run xs mb = (rs, mb') \<Longrightarrow> length (items mb) \<le> mb_cap mb \<Longrightarrow>
    length (items mb') \<le> mb_cap mb' \<and> mb_cap mb' = mb_cap mb"
proof (induction xs arbitrary: mb rs)
  case Nil
  then show ?case by simp
next
  case (Cons x xs)
  then show ?case
    by (cases x) (auto simp: mb_defs split: prod.splits if_splits list.splits dest!: Cons.IH)
qed

subsection \<open>The interface\<close>

text \<open>
  A mailbox implementation: a state with an invariant and an abstraction, and one operation per
  mailbox call that the abstraction maps to the specification's. A call answers \<open>None\<close> where the
  code would spin without end; the laws rule that out under the invariant. The count of sending
  ends has to stay within the range \<open>max_senders\<close> the implementation can count.
\<close>

locale mailbox_impl =
  fixes inv :: "'q \<Rightarrow> bool"
    and abs :: "'q \<Rightarrow> 'm mailbox"
    and max_senders :: nat
    and send :: "'q \<Rightarrow> 'm \<Rightarrow> ('m send_result \<times> 'q) option"
    and recv :: "'q \<Rightarrow> ('m option \<times> 'q) option"
    and isempty :: "'q \<Rightarrow> bool"
    and alive :: "'q \<Rightarrow> bool"
    and clone :: "'q \<Rightarrow> 'q"
    and drop_tx :: "'q \<Rightarrow> 'q"
    and drop_rx :: "'q \<Rightarrow> 'q"
  assumes send_sim: "inv q \<Longrightarrow> mb_try_send (abs q) m = (r, mb) \<Longrightarrow>
        \<exists>q'. send q m = Some (r, q') \<and> inv q' \<and> abs q' = mb"
    and recv_sim: "inv q \<Longrightarrow> mb_try_recv (abs q) = (x, mb) \<Longrightarrow>
        \<exists>q'. recv q = Some (x, q') \<and> inv q' \<and> abs q' = mb"
    and isempty_sim: "inv q \<Longrightarrow> isempty q = mb_is_empty (abs q)"
    and alive_sim: "inv q \<Longrightarrow> alive q = mb_producers_alive (abs q)"
    and clone_sim: "inv q \<Longrightarrow> senders (abs q) < max_senders \<Longrightarrow>
        inv (clone q) \<and> abs (clone q) = mb_clone (abs q)"
    and drop_tx_sim: "inv q \<Longrightarrow> 0 < senders (abs q) \<Longrightarrow>
        inv (drop_tx q) \<and> abs (drop_tx q) = mb_drop_sender (abs q)"
    and drop_rx_sim: "inv q \<Longrightarrow> inv (drop_rx q) \<and> abs (drop_rx q) = mb_drop_receiver (abs q)"

text \<open>The same run on an implementation.\<close>

fun impl_step ::
  "('q \<Rightarrow> 'm \<Rightarrow> ('m send_result \<times> 'q) option) \<Rightarrow> ('q \<Rightarrow> ('m option \<times> 'q) option) \<Rightarrow>
   ('q \<Rightarrow> bool) \<Rightarrow> ('q \<Rightarrow> bool) \<Rightarrow> ('q \<Rightarrow> 'q) \<Rightarrow> ('q \<Rightarrow> 'q) \<Rightarrow> ('q \<Rightarrow> 'q) \<Rightarrow>
   'm mb_op \<Rightarrow> 'q \<Rightarrow> ('m mb_reply \<times> 'q) option" where
  "impl_step snd_op rcv ie al cl dt dr (Send m) q = map_option (map_prod Sent id) (snd_op q m)"
| "impl_step snd_op rcv ie al cl dt dr Recv q = map_option (map_prod Received id) (rcv q)"
| "impl_step snd_op rcv ie al cl dt dr IsEmpty q = Some (Answer (ie q), q)"
| "impl_step snd_op rcv ie al cl dt dr ProducersAlive q = Some (Answer (al q), q)"
| "impl_step snd_op rcv ie al cl dt dr CloneSender q = Some (Done, cl q)"
| "impl_step snd_op rcv ie al cl dt dr DropSender q = Some (Done, dt q)"
| "impl_step snd_op rcv ie al cl dt dr DropReceiver q = Some (Done, dr q)"

fun run_steps :: "('x \<Rightarrow> 'q \<Rightarrow> ('r \<times> 'q) option) \<Rightarrow> 'x list \<Rightarrow> 'q \<Rightarrow> ('r list \<times> 'q) option" where
  "run_steps f [] q = Some ([], q)"
| "run_steps f (x # xs) q =
     (case f x q of
        None \<Rightarrow> None
      | Some (r, q') \<Rightarrow> map_option (map_prod ((#) r) id) (run_steps f xs q'))"

text \<open>
  The calls a program can make: it clones only while the count is in range, and drops only sending
  ends it has.
\<close>

fun senders_ok :: "nat \<Rightarrow> 'm mb_op list \<Rightarrow> nat \<Rightarrow> bool" where
  "senders_ok bound [] n = True"
| "senders_ok bound (CloneSender # xs) n = (n < bound \<and> senders_ok bound xs (n + 1))"
| "senders_ok bound (DropSender # xs) n = (0 < n \<and> senders_ok bound xs (n - 1))"
| "senders_ok bound (_ # xs) n = senders_ok bound xs n"

context mailbox_impl
begin

abbreviation step :: "'m mb_op \<Rightarrow> 'q \<Rightarrow> ('m mb_reply \<times> 'q) option" where
  "step \<equiv> impl_step send recv isempty alive clone drop_tx drop_rx"

lemma step_sim:
  assumes "inv q" "mb_step x (abs q) = (r, mb)" "senders_ok max_senders (x # xs) (senders (abs q))"
  shows "\<exists>q'. step x q = Some (r, q') \<and> inv q' \<and> abs q' = mb \<and> senders_ok max_senders xs (senders mb)"
proof (cases x)
  case (Send m)
  then obtain r' where r: "mb_try_send (abs q) m = (r', mb)" "r = Sent r'"
    using assms(2) by (auto split: prod.splits)
  have "senders mb = senders (abs q)"
    using r(1) by (auto simp: mb_try_send_def split: if_splits)
  with send_sim [OF assms(1) r(1)] r(2) assms(3) Send show ?thesis by auto
next
  case Recv
  then obtain r' where r: "mb_try_recv (abs q) = (r', mb)" "r = Received r'"
    using assms(2) by (auto split: prod.splits)
  have "senders mb = senders (abs q)"
    using r(1) by (auto simp: mb_try_recv_def split: list.splits)
  with recv_sim [OF assms(1) r(1)] r(2) assms(3) Recv show ?thesis by auto
qed (use assms isempty_sim alive_sim clone_sim drop_tx_sim drop_rx_sim in
      \<open>auto simp: mb_clone_def mb_drop_sender_def mb_drop_receiver_def\<close>)

lemma run_sim:
  assumes "inv q" "mb_run xs (abs q) = (rs, mb)" "senders_ok max_senders xs (senders (abs q))"
  shows "\<exists>q'. run_steps step xs q = Some (rs, q') \<and> inv q' \<and> abs q' = mb"
  using assms
proof (induction xs arbitrary: q rs)
  case Nil
  then show ?case by simp
next
  case (Cons x xs)
  obtain r mb1 where s: "mb_step x (abs q) = (r, mb1)"
    by fastforce
  obtain rs' where rs: "mb_run xs mb1 = (rs', mb)" "rs = r # rs'"
    using Cons.prems(2) s by (auto split: prod.splits)
  obtain q1 where q1: "step x q = Some (r, q1)" "inv q1" "abs q1 = mb1"
      "senders_ok max_senders xs (senders mb1)"
    using step_sim [OF Cons.prems(1) s Cons.prems(3)] by blast
  then obtain q' where "run_steps step xs q1 = Some (rs', q')" "inv q'" "abs q' = mb"
    using Cons.IH [of q1 rs'] rs(1) by auto
  with q1 rs(2) show ?case by auto
qed

text \<open>No message is lost, duplicated or reordered by any sequence of calls.\<close>

lemma run_fifo:
  assumes "inv q" "senders_ok max_senders xs (senders (abs q))"
  shows "\<exists>rs q'. run_steps step xs q = Some (rs, q') \<and> inv q' \<and>
           delivered rs @ items (abs q') = items (abs q) @ accepted xs rs"
proof -
  obtain rs mb where r: "mb_run xs (abs q) = (rs, mb)"
    by fastforce
  from run_sim [OF assms(1) r assms(2)] mb_run_fifo [OF r] show ?thesis by auto
qed

end

end
