(* ===== verification/Mpsc.thy ===== *)
theory Mpsc
  imports Mailbox
begin

text \<open>
  The bounded queue of \<open>core/src/mpsc.rs\<close>. Every access to a shared atomic or to a slot is one step:
  \<open>enq_step\<close> and \<open>deq_step\<close> give, for a thread at a program point, the queue and the program point
  after its next access. This theory runs one operation at a time to its end (\<open>enqueue\<close>, \<open>dequeue\<close>);
  theory \<open>Mpsc_Conc\<close> interleaves the same steps of any number of producers with those of the
  consumer. Positions and sequence numbers are machine words, so they wrap as \<open>wrapping_add\<close> does.
\<close>

subsection \<open>State\<close>

text \<open>A slot's \<open>val\<close> is \<open>None\<close> while the cell holds no live value (uninitialised, or moved out).\<close>

record 'a slot =
  seq :: usize
  val :: "'a option"

record 'a queue =
  buffer :: "'a slot list"
  qmask :: usize
  enqueue_pos :: usize
  dequeue_pos :: usize
  producers :: usize
  consumer_alive :: bool

text \<open>\<open>&self.buffer[pos & mask]\<close>; \<open>index_in_range\<close> below shows the index never panics.\<close>

definition index :: "'a queue \<Rightarrow> usize \<Rightarrow> nat" where
  "index q pos = unat (pos AND qmask q)"

definition slot_at :: "'a queue \<Rightarrow> usize \<Rightarrow> 'a slot" where
  "slot_at q pos = buffer q ! index q pos"

definition set_val :: "'a queue \<Rightarrow> usize \<Rightarrow> 'a option \<Rightarrow> 'a queue" where
  "set_val q pos v = q\<lparr>buffer := (buffer q)[index q pos := (slot_at q pos)\<lparr>val := v\<rparr>]\<rparr>"

definition set_seq :: "'a queue \<Rightarrow> usize \<Rightarrow> usize \<Rightarrow> 'a queue" where
  "set_seq q pos n = q\<lparr>buffer := (buffer q)[index q pos := (slot_at q pos)\<lparr>seq := n\<rparr>]\<rparr>"

subsection \<open>Queue::enqueue\<close>

datatype 'a enq_pc =
    EStart 'a
  | ELoadPos 'a
  | ELoadSeq 'a usize
  | ECas 'a usize
  | EWrite 'a usize
  | EPublish usize
  | EFull 'a
  | EDone "'a send_result"

text \<open>
  The flag is the licence of \<open>compare_exchange_weak\<close> to fail although the values match; only the
  exchange looks at it.
\<close>

fun enq_step :: "bool \<Rightarrow> 'a queue \<Rightarrow> 'a enq_pc \<Rightarrow> 'a queue \<times> 'a enq_pc" where
  "enq_step _ q (EStart item) =
     (q, if \<not> consumer_alive q then EDone (Err (Closed item)) else ELoadPos item)"
| "enq_step _ q (ELoadPos item) = (q, ELoadSeq item (enqueue_pos q))"
| "enq_step _ q (ELoadSeq item pos) =
     (let dif = isize_wrapping_sub (seq (slot_at q pos)) pos
      in (q, if dif = 0 then ECas item pos else if dif < 0 then EFull item else ELoadPos item))"
| "enq_step spurious q (ECas item pos) =
     (if enqueue_pos q = pos \<and> \<not> spurious
      then (q\<lparr>enqueue_pos := pos + 1\<rparr>, EWrite item pos)
      else (q, ELoadSeq item (enqueue_pos q)))"
| "enq_step _ q (EWrite item pos) = (set_val q pos (Some item), EPublish pos)"
| "enq_step _ q (EPublish pos) = (set_seq q pos (pos + 1), EDone (Ok ()))"
| "enq_step _ q (EFull item) =
     (q, EDone (Err (if \<not> consumer_alive q then Closed item else Full item)))"
| "enq_step _ q (EDone r) = (q, EDone r)"

fun at_enq_cas :: "'a enq_pc \<Rightarrow> bool" where
  "at_enq_cas (ECas _ _) = True"
| "at_enq_cas _ = False"

text \<open>
  One producer running alone. The list says which of its next exchanges fail spuriously; after it,
  none does. \<open>None\<close> is a loop that never returns.
\<close>

partial_function (option) enq_solo ::
  "bool list \<Rightarrow> 'a queue \<Rightarrow> 'a enq_pc \<Rightarrow> ('a send_result \<times> 'a queue) option" where
  "enq_solo fs q pc =
     (case pc of
        EDone r \<Rightarrow> Some (r, q)
      | _ \<Rightarrow> (case enq_step (fs \<noteq> [] \<and> hd fs) q pc of
               (q', pc') \<Rightarrow> enq_solo (if at_enq_cas pc then tl fs else fs) q' pc'))"

definition enqueue :: "bool list \<Rightarrow> 'a queue \<Rightarrow> 'a \<Rightarrow> ('a send_result \<times> 'a queue) option" where
  "enqueue fs q item = enq_solo fs q (EStart item)"

subsection \<open>Queue::dequeue and Queue::is_empty\<close>

text \<open>\<open>DUninit\<close> is the undefined behaviour of reading a cell that holds no value.\<close>

datatype 'a deq_pc =
    DStart
  | DLoadSeq usize
  | DCas usize
  | DTake usize
  | DRelease usize 'a
  | DUninit
  | DDone "'a option"

fun deq_step :: "bool \<Rightarrow> 'a queue \<Rightarrow> 'a deq_pc \<Rightarrow> 'a queue \<times> 'a deq_pc" where
  "deq_step _ q DStart = (q, DLoadSeq (dequeue_pos q))"
| "deq_step _ q (DLoadSeq pos) =
     (let dif = isize_wrapping_sub (seq (slot_at q pos)) (pos + 1)
      in (q, if dif = 0 then DCas pos else if dif < 0 then DDone None else DStart))"
| "deq_step spurious q (DCas pos) =
     (if dequeue_pos q = pos \<and> \<not> spurious
      then (q\<lparr>dequeue_pos := pos + 1\<rparr>, DTake pos)
      else (q, DLoadSeq (dequeue_pos q)))"
| "deq_step _ q (DTake pos) =
     (case val (slot_at q pos) of
        None \<Rightarrow> (q, DUninit)
      | Some item \<Rightarrow> (set_val q pos None, DRelease pos item))"
| "deq_step _ q (DRelease pos item) = (set_seq q pos (pos + qmask q + 1), DDone (Some item))"
| "deq_step _ q DUninit = (q, DUninit)"
| "deq_step _ q (DDone r) = (q, DDone r)"

fun at_deq_cas :: "'a deq_pc \<Rightarrow> bool" where
  "at_deq_cas (DCas _) = True"
| "at_deq_cas _ = False"

partial_function (option) deq_solo ::
  "bool list \<Rightarrow> 'a queue \<Rightarrow> 'a deq_pc \<Rightarrow> ('a option \<times> 'a queue) option" where
  "deq_solo fs q pc =
     (case pc of
        DDone r \<Rightarrow> Some (r, q)
      | _ \<Rightarrow> (case deq_step (fs \<noteq> [] \<and> hd fs) q pc of
               (q', pc') \<Rightarrow> deq_solo (if at_deq_cas pc then tl fs else fs) q' pc'))"

definition dequeue :: "bool list \<Rightarrow> 'a queue \<Rightarrow> ('a option \<times> 'a queue) option" where
  "dequeue fs q = deq_solo fs q DStart"

definition queue_is_empty :: "'a queue \<Rightarrow> bool" where
  "queue_is_empty q =
     (let pos = dequeue_pos q
      in isize_wrapping_sub (seq (slot_at q pos)) (pos + 1) < 0)"

text \<open>\<open>Drop for Queue\<close>: dequeue until empty; the items come out in the order they are dropped.\<close>

partial_function (option) queue_drop :: "'a queue \<Rightarrow> ('a list \<times> 'a queue) option" where
  "queue_drop q =
     (case dequeue [] q of
        None \<Rightarrow> None
      | Some (None, q') \<Rightarrow> Some ([], q')
      | Some (Some item, q') \<Rightarrow>
          Option.bind (queue_drop q') (\<lambda>(rest, q''). Some (item # rest, q'')))"

subsection \<open>channel, Sender and Receiver\<close>

text \<open>
  \<open>channel(capacity)\<close>. \<open>slot_bytes\<close> is \<open>size_of::<Slot<T>>()\<close>, at least the 8 bytes of \<open>seq\<close>;
  \<open>None\<close> is the panic of \<open>next_power_of_two\<close> or of \<open>Vec::with_capacity\<close>, which refuses more than
  \<open>isize::MAX\<close> bytes. \<open>next_power_of_two\<close> panics when it overflows, which takes a capacity above \<open>2\<^sup>6\<^sup>3\<close>, in a build with overflow
  checks; in one without, it is 0 there. No other result depends on the build.
\<close>

definition channel :: "nat \<Rightarrow> usize \<Rightarrow> 'a queue option" where
  "channel slot_bytes capacity =
     (let cap = next_power_of_two (max (unat capacity) 1)
      in if cap < 2 ^ 64 \<and> cap * slot_bytes < 2 ^ 63
         then Some \<lparr>buffer = map (\<lambda>i. \<lparr>seq = of_nat i, val = None\<rparr>) [0..<cap],
                    qmask = of_nat (cap - 1), enqueue_pos = 0, dequeue_pos = 0,
                    producers = 1, consumer_alive = True\<rparr>
         else None)"

definition sender_try_send :: "bool list \<Rightarrow> 'a queue \<Rightarrow> 'a \<Rightarrow> ('a send_result \<times> 'a queue) option" where
  "sender_try_send fs q item = enqueue fs q item"

definition total_enqueued :: "'a queue \<Rightarrow> usize" where
  "total_enqueued q = enqueue_pos q"

definition total_dequeued :: "'a queue \<Rightarrow> usize" where
  "total_dequeued q = dequeue_pos q"

definition depth :: "'a queue \<Rightarrow> usize" where
  "depth q = saturating_sub (total_enqueued q) (total_dequeued q)"

definition sender_clone :: "'a queue \<Rightarrow> 'a queue" where
  "sender_clone q = q\<lparr>producers := producers q + 1\<rparr>"

definition sender_drop :: "'a queue \<Rightarrow> 'a queue" where
  "sender_drop q = q\<lparr>producers := producers q - 1\<rparr>"

definition receiver_try_recv :: "bool list \<Rightarrow> 'a queue \<Rightarrow> ('a option \<times> 'a queue) option" where
  "receiver_try_recv fs q = dequeue fs q"

definition producers_alive :: "'a queue \<Rightarrow> bool" where
  "producers_alive q \<longleftrightarrow> 0 < producers q"

definition receiver_is_empty :: "'a queue \<Rightarrow> bool" where
  "receiver_is_empty q = queue_is_empty q"

definition receiver_drop :: "'a queue \<Rightarrow> 'a queue" where
  "receiver_drop q = q\<lparr>consumer_alive := False\<rparr>"

subsection \<open>Invariant and abstraction\<close>

text \<open>
  \<open>qlen\<close> messages sit at the positions \<open>dequeue_pos\<close>, \<open>dequeue_pos + 1\<close>, and so on. The slot of a
  filled position carries the position plus one, the slot of a free one the position itself. The
  capacity is a power of two from 2 on; capacity 1 breaks the queue (see \<open>channel_one_spins\<close>).
\<close>

definition queue_wf :: "'a queue \<Rightarrow> bool" where
  "queue_wf q \<longleftrightarrow>
     (\<exists>k\<in>{1..60}. length (buffer q) = 2 ^ k \<and> qmask q = of_nat (2 ^ k - 1))"

definition qlen :: "'a queue \<Rightarrow> nat" where
  "qlen q = unat (enqueue_pos q - dequeue_pos q)"

definition nth_slot :: "'a queue \<Rightarrow> nat \<Rightarrow> 'a slot" where
  "nth_slot q j = slot_at q (dequeue_pos q + of_nat j)"

definition queue_inv :: "'a queue \<Rightarrow> bool" where
  "queue_inv q \<longleftrightarrow>
     queue_wf q \<and> qlen q \<le> length (buffer q) \<and>
     (\<forall>j<length (buffer q).
        if j < qlen q
        then seq (nth_slot q j) = dequeue_pos q + of_nat j + 1 \<and> val (nth_slot q j) \<noteq> None
        else seq (nth_slot q j) = dequeue_pos q + of_nat j \<and> val (nth_slot q j) = None)"

definition queue_abs :: "'a queue \<Rightarrow> 'a mailbox" where
  "queue_abs q =
     \<lparr>items = map (\<lambda>j. the (val (nth_slot q j))) [0..<qlen q], mb_cap = length (buffer q),
      senders = unat (producers q), receiver_alive = consumer_alive q\<rparr>"

subsection \<open>Positions and slots\<close>

lemma index_eq_mod:
  assumes "k \<le> 64" "qmask q = of_nat (2 ^ k - 1)"
  shows "index q (p + of_nat j) = (unat p + j) mod 2 ^ k"
  unfolding index_def assms(2) using assms(1) by (simp only: unat_and_mask unat_add_mod)

lemma queue_wfE:
  assumes "queue_wf q"
  obtains k where "1 \<le> k" "k \<le> 60" "length (buffer q) = 2 ^ k" "qmask q = of_nat (2 ^ k - 1)"
    "\<forall>p j. index q (p + of_nat j) = (unat p + j) mod 2 ^ k"
proof -
  obtain k where "k \<in> {1..60}" "length (buffer q) = 2 ^ k" "qmask q = of_nat (2 ^ k - 1)"
    using assms by (auto simp: queue_wf_def)
  then show thesis
    by (intro that [of k]) (simp_all add: index_eq_mod)
qed

lemma index_in_range: "queue_wf q \<Longrightarrow> index q p < length (buffer q)"
proof (erule queue_wfE)
  fix k assume k: "length (buffer q) = 2 ^ k" "\<forall>p j. index q (p + of_nat j) = (unat p + j) mod 2 ^ k"
  show ?thesis using k(2) [rule_format, of p 0] by (simp add: k(1))
qed

lemma wf_length_bounds: "queue_wf q \<Longrightarrow> 2 \<le> length (buffer q) \<and> length (buffer q) \<le> 2 ^ 60"
proof (erule queue_wfE)
  fix k assume k: "1 \<le> k" "k \<le> 60" "length (buffer q) = 2 ^ k"
  have "(2::nat) ^ 1 \<le> 2 ^ k" "(2::nat) ^ k \<le> 2 ^ 60"
    using k by (intro power_increasing; simp)+
  then show ?thesis using k by simp
qed

lemma index_inj:
  assumes "queue_wf q" "i < length (buffer q)" "j < length (buffer q)"
  shows "index q (p + of_nat i) = index q (p + of_nat j) \<longleftrightarrow> i = j"
proof
  assume eq: "index q (p + of_nat i) = index q (p + of_nat j)"
  obtain k where k: "1 \<le> k" "k \<le> 60" "length (buffer q) = 2 ^ k"
      "qmask q = of_nat (2 ^ k - 1)" "\<forall>p j. index q (p + of_nat j) = (unat p + j) mod 2 ^ k"
    using assms(1) by (rule queue_wfE)
  have "i mod 2 ^ k = j mod 2 ^ k"
    using eq k(5) by (simp add: mod_add_left_cancel)
  then show "i = j" using assms k by simp
qed simp

lemma index_wrap:
  assumes "queue_wf q"
  shows "index q (p + of_nat (length (buffer q))) = index q p"
proof -
  obtain k where k: "1 \<le> k" "k \<le> 60" "length (buffer q) = 2 ^ k"
      "qmask q = of_nat (2 ^ k - 1)" "\<forall>p j. index q (p + of_nat j) = (unat p + j) mod 2 ^ k"
    using assms by (rule queue_wfE)
  show ?thesis using k(5) [rule_format, of p "2 ^ k"] k(5) [rule_format, of p 0] by (simp add: k(3))
qed

lemma mask_plus_one:
  assumes "queue_wf q"
  shows "p + qmask q + 1 = p + of_nat (length (buffer q))"
proof -
  obtain k where k: "1 \<le> k" "k \<le> 60" "length (buffer q) = 2 ^ k"
      "qmask q = of_nat (2 ^ k - 1)" "\<forall>p j. index q (p + of_nat j) = (unat p + j) mod 2 ^ k"
    using assms by (rule queue_wfE)
  then show ?thesis by (simp add: of_nat_diff)
qed

lemma enqueue_pos_qlen: "enqueue_pos q = dequeue_pos q + of_nat (qlen q)"
  by (simp add: qlen_def)

lemma queue_inv_wf [dest]: "queue_inv q \<Longrightarrow> queue_wf q"
  by (simp add: queue_inv_def)

lemma queue_inv_filled:
  "queue_inv q \<Longrightarrow> j < qlen q \<Longrightarrow>
     seq (nth_slot q j) = dequeue_pos q + of_nat j + 1 \<and> val (nth_slot q j) \<noteq> None"
  by (auto simp: queue_inv_def)

lemma queue_inv_free:
  "queue_inv q \<Longrightarrow> qlen q \<le> j \<Longrightarrow> j < length (buffer q) \<Longrightarrow>
     seq (nth_slot q j) = dequeue_pos q + of_nat j \<and> val (nth_slot q j) = None"
  by (auto simp: queue_inv_def)

subsection \<open>What a completed enqueue and a completed dequeue do to the queue\<close>

definition pushed :: "'a queue \<Rightarrow> 'a \<Rightarrow> 'a queue" where
  "pushed q item =
     q\<lparr>enqueue_pos := enqueue_pos q + 1,
       buffer := (buffer q)[index q (enqueue_pos q) := \<lparr>seq = enqueue_pos q + 1, val = Some item\<rparr>]\<rparr>"

definition popped :: "'a queue \<Rightarrow> 'a queue" where
  "popped q =
     q\<lparr>dequeue_pos := dequeue_pos q + 1,
       buffer := (buffer q)[index q (dequeue_pos q) :=
                   \<lparr>seq = dequeue_pos q + of_nat (length (buffer q)), val = None\<rparr>]\<rparr>"

lemma pushed_simps [simp]:
  "buffer (pushed q item) =
     (buffer q)[index q (enqueue_pos q) := \<lparr>seq = enqueue_pos q + 1, val = Some item\<rparr>]"
  "enqueue_pos (pushed q item) = enqueue_pos q + 1" "dequeue_pos (pushed q item) = dequeue_pos q"
  "qmask (pushed q item) = qmask q" "producers (pushed q item) = producers q"
  "consumer_alive (pushed q item) = consumer_alive q" "index (pushed q item) p = index q p"
  by (simp_all add: pushed_def index_def)

lemma popped_simps [simp]:
  "buffer (popped q) = (buffer q)[index q (dequeue_pos q) :=
     \<lparr>seq = dequeue_pos q + of_nat (length (buffer q)), val = None\<rparr>]"
  "enqueue_pos (popped q) = enqueue_pos q" "dequeue_pos (popped q) = dequeue_pos q + 1"
  "qmask (popped q) = qmask q" "producers (popped q) = producers q"
  "consumer_alive (popped q) = consumer_alive q" "index (popped q) p = index q p"
  by (simp_all add: popped_def index_def)

lemma slot_eqI [simp]: "s\<lparr>val := v, seq := n\<rparr> = \<lparr>seq = n, val = v\<rparr>"
  by (cases s) simp

lemma enq_solo_commit:
  assumes "seq (slot_at q (enqueue_pos q)) = enqueue_pos q" "index q (enqueue_pos q) < length (buffer q)"
  shows "enq_solo fs q (ELoadSeq item (enqueue_pos q)) = Some (Ok (), pushed q item)"
proof (induction fs)
  case Nil
  show ?case
    using assms by (simp add: enq_solo.simps set_val_def set_seq_def slot_at_def index_def pushed_def)
next
  case (Cons f fs)
  show ?case
  proof (cases f)
    case True
    then show ?thesis
      using assms Cons by (subst enq_solo.simps, simp, subst enq_solo.simps, simp)
  next
    case False
    then show ?thesis
      using assms by (simp add: enq_solo.simps set_val_def set_seq_def slot_at_def index_def pushed_def)
  qed
qed

lemma deq_solo_commit:
  assumes "seq (slot_at q (dequeue_pos q)) = dequeue_pos q + 1" "queue_wf q"
    and "val (slot_at q (dequeue_pos q)) = Some item"
  shows "deq_solo fs q (DLoadSeq (dequeue_pos q)) = Some (Some item, popped q)"
proof (induction fs)
  case Nil
  show ?case
    using assms index_in_range [OF assms(2), of "dequeue_pos q"]
      mask_plus_one [OF assms(2), of "dequeue_pos q"]
    by (simp add: deq_solo.simps set_val_def set_seq_def slot_at_def index_def popped_def add.assoc)
next
  case (Cons f fs)
  show ?case
  proof (cases f)
    case True
    then show ?thesis
      using assms Cons by (subst deq_solo.simps, simp, subst deq_solo.simps, simp)
  next
    case False
    then show ?thesis
      using assms index_in_range [OF assms(2), of "dequeue_pos q"]
        mask_plus_one [OF assms(2), of "dequeue_pos q"]
      by (simp add: deq_solo.simps set_val_def set_seq_def slot_at_def index_def popped_def add.assoc)
  qed
qed

lemma enqueue_inv_cases:
  assumes "queue_inv q"
  shows "enqueue fs q item =
    (if \<not> consumer_alive q then Some (Err (Closed item), q)
     else if qlen q < length (buffer q) then Some (Ok (), pushed q item)
     else Some (Err (Full item), q))"
proof -
  note wf = queue_inv_wf [OF assms]
  have len: "2 \<le> length (buffer q)" "length (buffer q) \<le> 2 ^ 60" "qlen q \<le> length (buffer q)"
      "buffer q \<noteq> []"
    using wf_length_bounds [OF wf] assms by (auto simp: queue_inv_def)
  have room: "seq (slot_at q (enqueue_pos q)) = enqueue_pos q" if "qlen q < length (buffer q)"
    using queue_inv_free [OF assms order_refl that] by (simp add: nth_slot_def enqueue_pos_qlen)
  have full: "isize_wrapping_sub (seq (slot_at q (enqueue_pos q))) (enqueue_pos q) < 0"
    if "qlen q = length (buffer q)"
  proof -
    have "seq (slot_at q (enqueue_pos q)) = dequeue_pos q + 1"
      using queue_inv_filled [OF assms, of 0] that len index_wrap [OF wf]
      by (simp add: nth_slot_def slot_at_def enqueue_pos_qlen)
    moreover have "enqueue_pos q = dequeue_pos q + 1 + of_nat (qlen q - 1)"
      using that len by (simp add: enqueue_pos_qlen of_nat_diff)
    ultimately show ?thesis
      using isize_wrapping_sub_neg [of "qlen q - 1" "dequeue_pos q + 1"] that len by simp
  qed
  consider "\<not> consumer_alive q" | "consumer_alive q" "qlen q < length (buffer q)"
    | "consumer_alive q" "qlen q = length (buffer q)"
    using len by linarith
  then show ?thesis
  proof cases
    case 1
    then show ?thesis by (simp add: enqueue_def enq_solo.simps)
  next
    case 2
    with enq_solo_commit [OF room index_in_range [OF wf]] show ?thesis
      by (simp add: enqueue_def enq_solo.simps [of fs q "EStart item"]
          enq_solo.simps [of fs q "ELoadPos item"])
  next
    case 3
    with full have "seq (slot_at q (enqueue_pos q)) \<noteq> enqueue_pos q"
      by (auto simp: isize_wrapping_sub_def)
    with 3 full show ?thesis by (simp add: enqueue_def enq_solo.simps Let_def)
  qed
qed

lemma dequeue_inv_cases:
  assumes "queue_inv q"
  shows "dequeue fs q =
    (if qlen q = 0 then Some (None, q)
     else Some (val (nth_slot q 0), popped q))"
proof -
  note wf = queue_inv_wf [OF assms]
  have slot0: "slot_at q (dequeue_pos q) = nth_slot q 0"
    by (simp add: nth_slot_def)
  have len: "buffer q \<noteq> []"
    using wf_length_bounds [OF wf] by auto
  show ?thesis
  proof (cases "qlen q = 0")
    case True
    then have "seq (slot_at q (dequeue_pos q)) = dequeue_pos q"
      using queue_inv_free [OF assms, of 0] len slot0 by simp
    moreover have "isize_wrapping_sub (dequeue_pos q) (dequeue_pos q + 1) = - 1"
      using isize_wrapping_sub_neg [of 1 "dequeue_pos q"] by simp
    ultimately show ?thesis
      using True by (simp add: dequeue_def deq_solo.simps Let_def)
  next
    case False
    then obtain item where "val (nth_slot q 0) = Some item"
      using queue_inv_filled [OF assms, of 0] by auto
    then show ?thesis
      using False queue_inv_filled [OF assms, of 0] slot0 wf
        deq_solo_commit [of q item fs]
      by (simp add: dequeue_def deq_solo.simps [of fs q DStart])
  qed
qed

subsection \<open>The invariant is kept, and the abstraction follows\<close>

lemma qlen_bound: "queue_inv q \<Longrightarrow> qlen q \<le> 2 ^ 60"
  using wf_length_bounds [of q] by (auto simp: queue_inv_def)

lemma qlen_pushed: "queue_inv q \<Longrightarrow> qlen (pushed q item) = Suc (qlen q)"
proof -
  assume "queue_inv q"
  have "qlen (pushed q item) = unat ((enqueue_pos q - dequeue_pos q) + 1)"
    by (simp add: qlen_def algebra_simps)
  also have "\<dots> = Suc (qlen q)"
    using qlen_bound [OF \<open>queue_inv q\<close>] by (simp add: qlen_def unat_word_ariths)
  finally show ?thesis .
qed

lemma qlen_popped: "0 < qlen q \<Longrightarrow> qlen (popped q) = qlen q - 1"
proof -
  assume "0 < qlen q"
  have "qlen (popped q) = unat ((enqueue_pos q - dequeue_pos q) - 1)"
    by (simp add: qlen_def algebra_simps)
  also have "\<dots> = qlen q - 1"
    using \<open>0 < qlen q\<close> by (simp add: qlen_def unat_minus_one unat_gt_0)
  finally show ?thesis .
qed

lemma nth_slot_pushed:
  assumes "queue_inv q" "qlen q < length (buffer q)" "j < length (buffer q)"
  shows "nth_slot (pushed q item) j =
    (if j = qlen q then \<lparr>seq = enqueue_pos q + 1, val = Some item\<rparr> else nth_slot q j)"
proof -
  note wf = queue_inv_wf [OF assms(1)]
  have "index q (dequeue_pos q + of_nat j) = index q (enqueue_pos q) \<longleftrightarrow> j = qlen q"
    using index_inj [OF wf assms(3,2), of "dequeue_pos q"] by (simp only: enqueue_pos_qlen)
  then show ?thesis
    using index_in_range [OF wf, of "enqueue_pos q"]
    by (auto simp: nth_slot_def slot_at_def)
qed

lemma nth_slot_popped:
  assumes "queue_wf q" "j < length (buffer q)"
  shows "nth_slot (popped q) j =
    (if j = length (buffer q) - 1 then \<lparr>seq = dequeue_pos q + of_nat (length (buffer q)), val = None\<rparr>
     else nth_slot q (Suc j))"
proof -
  have p: "dequeue_pos q + 1 + of_nat j = dequeue_pos q + of_nat (Suc j)"
    by simp
  show ?thesis
  proof (cases "Suc j < length (buffer q)")
    case True
    then have "index q (dequeue_pos q + of_nat (Suc j)) \<noteq> index q (dequeue_pos q)"
      using index_inj [OF assms(1) True, of 0 "dequeue_pos q"] True
      by (cases "buffer q") (auto simp del: of_nat_Suc)
    then show ?thesis
      using True by (auto simp: nth_slot_def slot_at_def p simp del: of_nat_Suc)
  next
    case False
    then have "Suc j = length (buffer q)"
      using assms(2) by simp
    then show ?thesis
      using index_wrap [OF assms(1), of "dequeue_pos q"] index_in_range [OF assms(1), of "dequeue_pos q"]
      by (auto simp: nth_slot_def slot_at_def p simp del: of_nat_Suc)
  qed
qed

lemma queue_wf_pushed [simp]: "queue_wf (pushed q item) = queue_wf q"
  by (simp add: queue_wf_def)

lemma queue_wf_popped [simp]: "queue_wf (popped q) = queue_wf q"
  by (simp add: queue_wf_def)

lemma queue_inv_pushed:
  assumes "queue_inv q" "qlen q < length (buffer q)"
  shows "queue_inv (pushed q item)"
proof -
  have fields: "length (buffer (pushed q item)) = length (buffer q)"
      "dequeue_pos (pushed q item) = dequeue_pos q"
    by simp_all
  show ?thesis
    using assms(2) queue_inv_filled [OF assms(1)] queue_inv_free [OF assms(1)] queue_inv_wf [OF assms(1)]
    unfolding queue_inv_def fields qlen_pushed [OF assms(1)]
    by (auto simp: nth_slot_pushed [OF assms] enqueue_pos_qlen less_Suc_eq)
qed

lemma queue_inv_popped:
  assumes "queue_inv q" "0 < qlen q"
  shows "queue_inv (popped q)"
proof -
  note wf = queue_inv_wf [OF assms(1)]
  have fields: "length (buffer (popped q)) = length (buffer q)"
      "dequeue_pos (popped q) = dequeue_pos q + 1"
    by simp_all
  have "qlen q \<le> length (buffer q)" "2 \<le> length (buffer q)"
    using assms(1) wf_length_bounds [OF wf] by (auto simp: queue_inv_def)
  moreover have "of_nat (length (buffer q)) = (1 :: usize) + of_nat (length (buffer q) - 1)"
    using \<open>2 \<le> length (buffer q)\<close> by (simp add: of_nat_diff)
  ultimately show ?thesis
    using assms(2) wf queue_inv_filled [OF assms(1), of "Suc j" for j]
      queue_inv_free [OF assms(1), of "Suc j" for j]
    unfolding queue_inv_def fields qlen_popped [OF assms(2)]
    by (auto simp: nth_slot_popped [OF wf] add.assoc add.commute add.left_commute)
qed

lemma abs_pushed:
  assumes "queue_inv q" "qlen q < length (buffer q)"
  shows "queue_abs (pushed q item) = (queue_abs q)\<lparr>items := items (queue_abs q) @ [item]\<rparr>"
proof -
  have "map (\<lambda>j. the (val (nth_slot (pushed q item) j))) [0..<Suc (qlen q)] =
      map (\<lambda>j. the (val (nth_slot q j))) [0..<qlen q] @ [item]"
    using assms(2) nth_slot_pushed [OF assms, of _ item] by simp
  then show ?thesis
    by (simp add: queue_abs_def qlen_pushed [OF assms(1)])
qed

lemma abs_popped:
  assumes "queue_inv q" "0 < qlen q"
  shows "items (queue_abs q) = the (val (nth_slot q 0)) # items (queue_abs (popped q))"
    and "queue_abs (popped q) = (queue_abs q)\<lparr>items := tl (items (queue_abs q))\<rparr>"
proof -
  have "qlen q \<le> length (buffer q)"
    using assms(1) by (simp add: queue_inv_def)
  then have "map (\<lambda>j. the (val (nth_slot (popped q) j))) [0..<qlen q - 1] =
      map (\<lambda>j. the (val (nth_slot q (Suc j)))) [0..<qlen q - 1]"
    using nth_slot_popped [OF queue_inv_wf [OF assms(1)]] by auto
  then have tl: "map (\<lambda>j. the (val (nth_slot (popped q) j))) [0..<qlen q - 1] =
      map (\<lambda>j. the (val (nth_slot q j))) [1..<qlen q]"
    using assms(2) map_Suc_upt [of 0 "qlen q - 1"] by (metis (no_types, lifting) One_nat_def
        Suc_diff_1 list.map_comp map_eq_conv comp_apply)
  have hd: "[0..<qlen q] = 0 # [1..<qlen q]"
    using assms(2) by (simp add: upt_conv_Cons)
  show "items (queue_abs q) = the (val (nth_slot q 0)) # items (queue_abs (popped q))"
    using tl hd by (simp add: queue_abs_def qlen_popped [OF assms(2)])
  then show "queue_abs (popped q) = (queue_abs q)\<lparr>items := tl (items (queue_abs q))\<rparr>"
    by (simp add: queue_abs_def)
qed

subsection \<open>The queue implements a mailbox\<close>

lemma items_abs_length [simp]: "length (items (queue_abs q)) = qlen q"
  by (simp add: queue_abs_def)

lemma abs_simps [simp]:
  "mb_cap (queue_abs q) = length (buffer q)" "senders (queue_abs q) = unat (producers q)"
  "receiver_alive (queue_abs q) = consumer_alive q"
  by (simp_all add: queue_abs_def)

lemma enqueue_refines:
  assumes "queue_inv q" "mb_try_send (queue_abs q) m = (r, mb)"
  shows "\<exists>q'. sender_try_send fs q m = Some (r, q') \<and> queue_inv q' \<and> queue_abs q' = mb"
  using assms(2) enqueue_inv_cases [OF assms(1), of fs m] queue_inv_pushed [OF assms(1), of m]
    abs_pushed [OF assms(1), of m] assms(1)
  by (auto simp: mb_try_send_def sender_try_send_def split: if_splits)

lemma dequeue_refines:
  assumes "queue_inv q" "mb_try_recv (queue_abs q) = (r, mb)"
  shows "\<exists>q'. receiver_try_recv fs q = Some (r, q') \<and> queue_inv q' \<and> queue_abs q' = mb"
proof (cases "qlen q = 0")
  case True
  then have "items (queue_abs q) = []"
    by (metis items_abs_length length_0_conv)
  with True assms dequeue_inv_cases [OF assms(1), of fs] show ?thesis
    by (simp add: mb_try_recv_def receiver_try_recv_def)
next
  case False
  then obtain item where item: "val (nth_slot q 0) = Some item"
    using queue_inv_filled [OF assms(1), of 0] by auto
  have "items (queue_abs q) = item # items (queue_abs (popped q))"
    using abs_popped(1) [OF assms(1)] False item by simp
  then have "r = Some item" "mb = queue_abs (popped q)"
    using assms(2) abs_popped(2) [OF assms(1)] False
    by (auto simp: mb_try_recv_def split: list.splits)
  then show ?thesis
    using False item dequeue_inv_cases [OF assms(1), of fs] queue_inv_popped [OF assms(1)]
    by (simp add: receiver_try_recv_def)
qed

lemma is_empty_refines:
  assumes "queue_inv q"
  shows "receiver_is_empty q = mb_is_empty (queue_abs q)"
proof -
  have ne: "buffer q \<noteq> []"
    using wf_length_bounds [OF queue_inv_wf [OF assms]] by auto
  have "isize_wrapping_sub (dequeue_pos q) (dequeue_pos q + 1) = - 1"
    using isize_wrapping_sub_neg [of 1 "dequeue_pos q"] by simp
  then have "queue_is_empty q \<longleftrightarrow> qlen q = 0"
    using queue_inv_filled [OF assms, of 0] queue_inv_free [OF assms, of 0] ne
    by (cases "qlen q = 0")
      (auto simp: queue_is_empty_def Let_def nth_slot_def isize_wrapping_sub_def)
  then show ?thesis
    by (metis items_abs_length length_0_conv mb_is_empty_def receiver_is_empty_def)
qed

lemma handle_counts_inv [simp]:
  "queue_inv (q\<lparr>producers := n\<rparr>) = queue_inv q" "queue_inv (q\<lparr>consumer_alive := b\<rparr>) = queue_inv q"
  by (simp_all add: queue_inv_def queue_wf_def qlen_def nth_slot_def slot_at_def index_def)

lemma handle_counts_abs [simp]:
  "queue_abs (q\<lparr>producers := n\<rparr>) = (queue_abs q)\<lparr>senders := unat n\<rparr>"
  "queue_abs (q\<lparr>consumer_alive := b\<rparr>) = (queue_abs q)\<lparr>receiver_alive := b\<rparr>"
  by (simp_all add: queue_abs_def qlen_def nth_slot_def slot_at_def index_def)

interpretation mpsc: mailbox_impl queue_inv queue_abs "2 ^ 64 - 1" "sender_try_send fs"
  "receiver_try_recv fs" receiver_is_empty producers_alive sender_clone sender_drop receiver_drop
  for fs :: "bool list"
proof unfold_locales
  fix q :: "'a queue"
  assume "queue_inv q"
  then show "producers_alive q = mb_producers_alive (queue_abs q)"
    by (simp add: producers_alive_def mb_producers_alive_def unat_gt_0 word_gt_0)
next
  fix q :: "'a queue"
  assume "queue_inv q" "senders (queue_abs q) < 2 ^ 64 - 1"
  then show "queue_inv (sender_clone q) \<and> queue_abs (sender_clone q) = mb_clone (queue_abs q)"
    by (simp add: sender_clone_def mb_clone_def unat_word_ariths)
next
  fix q :: "'a queue"
  assume "queue_inv q" "0 < senders (queue_abs q)"
  then show "queue_inv (sender_drop q) \<and> queue_abs (sender_drop q) = mb_drop_sender (queue_abs q)"
    by (simp add: sender_drop_def mb_drop_sender_def unat_minus_one unat_gt_0)
qed (simp_all add: enqueue_refines dequeue_refines is_empty_refines receiver_drop_def
      mb_drop_receiver_def)

subsection \<open>Construction and teardown\<close>

lemma pow2_ge_2: "2 \<le> (2::nat) ^ k \<Longrightarrow> 1 \<le> k"
  by (cases k) auto

lemma channel_inv:
  assumes "channel slot_bytes capacity = Some q" "8 \<le> slot_bytes" "2 \<le> unat capacity"
  shows "queue_inv q \<and> queue_abs q = mb_new (next_power_of_two (unat capacity))"
proof -
  let ?cap = "next_power_of_two (unat capacity)"
  obtain k where k: "?cap = 2 ^ k"
    using next_power_of_two_pow2 by blast
  have m: "max (unat capacity) 1 = unat capacity"
    using assms(3) by simp
  have ge: "2 \<le> (2::nat) ^ k"
    using next_power_of_two_ge [of "unat capacity"] assms(3) k by linarith
  have bytes: "?cap * slot_bytes < 2 ^ 63"
    and q: "q = \<lparr>buffer = map (\<lambda>i. \<lparr>seq = of_nat i, val = None\<rparr>) [0..<?cap],
                 qmask = of_nat (?cap - 1), enqueue_pos = 0, dequeue_pos = 0,
                 producers = 1, consumer_alive = True\<rparr>"
    using assms(1) m by (auto simp: channel_def Let_def split: if_splits)
  have "?cap * 8 < 2 ^ 63"
    using bytes assms(2) by (meson le_less_trans mult_le_mono2)
  then have "(2::nat) ^ k < 2 ^ 60"
    using k by simp
  then have "k < 60"
    by (rule power_less_imp_less_exp [rotated]) simp
  then have k60: "1 \<le> k" "k \<le> 60"
    using pow2_ge_2 [OF ge] by simp_all
  have wf: "queue_wf q"
    using k k60 unfolding queue_wf_def by (intro bexI [of _ k]) (simp_all add: q)
  have idx: "index q (of_nat j) = j" if "j < 2 ^ k" for j
    using index_eq_mod [of k q 0 j] k k60 that by (simp add: q)
  have "queue_inv q"
    using wf idx k by (simp add: queue_inv_def qlen_def nth_slot_def slot_at_def q)
  moreover have "queue_abs q = mb_new ?cap"
    using k by (simp add: queue_abs_def mb_new_def qlen_def q)
  ultimately show ?thesis ..
qed

lemma queue_drop_items:
  "queue_inv q \<Longrightarrow> \<exists>q'. queue_drop q = Some (items (queue_abs q), q') \<and> queue_inv q' \<and> qlen q' = 0"
proof (induction "qlen q" arbitrary: q)
  case 0
  then have "items (queue_abs q) = []"
    by (metis items_abs_length length_0_conv)
  with 0 show ?case
    by (subst queue_drop.simps) (simp add: dequeue_inv_cases)
next
  case (Suc n)
  then have pos: "0 < qlen q"
    by simp
  then obtain item where item: "val (nth_slot q 0) = Some item"
    using queue_inv_filled [OF Suc.prems, of 0] by auto
  have "n = qlen (popped q)"
    using qlen_popped [OF pos] Suc.hyps(2) by simp
  then obtain q' where q': "queue_drop (popped q) = Some (items (queue_abs (popped q)), q')"
      "queue_inv q'" "qlen q' = 0"
    using Suc.hyps(1) queue_inv_popped [OF Suc.prems pos] by blast
  show ?case
    using pos q' item abs_popped(1) [OF Suc.prems pos] dequeue_inv_cases [OF Suc.prems, of "[]"]
    by (subst queue_drop.simps) simp
qed

subsection \<open>Observability\<close>

lemma depth_no_wrap:
  "dequeue_pos q \<le> enqueue_pos q \<Longrightarrow> unat (depth q) = length (items (queue_abs q))"
  by (simp add: depth_def saturating_sub_def total_enqueued_def total_dequeued_def qlen_def
      linorder_not_le [symmetric])

lemma depth_after_wrap: "enqueue_pos q < dequeue_pos q \<Longrightarrow> depth q = 0"
  by (simp add: depth_def saturating_sub_def total_enqueued_def total_dequeued_def)

subsection \<open>Capacity one\<close>

text \<open>
  With a single slot the mark \<open>pos + 1\<close> of a filled position is the mark of the next free one, so
  a second send overwrites the first message, and the consumer then waits for a mark that never
  comes back.
\<close>

lemma deq_solo_spins:
  assumes "0 < isize_wrapping_sub (seq (slot_at q (dequeue_pos q))) (dequeue_pos q + 1)"
    and "pc = DStart \<or> pc = DLoadSeq (dequeue_pos q)"
  shows "deq_solo fs q pc = None"
proof (rule ccontr)
  have ne: "seq (slot_at q (dequeue_pos q)) \<noteq> dequeue_pos q + 1"
    using assms(1) by (auto simp: isize_wrapping_sub_def)
  assume "deq_solo fs q pc \<noteq> None"
  then obtain r where r: "deq_solo fs q pc = Some r"
    by blast
  have "\<not> (q' = q \<and> (pc' = DStart \<or> pc' = DLoadSeq (dequeue_pos q)))"
    if "deq_solo fs' q' pc' = Some r" for fs' q' pc'
  proof (rule deq_solo.raw_induct [where P = "\<lambda>fs' q' pc' r.
        \<not> (q' = q \<and> (pc' = DStart \<or> pc' = DLoadSeq (dequeue_pos q)))", OF _ that])
    fix f fs' q' pc' r
    assume IH: "\<And>fs' q' pc' r. f fs' q' pc' = Some r \<Longrightarrow>
        \<not> (q' = q \<and> (pc' = DStart \<or> pc' = DLoadSeq (dequeue_pos q)))"
      and eq: "(case pc' of DDone r \<Rightarrow> Some (r, q')
        | _ \<Rightarrow> (case deq_step (fs' \<noteq> [] \<and> hd fs') q' pc' of
            (q'', pc'') \<Rightarrow> f (if at_deq_cas pc' then tl fs' else fs') q'' pc'')) = Some r"
    show "\<not> (q' = q \<and> (pc' = DStart \<or> pc' = DLoadSeq (dequeue_pos q)))"
      using IH [of fs' q "DLoadSeq (dequeue_pos q)" r] IH [of fs' q DStart r] eq assms(1) ne
      by (auto simp: Let_def)
  qed
  with r assms(2) show False by blast
qed

lemma channel_one:
  "channel 16 1 = Some \<lparr>buffer = [\<lparr>seq = 0, val = None\<rparr>], qmask = 0, enqueue_pos = 0,
     dequeue_pos = 0, producers = 1, consumer_alive = True\<rparr>"
  by (simp add: channel_def next_power_of_two_def npot_from.simps)

lemma channel_one_sends:
  "sender_try_send [] (the (channel 16 1)) a =
     Some (Ok (), \<lparr>buffer = [\<lparr>seq = 1, val = Some a\<rparr>], qmask = 0, enqueue_pos = 1,
       dequeue_pos = 0, producers = 1, consumer_alive = True\<rparr>)"
  "sender_try_send [] \<lparr>buffer = [\<lparr>seq = 1, val = Some a\<rparr>], qmask = 0, enqueue_pos = 1,
       dequeue_pos = 0, producers = 1, consumer_alive = True\<rparr> b =
     Some (Ok (), \<lparr>buffer = [\<lparr>seq = 2, val = Some b\<rparr>], qmask = 0, enqueue_pos = 2,
       dequeue_pos = 0, producers = 1, consumer_alive = True\<rparr>)"
  by (simp_all add: channel_one sender_try_send_def enqueue_def enq_solo.simps slot_at_def index_def
      set_val_def set_seq_def Let_def)

subsection \<open>Properties\<close>

lemma channel_two:
  "channel 16 2 = Some \<lparr>buffer = [\<lparr>seq = 0, val = None\<rparr>, \<lparr>seq = 1, val = None\<rparr>], qmask = 1,
     enqueue_pos = 0, dequeue_pos = 0, producers = 1, consumer_alive = True\<rparr>"
  by (simp add: channel_def next_power_of_two_def npot_from.simps upt_rec)

lemma next_power_of_two_2 [simp]: "next_power_of_two 2 = 2"
  by (simp add: next_power_of_two_def npot_from.simps)

text \<open>
  C3: a channel of capacity 2 or more behaves, for any sequence of calls on its two ends, as a
  bounded FIFO of that capacity rounded up to a power of two. Every call returns, the answers are
  those of the specification whatever spurious failures the exchanges have, what was received
  followed by what is still queued is what was accepted, and the queue never holds more than its
  capacity.
\<close>

theorem mpsc_refines_fifo:
  assumes "channel slot_bytes capacity = Some q" "8 \<le> slot_bytes" "2 \<le> unat capacity"
    and "senders_ok (2 ^ 64 - 1) ops 1"
    and "mb_run ops (mb_new (next_power_of_two (unat capacity))) = (rs, mb)"
  shows "\<exists>q'. run_steps (impl_step (sender_try_send fs) (receiver_try_recv fs) receiver_is_empty
               producers_alive sender_clone sender_drop receiver_drop) ops q = Some (rs, q') \<and>
             queue_inv q' \<and> queue_abs q' = mb \<and> delivered rs @ items mb = accepted ops rs \<and>
             length (items mb) \<le> next_power_of_two (unat capacity)"
proof -
  have q: "queue_inv q" "queue_abs q = mb_new (next_power_of_two (unat capacity))"
    using channel_inv [OF assms(1-3)] by auto
  show ?thesis
    using mpsc.run_sim [OF q(1), of ops rs mb fs] assms(4,5) q(2) mb_run_fifo [OF assms(5)]
      mb_run_capacity [OF assms(5)] by auto
qed

lemma mpsc_refines_fifo_witness:
  "\<exists>q q'. channel 16 2 = Some q \<and>
     run_steps (impl_step (sender_try_send [True]) (receiver_try_recv [True]) receiver_is_empty
       producers_alive sender_clone sender_drop receiver_drop)
       [Send (1::nat), CloneSender, Send 2, Send 3, Recv, Recv, Recv, DropReceiver, Send 4] q =
     Some ([Sent (Ok ()), Done, Sent (Ok ()), Sent (Err (Full 3)), Received (Some 1), Received (Some 2),
       Received None, Done, Sent (Err (Closed 4))], q')"
  using mpsc_refines_fifo [OF channel_two, of
      "[Send (1::nat), CloneSender, Send 2, Send 3, Recv, Recv, Recv, DropReceiver, Send 4]" _ _ "[True]"]
    channel_two
  by (simp add: mb_defs) blast

text \<open>
  \<open>try_send\<close> on each of its branches, at any position, wrapped or not, and under any spurious
  failures: to a dead receiver and on a full queue it hands the message back and leaves the queue as
  it was, otherwise it puts the message behind all others; in no case does it loop.
\<close>

theorem try_send_branches:
  assumes "queue_inv q"
  shows "\<exists>q'. sender_try_send fs q m =
      Some (if \<not> consumer_alive q then Err (Closed m)
            else if length (items (queue_abs q)) = length (buffer q) then Err (Full m) else Ok (), q') \<and>
    queue_inv q' \<and>
    (consumer_alive q \<and> length (items (queue_abs q)) \<noteq> length (buffer q) \<or> q' = q) \<and>
    (consumer_alive q \<and> length (items (queue_abs q)) \<noteq> length (buffer q) \<longrightarrow>
       items (queue_abs q') = items (queue_abs q) @ [m])"
  using enqueue_inv_cases [OF assms, of fs m] queue_inv_pushed [OF assms, of m]
    abs_pushed [OF assms, of m] assms
  by (auto simp: sender_try_send_def queue_inv_def)

lemma try_send_branches_witness:
  "\<exists>q'. sender_try_send [True, True] (the (channel 16 2)) (7::nat) = Some (Ok (), q') \<and> items (queue_abs q') = [7]"
proof -
  let ?q = "the (channel 16 2) :: nat queue"
  have q: "queue_inv ?q" "queue_abs ?q = mb_new 2" "consumer_alive ?q" "length (buffer ?q) = 2"
    using channel_inv [of 16 2 ?q] by (simp_all add: channel_two)
  show ?thesis
    using try_send_branches [OF q(1), of "[True, True]" 7] q by (auto simp: mb_new_def)
qed

text \<open>
  Dropping the queue, which happens when its last handle is gone, returns and drops every message
  still inside exactly once, oldest first.
\<close>

theorem queue_drop_drops_all:
  assumes "queue_inv q"
  shows "\<exists>q'. queue_drop q = Some (items (queue_abs q), q') \<and> queue_inv q' \<and> items (queue_abs q') = []"
  using queue_drop_items [OF assms] by (metis items_abs_length length_0_conv)

lemma queue_drop_drops_all_witness:
  "\<exists>q q'. sender_try_send [] (the (channel 16 2)) (7::nat) = Some (Ok (), q) \<and> queue_drop q = Some ([7], q')"
proof -
  let ?q = "the (channel 16 2) :: nat queue"
  have q: "queue_inv ?q" "queue_abs ?q = mb_new 2"
    using channel_inv [of 16 2 ?q] by (simp_all add: channel_two)
  then obtain q where s: "sender_try_send [] ?q 7 = Some (Ok (), q)" "queue_inv q" "items (queue_abs q) = [7]"
    using enqueue_refines [OF q(1), of 7 "Ok ()" "(mb_new 2)\<lparr>items := [7]\<rparr>" "[]"]
    by (auto simp: mb_try_send_def mb_new_def)
  then show ?thesis using queue_drop_drops_all [OF s(2)] by auto
qed

text \<open>
  \<open>channel(1)\<close> makes a queue that does not work: two sends in a row both report success although
  there is one slot, and every later \<open>try_recv\<close> loops without end (\<open>None\<close>), so the first message is
  overwritten and the second never comes out.
\<close>

theorem channel_one_spins:
  "\<exists>q1 q2. sender_try_send [] (the (channel 16 1)) (a::'a) = Some (Ok (), q1) \<and>
     sender_try_send [] q1 b = Some (Ok (), q2) \<and> (\<forall>fs. receiver_try_recv fs q2 = None)"
proof -
  let ?q2 = "\<lparr>buffer = [\<lparr>seq = 2, val = Some b\<rparr>], qmask = 0, enqueue_pos = 2,
       dequeue_pos = 0, producers = 1, consumer_alive = True\<rparr> :: 'a queue"
  have "receiver_try_recv fs ?q2 = None" for fs
    unfolding receiver_try_recv_def dequeue_def
    by (rule deq_solo_spins) (simp_all add: slot_at_def index_def isize_wrapping_sub_def)
  then show ?thesis using channel_one_sends [of a] by blast
qed

end
