(* ===== verification/Mpsc_Conc.thy ===== *)
theory Mpsc_Conc
  imports Mpsc
begin

text \<open>
  Any number of producers and the one consumer of \<open>core/src/mpsc.rs\<close> at work on one queue at the
  same time. An action lets one thread make its next access (the steps of theory \<open>Mpsc\<close>), start or
  finish a call, clone or drop a sending end, or drop the receiving end; a schedule is any sequence of
  actions. Accesses interleave sequentially consistently: what the \<open>Acquire\<close>, \<open>Release\<close> and
  \<open>Relaxed\<close> annotations would permit beyond that is outside the model.
\<close>

subsection \<open>State\<close>

text \<open>
  A thread that holds a \<open>Sender\<close> is between calls or inside \<open>try_send\<close> with its message. Each sending end is used by one
  thread at a time; threads that share one through a reference instead of cloning it are not covered.
\<close>

datatype 'a producer = Gone | Idle | Busy 'a "'a enq_pc"

datatype 'a consumer = CIdle | CBusy "'a deq_pc" | CGone

text \<open>
  The last three fields only record history: the messages in the order their producers reserved a
  position, the messages in the order the consumer took them out, and what each producer's calls
  returned.
\<close>

record 'a conc =
  shared :: "'a queue"
  prods :: "nat \<Rightarrow> 'a producer"
  cons :: "'a consumer"
  enq_log :: "(nat \<times> 'a) list"
  deq_log :: "'a list"
  returns :: "nat \<Rightarrow> ('a \<times> 'a send_result) list"

definition conc_init :: "'a queue \<Rightarrow> 'a conc" where
  "conc_init q = \<lparr>shared = q, prods = (\<lambda>_. Gone)(0 := Idle), cons = CIdle,
     enq_log = [], deq_log = [], returns = (\<lambda>_. [])\<rparr>"

subsection \<open>Actions\<close>

datatype 'a action =
    BeginSend nat 'a
  | ProdStep nat bool
  | EndSend nat
  | Clone nat nat
  | DropTx nat
  | BeginRecv
  | ConsStep bool
  | EndRecv
  | DropRx

definition log_enq :: "nat \<Rightarrow> 'a enq_pc \<Rightarrow> 'a enq_pc \<Rightarrow> (nat \<times> 'a) list \<Rightarrow> (nat \<times> 'a) list" where
  "log_enq i pc pc' log =
     (case (pc, pc') of (ECas _ _, EWrite x _) \<Rightarrow> log @ [(i, x)] | _ \<Rightarrow> log)"

definition log_deq :: "'a deq_pc \<Rightarrow> 'a deq_pc \<Rightarrow> 'a list \<Rightarrow> 'a list" where
  "log_deq pc pc' log = (case (pc, pc') of (DTake _, DRelease _ x) \<Rightarrow> log @ [x] | _ \<Rightarrow> log)"

text \<open>
  \<open>None\<close>: the action is not enabled. \<open>Arc::clone\<close> aborts the process once the count of handles
  passes \<open>isize::MAX\<close>, so a clone that returns has found it below.
\<close>

fun act :: "'a action \<Rightarrow> 'a conc \<Rightarrow> 'a conc option" where
  "act (BeginSend i x) s =
     (case prods s i of
        Idle \<Rightarrow> Some (s\<lparr>prods := (prods s)(i := Busy x (EStart x))\<rparr>)
      | _ \<Rightarrow> None)"
| "act (ProdStep i spurious) s =
     (case prods s i of
        Busy x pc \<Rightarrow>
          (case enq_step spurious (shared s) pc of
             (q, pc') \<Rightarrow>
               Some (s\<lparr>shared := q, prods := (prods s)(i := Busy x pc'),
                       enq_log := log_enq i pc pc' (enq_log s)\<rparr>))
      | _ \<Rightarrow> None)"
| "act (EndSend i) s =
     (case prods s i of
        Busy x (EDone r) \<Rightarrow>
          Some (s\<lparr>prods := (prods s)(i := Idle),
                  returns := (returns s)(i := returns s i @ [(x, r)])\<rparr>)
      | _ \<Rightarrow> None)"
| "act (Clone i j) s =
     (if prods s i = Idle \<and> prods s j = Gone \<and> unat (producers (shared s)) < 2 ^ 63 - 1
      then Some (s\<lparr>shared := sender_clone (shared s), prods := (prods s)(j := Idle)\<rparr>)
      else None)"
| "act (DropTx i) s =
     (if prods s i = Idle
      then Some (s\<lparr>shared := sender_drop (shared s), prods := (prods s)(i := Gone)\<rparr>)
      else None)"
| "act BeginRecv s = (if cons s = CIdle then Some (s\<lparr>cons := CBusy DStart\<rparr>) else None)"
| "act (ConsStep spurious) s =
     (case cons s of
        CBusy pc \<Rightarrow>
          (case deq_step spurious (shared s) pc of
             (q, pc') \<Rightarrow>
               Some (s\<lparr>shared := q, cons := CBusy pc', deq_log := log_deq pc pc' (deq_log s)\<rparr>))
      | _ \<Rightarrow> None)"
| "act EndRecv s = (case cons s of CBusy (DDone _) \<Rightarrow> Some (s\<lparr>cons := CIdle\<rparr>) | _ \<Rightarrow> None)"
| "act DropRx s =
     (if cons s = CIdle
      then Some (s\<lparr>shared := receiver_drop (shared s), cons := CGone\<rparr>)
      else None)"

fun schedule :: "'a action list \<Rightarrow> 'a conc \<Rightarrow> 'a conc option" where
  "schedule [] s = Some s"
| "schedule (a # as) s = (case act a s of None \<Rightarrow> None | Some t \<Rightarrow> schedule as t)"

inductive conc_reach :: "'a queue \<Rightarrow> 'a conc \<Rightarrow> bool" for q0 where
  start: "conc_reach q0 (conc_init q0)"
| step: "conc_reach q0 s \<Longrightarrow> act a s = Some t \<Longrightarrow> conc_reach q0 t"

lemma act_iff:
  "act (BeginSend i x) s = Some t \<longleftrightarrow>
     prods s i = Idle \<and> t = s\<lparr>prods := (prods s)(i := Busy x (EStart x))\<rparr>"
  "act (ProdStep i f) s = Some t \<longleftrightarrow>
     (\<exists>x pc. prods s i = Busy x pc \<and>
        t = s\<lparr>shared := fst (enq_step f (shared s) pc),
              prods := (prods s)(i := Busy x (snd (enq_step f (shared s) pc))),
              enq_log := log_enq i pc (snd (enq_step f (shared s) pc)) (enq_log s)\<rparr>)"
  "act (EndSend i) s = Some t \<longleftrightarrow>
     (\<exists>x r. prods s i = Busy x (EDone r) \<and>
        t = s\<lparr>prods := (prods s)(i := Idle), returns := (returns s)(i := returns s i @ [(x, r)])\<rparr>)"
  "act (Clone i j) s = Some t \<longleftrightarrow>
     prods s i = Idle \<and> prods s j = Gone \<and> unat (producers (shared s)) < 2 ^ 63 - 1 \<and>
     t = s\<lparr>shared := sender_clone (shared s), prods := (prods s)(j := Idle)\<rparr>"
  "act (DropTx i) s = Some t \<longleftrightarrow>
     prods s i = Idle \<and> t = s\<lparr>shared := sender_drop (shared s), prods := (prods s)(i := Gone)\<rparr>"
  "act BeginRecv s = Some t \<longleftrightarrow> cons s = CIdle \<and> t = s\<lparr>cons := CBusy DStart\<rparr>"
  "act (ConsStep f) s = Some t \<longleftrightarrow>
     (\<exists>pc. cons s = CBusy pc \<and>
        t = s\<lparr>shared := fst (deq_step f (shared s) pc), cons := CBusy (snd (deq_step f (shared s) pc)),
              deq_log := log_deq pc (snd (deq_step f (shared s) pc)) (deq_log s)\<rparr>)"
  "act EndRecv s = Some t \<longleftrightarrow> (\<exists>r. cons s = CBusy (DDone r) \<and> t = s\<lparr>cons := CIdle\<rparr>)"
  "act DropRx s = Some t \<longleftrightarrow>
     cons s = CIdle \<and> t = s\<lparr>shared := receiver_drop (shared s), cons := CGone\<rparr>"
  by (auto split: producer.splits consumer.splits enq_pc.splits deq_pc.splits prod.splits)

lemma schedule_append: "schedule (as @ bs) s = Option.bind (schedule as s) (schedule bs)"
  by (induction as arbitrary: s) (auto split: option.splits)

lemma schedule_reach: "conc_reach q0 s \<Longrightarrow> schedule as s = Some t \<Longrightarrow> conc_reach q0 t"
  by (induction as arbitrary: s) (auto split: option.splits intro: conc_reach.step)

subsection \<open>Invariant\<close>

text \<open>
  Everything is said by absolute positions, counted from the channel's creation: \<open>sq q p\<close> and
  \<open>vl q p\<close> are the mark and the value in the slot of position \<open>p\<close>, \<open>length log\<close> positions have been
  reserved, and the slots of the first \<open>R\<close> positions have been given back.
\<close>

definition sq :: "'a queue \<Rightarrow> nat \<Rightarrow> usize" where
  "sq q p = seq (slot_at q (of_nat p))"

definition vl :: "'a queue \<Rightarrow> nat \<Rightarrow> 'a option" where
  "vl q p = val (slot_at q (of_nat p))"

fun taking :: "'a consumer \<Rightarrow> bool" where
  "taking (CBusy (DTake _)) = True"
| "taking (CBusy (DRelease _ _)) = True"
| "taking _ = False"

definition given_back :: "'a conc \<Rightarrow> nat" where
  "given_back s = unat (dequeue_pos (shared s)) - (if taking (cons s) then 1 else 0)"

fun pc_ok :: "'a queue \<Rightarrow> (nat \<times> 'a) list \<Rightarrow> nat \<Rightarrow> nat \<Rightarrow> 'a \<Rightarrow> 'a enq_pc \<Rightarrow> bool" where
  "pc_ok q log R i x (EStart y) = (y = x)"
| "pc_ok q log R i x (ELoadPos y) = (y = x)"
| "pc_ok q log R i x (ELoadSeq y w) = (y = x \<and> unat w \<le> length log)"
| "pc_ok q log R i x (ECas y w) =
     (y = x \<and> unat w \<le> length log \<and> (unat w = length log \<longrightarrow> length log < R + length (buffer q)))"
| "pc_ok q log R i x (EWrite y w) =
     (y = x \<and> unat (dequeue_pos q) \<le> unat w \<and> unat w < length log \<and> log ! unat w = (i, x) \<and>
      sq q (unat w) = w \<and> vl q (unat w) = None)"
| "pc_ok q log R i x (EPublish w) =
     (unat (dequeue_pos q) \<le> unat w \<and> unat w < length log \<and> log ! unat w = (i, x) \<and>
      sq q (unat w) = w \<and> vl q (unat w) = Some x)"
| "pc_ok q log R i x (EFull y) = (y = x)"
| "pc_ok q log R i x (EDone (Ok _)) = True"
| "pc_ok q log R i x (EDone (Err e)) = (try_into_message e = x)"

definition published :: "'a queue \<Rightarrow> (nat \<times> 'a) list \<Rightarrow> nat \<Rightarrow> bool" where
  "published q log p \<longleftrightarrow> sq q p = of_nat (Suc p) \<and> vl q p = Some (snd (log ! p))"

fun cons_ok :: "'a queue \<Rightarrow> (nat \<times> 'a) list \<Rightarrow> nat \<Rightarrow> 'a consumer \<Rightarrow> bool" where
  "cons_ok q log R (CBusy (DLoadSeq w)) = (w = dequeue_pos q)"
| "cons_ok q log R (CBusy (DCas w)) =
     (w = dequeue_pos q \<and> R < length log \<and> published q log R)"
| "cons_ok q log R (CBusy (DTake w)) =
     (w = of_nat R \<and> unat (dequeue_pos q) = Suc R \<and> R < length log \<and> published q log R)"
| "cons_ok q log R (CBusy (DRelease w y)) =
     (w = of_nat R \<and> unat (dequeue_pos q) = Suc R \<and> R < length log \<and>
      sq q R = of_nat (Suc R) \<and> vl q R = None \<and> y = snd (log ! R))"
| "cons_ok q log R (CBusy DUninit) = False"
| "cons_ok q log R _ = True"

definition reserved :: "(nat \<Rightarrow> 'a producer) \<Rightarrow> (nat \<times> 'a) list \<Rightarrow> nat \<Rightarrow> bool" where
  "reserved ps log p \<longleftrightarrow>
     (\<exists>i x. log ! p = (i, x) \<and>
        (ps i = Busy x (EWrite x (of_nat p)) \<or> ps i = Busy x (EPublish (of_nat p))))"

definition window_ok :: "'a queue \<Rightarrow> (nat \<times> 'a) list \<Rightarrow> nat \<Rightarrow> bool" where
  "window_ok q log R \<longleftrightarrow>
     queue_wf q \<and> enqueue_pos q = of_nat (length log) \<and> unat (dequeue_pos q) \<le> length log \<and>
     R \<le> unat (dequeue_pos q) \<and> unat (dequeue_pos q) \<le> Suc R \<and> length log \<le> R + length (buffer q) \<and>
     (\<forall>p. length log \<le> p \<longrightarrow> p < R + length (buffer q) \<longrightarrow> sq q p = of_nat p \<and> vl q p = None)"

definition conc_inv :: "'a conc \<Rightarrow> bool" where
  "conc_inv s \<longleftrightarrow>
     window_ok (shared s) (enq_log s) (given_back s) \<and>
     (\<forall>i x pc. prods s i = Busy x pc \<longrightarrow> pc_ok (shared s) (enq_log s) (given_back s) i x pc) \<and>
     cons_ok (shared s) (enq_log s) (given_back s) (cons s) \<and>
     (\<forall>p. unat (dequeue_pos (shared s)) \<le> p \<longrightarrow> p < length (enq_log s) \<longrightarrow>
        published (shared s) (enq_log s) p \<or> reserved (prods s) (enq_log s) p)"

text \<open>
  The run is short enough for no position to be reused: at most \<open>2 ^ 62\<close> messages have been enqueued
  since the channel was created.
\<close>

definition in_budget :: "'a conc \<Rightarrow> bool" where
  "in_budget s \<longleftrightarrow> length (enq_log s) \<le> 2 ^ 62"

subsection \<open>Slots by position\<close>

lemma window_index:
  assumes "queue_wf q" "R \<le> a" "a < R + length (buffer q)" "R \<le> b" "b < R + length (buffer q)"
  shows "index q (of_nat a) = index q (of_nat b) \<longleftrightarrow> a = b"
proof -
  have "of_nat a = of_nat R + (of_nat (a - R) :: usize)" "of_nat b = of_nat R + (of_nat (b - R) :: usize)"
    using assms by (simp_all add: of_nat_diff)
  then show ?thesis
    using index_inj [OF assms(1), of "a - R" "b - R" "of_nat R"] assms by auto
qed

lemma set_val_simps [simp]:
  "length (buffer (set_val q w v)) = length (buffer q)" "qmask (set_val q w v) = qmask q"
  "enqueue_pos (set_val q w v) = enqueue_pos q" "dequeue_pos (set_val q w v) = dequeue_pos q"
  "producers (set_val q w v) = producers q" "consumer_alive (set_val q w v) = consumer_alive q"
  "queue_wf (set_val q w v) = queue_wf q" "index (set_val q w v) p = index q p"
  by (simp_all add: set_val_def queue_wf_def index_def)

lemma set_seq_simps [simp]:
  "length (buffer (set_seq q w n)) = length (buffer q)" "qmask (set_seq q w n) = qmask q"
  "enqueue_pos (set_seq q w n) = enqueue_pos q" "dequeue_pos (set_seq q w n) = dequeue_pos q"
  "producers (set_seq q w n) = producers q" "consumer_alive (set_seq q w n) = consumer_alive q"
  "queue_wf (set_seq q w n) = queue_wf q" "index (set_seq q w n) p = index q p"
  by (simp_all add: set_seq_def queue_wf_def index_def)

lemma slot_at_set:
  assumes "queue_wf q"
  shows "slot_at (set_val q w v) p =
      (if index q p = index q w then (slot_at q w)\<lparr>val := v\<rparr> else slot_at q p)"
    and "slot_at (set_seq q w n) p =
      (if index q p = index q w then (slot_at q w)\<lparr>seq := n\<rparr> else slot_at q p)"
  using index_in_range [OF assms, of w]
  by (auto simp: slot_at_def [of "set_val q w v"] slot_at_def [of "set_seq q w n"])
    (auto simp: set_val_def set_seq_def slot_at_def)

lemma sq_vl_set_val:
  assumes "queue_wf q"
  shows "sq (set_val q w v) p = sq q p"
    and "vl (set_val q w v) p = (if index q (of_nat p) = index q w then v else vl q p)"
  using assms by (auto simp: sq_def vl_def slot_at_set) (simp add: slot_at_def)

lemma sq_vl_set_seq:
  assumes "queue_wf q"
  shows "sq (set_seq q w n) p = (if index q (of_nat p) = index q w then n else sq q p)"
    and "vl (set_seq q w n) p = vl q p"
  using assms by (auto simp: sq_def vl_def slot_at_set) (simp add: slot_at_def)

lemma sq_vl_fields [simp]:
  "sq (q\<lparr>enqueue_pos := n\<rparr>) p = sq q p" "vl (q\<lparr>enqueue_pos := n\<rparr>) p = vl q p"
  "sq (q\<lparr>dequeue_pos := n\<rparr>) p = sq q p" "vl (q\<lparr>dequeue_pos := n\<rparr>) p = vl q p"
  "sq (q\<lparr>producers := n\<rparr>) p = sq q p" "vl (q\<lparr>producers := n\<rparr>) p = vl q p"
  "sq (q\<lparr>consumer_alive := b\<rparr>) p = sq q p" "vl (q\<lparr>consumer_alive := b\<rparr>) p = vl q p"
  by (simp_all add: sq_def vl_def slot_at_def index_def)

lemma queue_wf_fields [simp]:
  "queue_wf (q\<lparr>enqueue_pos := n\<rparr>) = queue_wf q" "queue_wf (q\<lparr>dequeue_pos := n\<rparr>) = queue_wf q"
  "queue_wf (q\<lparr>producers := n\<rparr>) = queue_wf q" "queue_wf (q\<lparr>consumer_alive := b\<rparr>) = queue_wf q"
  by (simp_all add: queue_wf_def)

lemma unat_of_small [usize_simps]: "n < 2 ^ 64 \<Longrightarrow> unat (of_nat n :: usize) = n"
  by (simp add: unat_of_nat)

lemma of_nat_small_eq: "a < 2 ^ 64 \<Longrightarrow> b < 2 ^ 64 \<Longrightarrow> (of_nat a :: usize) = of_nat b \<longleftrightarrow> a = b"
  by (metis unat_of_small)

subsection \<open>Every action keeps the invariant\<close>

fun holding :: "'a enq_pc \<Rightarrow> bool" where
  "holding (EWrite _ _) = True"
| "holding (EPublish _) = True"
| "holding _ = False"

definition not_holding :: "'a producer \<Rightarrow> bool" where
  "not_holding p \<longleftrightarrow> (\<forall>x pc. p = Busy x pc \<longrightarrow> \<not> holding pc)"

lemma given_back_cong [simp]:
  "given_back (s\<lparr>prods := ps\<rparr>) = given_back s" "given_back (s\<lparr>enq_log := l\<rparr>) = given_back s"
  "given_back (s\<lparr>deq_log := d\<rparr>) = given_back s" "given_back (s\<lparr>returns := rs\<rparr>) = given_back s"
  by (simp_all add: given_back_def)

lemma conc_inv_ghosts [simp]:
  "conc_inv (s\<lparr>deq_log := d\<rparr>) = conc_inv s" "conc_inv (s\<lparr>returns := rs\<rparr>) = conc_inv s"
  by (simp_all add: conc_inv_def)

lemma conc_inv_pc:
  "conc_inv s \<Longrightarrow> prods s i = Busy x pc \<Longrightarrow> pc_ok (shared s) (enq_log s) (given_back s) i x pc"
  by (simp add: conc_inv_def)

lemma conc_inv_cons: "conc_inv s \<Longrightarrow> cons_ok (shared s) (enq_log s) (given_back s) (cons s)"
  by (simp add: conc_inv_def)

lemma conc_inv_slot:
  "conc_inv s \<Longrightarrow> unat (dequeue_pos (shared s)) \<le> p \<Longrightarrow> p < length (enq_log s) \<Longrightarrow>
     published (shared s) (enq_log s) p \<or> reserved (prods s) (enq_log s) p"
  by (simp add: conc_inv_def)

lemma reserved_other:
  assumes "reserved ps log p" "not_holding (ps i)"
  shows "reserved (ps(i := new)) log p"
  using assms by (fastforce simp: reserved_def not_holding_def)

lemma reserved_append: "p < length log \<Longrightarrow> reserved ps (log @ l) p = reserved ps log p"
  by (simp add: reserved_def nth_append)

text \<open>A thread that holds no slot may go anywhere that holds none.\<close>

lemma inv_quiet:
  assumes "conc_inv s" "not_holding (prods s i)"
    and "\<And>x pc. new = Busy x pc \<Longrightarrow> pc_ok (shared s) (enq_log s) (given_back s) i x pc"
  shows "conc_inv (s\<lparr>prods := (prods s)(i := new)\<rparr>)"
proof -
  have "published (shared s) (enq_log s) p \<or> reserved ((prods s)(i := new)) (enq_log s) p"
    if "unat (dequeue_pos (shared s)) \<le> p" "p < length (enq_log s)" for p
    using conc_inv_slot [OF assms(1) that] reserved_other [of "prods s" "enq_log s" p i new] assms(2) by blast
  then show ?thesis
    using assms(1,3) by (simp add: conc_inv_def)
qed

lemma inv_cons_quiet:
  assumes "conc_inv s" "given_back (s\<lparr>cons := c\<rparr>) = given_back s"
    and "cons_ok (shared s) (enq_log s) (given_back s) c"
  shows "conc_inv (s\<lparr>cons := c\<rparr>)"
  using assms by (simp add: conc_inv_def)

lemma pc_ok_handles [simp]:
  "pc_ok (q\<lparr>producers := n\<rparr>) log R i x pc = pc_ok q log R i x pc"
  "pc_ok (q\<lparr>consumer_alive := b\<rparr>) log R i x pc = pc_ok q log R i x pc"
  by (cases "(q, log, R, i, x, pc)" rule: pc_ok.cases; simp)+

lemma cons_ok_handles [simp]:
  "cons_ok (q\<lparr>producers := n\<rparr>) log R c = cons_ok q log R c"
  "cons_ok (q\<lparr>consumer_alive := b\<rparr>) log R c = cons_ok q log R c"
  by (cases "(q, log, R, c)" rule: cons_ok.cases; simp add: published_def)+

lemma inv_handles:
  "conc_inv (s\<lparr>shared := (shared s)\<lparr>producers := n\<rparr>\<rparr>) = conc_inv s"
  "conc_inv (s\<lparr>shared := (shared s)\<lparr>consumer_alive := b\<rparr>\<rparr>) = conc_inv s"
  by (simp_all add: conc_inv_def given_back_def window_ok_def published_def)

lemma conc_inv_window: "conc_inv s \<Longrightarrow> window_ok (shared s) (enq_log s) (given_back s)"
  by (simp add: conc_inv_def)

lemma window_bounds:
  assumes "window_ok q log R"
  shows "queue_wf q" "R \<le> unat (dequeue_pos q)" "unat (dequeue_pos q) \<le> length log"
    "length log \<le> R + length (buffer q)" "unat (dequeue_pos q) \<le> Suc R"
    "enqueue_pos q = of_nat (length log)" "2 \<le> length (buffer q)" "length (buffer q) \<le> 2 ^ 60"
  using assms wf_length_bounds [of q] by (auto simp: window_ok_def)

text \<open>The successful exchange on \<open>enqueue_pos\<close>: the producer now owns the position.\<close>

lemma inv_reserve:
  assumes "conc_inv s" "in_budget s" "prods s i = Busy x (ECas y w)" "enqueue_pos (shared s) = w"
  shows "conc_inv (s\<lparr>shared := (shared s)\<lparr>enqueue_pos := w + 1\<rparr>,
           prods := (prods s)(i := Busy x (EWrite y w)), enq_log := enq_log s @ [(i, y)]\<rparr>)"
proof -
  let ?q = "shared s" and ?T = "length (enq_log s)" and ?R = "given_back s"
  note W = window_bounds [OF conc_inv_window [OF assms(1)]]
  have pc: "y = x" "unat w = ?T \<Longrightarrow> ?T < ?R + length (buffer ?q)"
    using conc_inv_pc [OF assms(1,3)] by auto
  have wT: "unat w = ?T"
    using W(6) assms(2,4) by (simp add: unat_of_small in_budget_def)
  have lt: "?T < ?R + length (buffer ?q)"
    using pc(2) wT by simp
  have free: "sq ?q ?T = of_nat ?T" "vl ?q ?T = None"
    using lt assms(1) by (simp_all add: conc_inv_def window_ok_def)
  have gb: "given_back (s\<lparr>shared := ?q\<lparr>enqueue_pos := w + 1\<rparr>, prods := ps, enq_log := l\<rparr>) = ?R" for ps l
    by (simp add: given_back_def)
  have others: "pc_ok (?q\<lparr>enqueue_pos := w + 1\<rparr>) (enq_log s @ [(i, y)]) ?R j z pc"
    if "pc_ok ?q (enq_log s) ?R j z pc" for j z pc
    using that by (cases "(?q, enq_log s, ?R, j, z, pc)" rule: pc_ok.cases) (auto simp: nth_append)
  have pub: "published (?q\<lparr>enqueue_pos := w + 1\<rparr>) (enq_log s @ [(i, y)]) p = published ?q (enq_log s) p"
    if "p < ?T" for p
    using that by (simp add: published_def nth_append)
  have consumer: "cons_ok (?q\<lparr>enqueue_pos := w + 1\<rparr>) (enq_log s @ [(i, y)]) ?R (cons s)"
    using conc_inv_cons [OF assms(1)] pub
    by (cases "(?q, enq_log s, ?R, cons s)" rule: cons_ok.cases) (auto simp: nth_append)
  have "published (?q\<lparr>enqueue_pos := w + 1\<rparr>) (enq_log s @ [(i, y)]) p \<or>
      reserved ((prods s)(i := Busy x (EWrite y w))) (enq_log s @ [(i, y)]) p"
    if p: "unat (dequeue_pos ?q) \<le> p" "p < Suc ?T" for p
  proof (cases "p = ?T")
    case True
    then show ?thesis
      using W(6) assms(4) pc(1) by (auto simp: reserved_def)
  next
    case False
    then have "p < ?T" using p by simp
    then have "published ?q (enq_log s) p \<or> reserved (prods s) (enq_log s) p"
      using conc_inv_slot [OF assms(1) p(1)] by blast
    moreover have "not_holding (prods s i)"
      using assms(3) by (simp add: not_holding_def)
    ultimately show ?thesis
      using pub \<open>p < ?T\<close> reserved_other [of "prods s" "enq_log s" p i]
      by (auto simp: reserved_append)
  qed
  moreover have "pc_ok (?q\<lparr>enqueue_pos := w + 1\<rparr>) (enq_log s @ [(i, y)]) ?R i x (EWrite y w)"
    using pc(1) wT free W(3,6) assms(4) by (simp add: nth_append)
  moreover have "window_ok (?q\<lparr>enqueue_pos := w + 1\<rparr>) (enq_log s @ [(i, y)]) ?R"
    using assms(1,4) lt W(6) by (auto simp: conc_inv_def window_ok_def)
  ultimately show ?thesis
    using assms(1) others consumer wT unfolding conc_inv_def gb by (simp add: nth_append)
qed

text \<open>The two accesses of a producer to the slot it owns.\<close>

lemma owner_window:
  assumes "conc_inv s" "prods s i = Busy x pc" "pc = EWrite x w \<or> pc = EPublish w"
  shows "unat (dequeue_pos (shared s)) \<le> unat w" "unat w < length (enq_log s)"
    "enq_log s ! unat w = (i, x)" "sq (shared s) (unat w) = w" "of_nat (unat w) = w"
    "unat w < given_back s + length (buffer (shared s))" "given_back s \<le> unat w"
  using conc_inv_pc [OF assms(1,2)] assms(3) window_bounds [OF conc_inv_window [OF assms(1)]] by auto

lemma slot_apart:
  assumes "conc_inv s" "unat w < length (enq_log s)" "given_back s \<le> unat w"
    and "given_back s \<le> p" "p < given_back s + length (buffer (shared s))"
  shows "index (shared s) (of_nat p) = index (shared s) w \<longleftrightarrow> p = unat w"
proof -
  note W = window_bounds [OF conc_inv_window [OF assms(1)]]
  have "unat w < given_back s + length (buffer (shared s))"
    using W(4) assms(2) by simp
  from window_index [OF W(1) assms(4,5,3) this] show ?thesis by simp
qed

lemma inv_own_slot:
  assumes inv: "conc_inv s" and small: "in_budget s" and i: "prods s i = Busy x pc"
    and pc: "pc = EWrite x w \<or> pc = EPublish w"
    and q: "q = set_val (shared s) w v \<or> q = set_seq (shared s) w n"
    and new: "not_holding (Busy x pc') \<and> published q (enq_log s) (unat w) \<or> pc' = EPublish w"
    and ok: "pc_ok q (enq_log s) (given_back s) i x pc'"
  shows "conc_inv (s\<lparr>shared := q, prods := (prods s)(i := Busy x pc')\<rparr>)"
proof -
  let ?q = "shared s" and ?R = "given_back s" and ?log = "enq_log s"
  note W = window_bounds [OF conc_inv_window [OF inv]]
  note O = owner_window [OF inv i pc]
  have apart: "index ?q (of_nat p) = index ?q w \<longleftrightarrow> p = unat w"
    if "?R \<le> p" "p < ?R + length (buffer ?q)" for p
    using slot_apart [OF inv O(2,7) that] .
  have same: "sq q p = sq ?q p \<and> vl q p = vl ?q p"
    if "?R \<le> p" "p < ?R + length (buffer ?q)" "p \<noteq> unat w" for p
    using q apart [OF that(1,2)] that(3) by (auto simp: sq_vl_set_val [OF W(1)] sq_vl_set_seq [OF W(1)])
  have fields: "dequeue_pos q = dequeue_pos ?q" "enqueue_pos q = enqueue_pos ?q"
      "length (buffer q) = length (buffer ?q)" "queue_wf q"
    using q W(1) by auto
  have gb: "given_back (s\<lparr>shared := q, prods := ps\<rparr>) = ?R" for ps
    by (simp add: given_back_def fields)
  have pub: "published q ?log p = published ?q ?log p"
    if "?R \<le> p" "p < ?R + length (buffer ?q)" "p \<noteq> unat w" for p
    using same [OF that] by (simp add: published_def)
  have win: "window_ok q ?log ?R"
    using conc_inv_window [OF inv] same O W(2,3) by (auto simp: window_ok_def fields)
  have others: "pc_ok q ?log ?R j z pcj" if j: "prods s j = Busy z pcj" "j \<noteq> i" for j z pcj
  proof -
    have ok: "pc_ok ?q ?log ?R j z pcj"
      using conc_inv_pc [OF inv j(1)] .
    then have "unat u \<noteq> unat w" if "pcj = EWrite y u \<or> pcj = EPublish u" for y u
      using O(3) that j(2) by auto
    with ok W same show ?thesis
      by (cases "(?q, ?log, ?R, j, z, pcj)" rule: pc_ok.cases) (auto simp: fields)
  qed
  have ne: "buffer ?q \<noteq> []"
    using W(7) by auto
  have neR: "unat w \<noteq> ?R" if "published ?q ?log ?R"
  proof
    assume "unat w = ?R"
    then have "sq ?q (unat w) = of_nat (Suc (unat w))"
      using that by (simp add: published_def)
    with O(4) show False by simp
  qed
  have cons: "cons_ok q ?log ?R (cons s)"
    using conc_inv_cons [OF inv] pub [of ?R] same [of ?R] O(1) ne neR
    by (cases "(?q, ?log, ?R, cons s)" rule: cons_ok.cases) (auto simp: fields)
  have slots: "published q ?log p \<or> reserved ((prods s)(i := Busy x pc')) ?log p"
    if p: "unat (dequeue_pos ?q) \<le> p" "p < length ?log" for p
  proof (cases "p = unat w")
    case True
    then show ?thesis
      using new O(3,5) by (auto simp: reserved_def)
  next
    case False
    have up: "unat (of_nat p :: usize) = p"
      using small p(2) by (simp add: in_budget_def unat_of_small)
    have "reserved ((prods s)(i := Busy x pc')) ?log p" if r: "reserved (prods s) ?log p"
    proof -
      obtain j z where j: "?log ! p = (j, z)"
          "prods s j = Busy z (EWrite z (of_nat p)) \<or> prods s j = Busy z (EPublish (of_nat p))"
        using r by (auto simp: reserved_def)
      have "j \<noteq> i"
        using j(2) i pc up False by auto
      then show ?thesis
        using j by (auto simp: reserved_def)
    qed
    with False pub [of p] p W conc_inv_slot [OF inv p] show ?thesis
      by auto
  qed
  show ?thesis
    using win others cons slots ok fields(1) unfolding conc_inv_def gb by auto
qed

text \<open>The consumer's exchange on \<open>dequeue_pos\<close>, its read of the slot, and the release.\<close>

lemma inv_claim:
  assumes "conc_inv s" "in_budget s" "cons s = CBusy (DCas w)"
  shows "conc_inv (s\<lparr>shared := (shared s)\<lparr>dequeue_pos := w + 1\<rparr>, cons := CBusy (DTake w)\<rparr>)"
proof -
  let ?q = "shared s" and ?R = "given_back s" and ?log = "enq_log s" and ?q' = "(shared s)\<lparr>dequeue_pos := w + 1\<rparr>"
  note W = window_bounds [OF conc_inv_window [OF assms(1)]]
  have c: "w = dequeue_pos ?q" "?R < length ?log" "published ?q ?log ?R"
    using conc_inv_cons [OF assms(1)] assms(3) by auto
  have R: "unat w = ?R"
    using c(1) assms(3) by (simp add: given_back_def)
  have w1: "unat (w + 1) = Suc ?R"
    using R c(2) assms(2) by (simp add: unat_word_ariths in_budget_def)
  have wR: "w = of_nat ?R"
    by (simp add: R [symmetric])
  have gb: "given_back (s\<lparr>shared := ?q', cons := CBusy (DTake w)\<rparr>) = ?R"
    using w1 by (simp add: given_back_def)
  have own: "Suc ?R \<le> unat u" if "prods s i = Busy x pc" "pc = EWrite y u \<or> pc = EPublish u" for i x y u pc
  proof -
    have "?R \<le> unat u" "sq ?q (unat u) = u"
      using conc_inv_pc [OF assms(1) that(1)] that(2) c(1) R by auto
    moreover have "unat u \<noteq> ?R"
    proof
      assume "unat u = ?R"
      then have "sq ?q (unat u) = of_nat (Suc (unat u))"
        using c(3) by (simp add: published_def)
      with \<open>sq ?q (unat u) = u\<close> show False by simp
    qed
    ultimately show ?thesis by simp
  qed
  have pcs: "pc_ok ?q' ?log ?R i x pc" if "prods s i = Busy x pc" for i x pc
    using conc_inv_pc [OF assms(1) that] own [OF that] w1
    by (cases "(?q, ?log, ?R, i, x, pc)" rule: pc_ok.cases) auto
  have "published ?q' ?log p \<or> reserved (prods s) ?log p" if "Suc ?R \<le> p" "p < length ?log" for p
    using conc_inv_slot [OF assms(1), of p] that c(1) R by (simp add: published_def)
  moreover have "window_ok ?q' ?log ?R"
    using conc_inv_window [OF assms(1)] w1 c(2) by (auto simp: window_ok_def)
  moreover have "cons_ok ?q' ?log ?R (CBusy (DTake w))"
    using c(2,3) w1 wR by (simp add: published_def)
  ultimately show ?thesis
    using pcs w1 unfolding conc_inv_def gb by (simp del: cons_ok.simps)
qed

lemma inv_take:
  assumes "conc_inv s" "cons s = CBusy (DTake w)"
  shows "\<exists>x. val (slot_at (shared s) w) = Some x \<and> x = snd (enq_log s ! given_back s) \<and>
    conc_inv (s\<lparr>shared := set_val (shared s) w None, cons := CBusy (DRelease w x)\<rparr>)"
proof -
  let ?q = "shared s" and ?R = "given_back s" and ?log = "enq_log s" and ?q' = "set_val (shared s) w None"
  note W = window_bounds [OF conc_inv_window [OF assms(1)]]
  have c: "w = of_nat ?R" "unat (dequeue_pos ?q) = Suc ?R" "?R < length ?log" "published ?q ?log ?R"
    using conc_inv_cons [OF assms(1)] assms(2) by auto
  have v: "val (slot_at ?q w) = Some (snd (?log ! ?R))"
    using c(1,4) by (simp add: published_def vl_def)
  have gb: "given_back (s\<lparr>shared := ?q', cons := CBusy (DRelease w x)\<rparr>) = ?R" for x
    using c(2) by (simp add: given_back_def)
  have ne: "0 < length (buffer ?q)"
    using W(7) by linarith
  have same: "vl ?q' p = vl ?q p" if "?R < p" "p < ?R + length (buffer ?q)" for p
    using window_index [OF W(1), of ?R p ?R] that ne by (simp add: sq_vl_set_val [OF W(1)] c(1))
  have pcs: "pc_ok ?q' ?log ?R i x pc" if "prods s i = Busy x pc" for i x pc
    using conc_inv_pc [OF assms(1) that] same c(2) W(4)
    by (cases "(?q, ?log, ?R, i, x, pc)" rule: pc_ok.cases) (auto simp: sq_vl_set_val(1) [OF W(1)])
  have slots: "published ?q' ?log p \<or> reserved (prods s) ?log p" if "Suc ?R \<le> p" "p < length ?log" for p
    using conc_inv_slot [OF assms(1), of p] that c(2) same [of p] W(4)
    by (simp add: published_def sq_vl_set_val(1) [OF W(1)])
  have win: "window_ok ?q' ?log ?R"
    using conc_inv_window [OF assms(1)] same c(2,3)
    by (auto simp: window_ok_def sq_vl_set_val(1) [OF W(1)])
  have "cons_ok ?q' ?log ?R (CBusy (DRelease w (snd (?log ! ?R))))"
    using c by (simp add: published_def sq_vl_set_val [OF W(1)])
  then have "conc_inv (s\<lparr>shared := ?q', cons := CBusy (DRelease w (snd (?log ! ?R)))\<rparr>)"
    using pcs slots win c(2) unfolding conc_inv_def gb by (simp del: cons_ok.simps)
  with v show ?thesis by simp
qed

lemma inv_release:
  assumes "conc_inv s" "cons s = CBusy (DRelease w x)"
  shows "conc_inv (s\<lparr>shared := set_seq (shared s) w (w + qmask (shared s) + 1), cons := CBusy (DDone r)\<rparr>)"
proof -
  let ?q = "shared s" and ?R = "given_back s" and ?log = "enq_log s"
  let ?q' = "set_seq ?q w (w + qmask ?q + 1)" and ?N = "length (buffer (shared s))"
  note W = window_bounds [OF conc_inv_window [OF assms(1)]]
  have c: "w = of_nat ?R" "unat (dequeue_pos ?q) = Suc ?R" "?R < length ?log" "vl ?q ?R = None"
    using conc_inv_cons [OF assms(1)] assms(2) by auto
  have gb: "given_back (s\<lparr>shared := ?q', cons := CBusy (DDone r)\<rparr>) = Suc ?R"
    using c(2) by (simp add: given_back_def)
  have ne: "0 < ?N"
    using W(7) by linarith
  have same: "sq ?q' p = sq ?q p" if "?R < p" "p < ?R + ?N" for p
    using window_index [OF W(1), of ?R p ?R] that ne by (simp add: sq_vl_set_seq [OF W(1)] c(1))
  have wrap: "index ?q (of_nat (?R + ?N)) = index ?q (of_nat ?R)"
    using index_wrap [OF W(1), of "of_nat ?R"] by simp
  have fresh: "sq ?q' (?R + ?N) = of_nat (?R + ?N)" "vl ?q' (?R + ?N) = None"
    using wrap c(1,4) mask_plus_one [OF W(1), of w]
    by (simp_all add: sq_vl_set_seq [OF W(1)]) (simp add: vl_def slot_at_def)
  have pcs: "pc_ok ?q' ?log (Suc ?R) i y pc" if "prods s i = Busy y pc" for i y pc
    using conc_inv_pc [OF assms(1) that] same c(2) W(4)
    by (cases "(?q, ?log, ?R, i, y, pc)" rule: pc_ok.cases) (auto simp: sq_vl_set_seq(2) [OF W(1)])
  have slots: "published ?q' ?log p \<or> reserved (prods s) ?log p" if "Suc ?R \<le> p" "p < length ?log" for p
    using conc_inv_slot [OF assms(1), of p] that c(2) same [of p] W(4)
    by (simp add: published_def sq_vl_set_seq(2) [OF W(1)])
  have "sq ?q' p = of_nat p \<and> vl ?q' p = None" if "length ?log \<le> p" "p < Suc ?R + ?N" for p
  proof (cases "p = ?R + ?N")
    case False
    then show ?thesis
      using that c(3) same [of p] conc_inv_window [OF assms(1)]
      by (auto simp: window_ok_def sq_vl_set_seq(2) [OF W(1)])
  qed (use fresh in simp)
  then have "window_ok ?q' ?log (Suc ?R)"
    using W c(2,3) by (simp add: window_ok_def)
  then show ?thesis
    using pcs slots c(2) unfolding conc_inv_def gb by simp
qed

subsection \<open>What the marks of the window say\<close>

lemma window_seq:
  assumes "conc_inv s" "given_back s \<le> p" "p < given_back s + length (buffer (shared s))"
  shows "sq (shared s) p = of_nat (Suc p) \<and> p < length (enq_log s) \<and>
      (unat (dequeue_pos (shared s)) \<le> p \<longrightarrow> published (shared s) (enq_log s) p) \<or>
    sq (shared s) p = of_nat p"
proof -
  consider "p < unat (dequeue_pos (shared s))"
    | "unat (dequeue_pos (shared s)) \<le> p" "p < length (enq_log s)" | "length (enq_log s) \<le> p"
    by linarith
  then show ?thesis
  proof cases
    case 1
    then have "p = given_back s" "taking (cons s)"
      using assms(2) by (auto simp: given_back_def split: if_splits)
    then show ?thesis
      using 1 conc_inv_cons [OF assms(1)] by (cases "cons s" rule: taking.cases) (auto simp: published_def)
  next
    case 2
    then consider "published (shared s) (enq_log s) p" | "reserved (prods s) (enq_log s) p"
      using conc_inv_slot [OF assms(1)] by blast
    then show ?thesis
    proof cases
      case 2
      then obtain i x where i: "enq_log s ! p = (i, x)"
          "prods s i = Busy x (EWrite x (of_nat p)) \<or> prods s i = Busy x (EPublish (of_nat p))"
        by (auto simp: reserved_def)
      show ?thesis
        using i(2) conc_inv_pc [OF assms(1), of i x] by (auto simp: sq_def)
    qed (use 2 in \<open>simp add: published_def\<close>)
  next
    case 3
    then show ?thesis
      using assms by (simp add: conc_inv_def window_ok_def)
  qed
qed

text \<open>The slot of an older position is the slot of a position of the window.\<close>

lemma window_cover:
  assumes "queue_wf q" "p < R + length (buffer q)"
  obtains p' where "p \<le> p'" "R \<le> p'" "p' < R + length (buffer q)" "index q (of_nat p') = index q (of_nat p)"
proof -
  obtain k where k: "1 \<le> k" "k \<le> 60" "length (buffer q) = 2 ^ k"
      "qmask q = of_nat (2 ^ k - 1)" "\<forall>p j. index q (p + of_nat j) = (unat p + j) mod 2 ^ k"
    using assms(1) by (rule queue_wfE)
  let ?n = "(2::nat) ^ k"
  have idx: "index q (of_nat a) = a mod ?n" for a
    using k(5) [rule_format, of 0 a] by simp
  show thesis
  proof (cases "R \<le> p")
    case True
    then show ?thesis using assms(2) that [of p] by simp
  next
    case False
    define X where "X = R - p + ?n - 1"
    let ?p = "p + ?n * (X div ?n)"
    have "?n * (X div ?n) + X mod ?n = X" "X mod ?n < ?n"
      by simp_all
    then have "R \<le> ?p" "?p < R + ?n"
      using False unfolding X_def by linarith+
    then show ?thesis
      using that [of ?p] by (simp add: idx k(3) del: of_nat_add of_nat_mult)
  qed
qed

lemma inv_not_empty:
  assumes "conc_inv s" "in_budget s" "cons s = CBusy (DLoadSeq w)"
    and "seq (slot_at (shared s) w) = w + 1"
  shows "given_back s < length (enq_log s) \<and> published (shared s) (enq_log s) (given_back s)"
proof -
  note W = window_bounds [OF conc_inv_window [OF assms(1)]]
  have w: "w = dequeue_pos (shared s)" "unat w = given_back s"
    using conc_inv_cons [OF assms(1)] assms(3) by (auto simp: given_back_def)
  have "sq (shared s) (unat w) = w + 1"
    using assms(4) by (simp add: sq_def)
  moreover have "of_nat (given_back s) = w" "w + 1 \<noteq> w"
    by (simp_all flip: w(2))
  moreover have "given_back s < given_back s + length (buffer (shared s))"
    using W(7) by linarith
  ultimately show ?thesis
    using window_seq [OF assms(1), of "given_back s"] w by auto
qed

text \<open>
  A producer that read the mark of its position may reserve it only if a slot is free, and reports
  \<open>Full\<close> only if none is.
\<close>

lemma stale_mark:
  assumes "conc_inv s" "in_budget s" "unat w \<le> length (enq_log s)"
    and "\<not> (unat w = length (enq_log s) \<and>
           length (enq_log s) = given_back s + length (buffer (shared s)))"
  obtains d where "seq (slot_at (shared s) w) = w + of_nat d" "d < 2 ^ 63"
proof -
  let ?R = "given_back s" and ?N = "length (buffer (shared s))"
  note W = window_bounds [OF conc_inv_window [OF assms(1)]]
  have "unat w < ?R + ?N"
    using assms(3,4) W(4) by linarith
  then obtain p where p: "unat w \<le> p" "?R \<le> p" "p < ?R + ?N"
      "index (shared s) (of_nat p) = index (shared s) (of_nat (unat w))"
    using W(1) window_cover by metis
  have "seq (slot_at (shared s) w) = sq (shared s) p"
    using p(4) by (simp add: sq_def slot_at_def)
  moreover have "sq (shared s) p = of_nat p \<or> sq (shared s) p = of_nat (Suc p)"
    using window_seq [OF assms(1) p(2,3)] by blast
  moreover have "(of_nat p :: usize) = w + of_nat (p - unat w)" "(of_nat (Suc p) :: usize) = w + of_nat (Suc p - unat w)"
    using p(1) by (simp_all add: of_nat_diff)
  moreover have "Suc p - unat w < 2 ^ 63"
  proof -
    have "?R \<le> 2 ^ 62"
      using W(2,3) assms(2) by (simp add: in_budget_def)
    then show ?thesis using p(3) W(8) by simp
  qed
  ultimately show thesis
    using that [of "p - unat w"] that [of "Suc p - unat w"] by auto
qed

lemma full_mark:
  assumes "conc_inv s" "in_budget s" "unat w = length (enq_log s)"
    and "length (enq_log s) = given_back s + length (buffer (shared s))"
  shows "isize_wrapping_sub (seq (slot_at (shared s) w)) w < 0"
proof -
  let ?R = "given_back s" and ?N = "length (buffer (shared s))"
  note W = window_bounds [OF conc_inv_window [OF assms(1)]]
  have w: "w = of_nat ?R + of_nat ?N"
    unfolding of_nat_add [symmetric] assms(4) [symmetric] assms(3) [symmetric] by simp
  have "seq (slot_at (shared s) w) = sq (shared s) ?R"
    using index_wrap [OF W(1), of "of_nat ?R"] w by (simp add: sq_def slot_at_def)
  moreover have "?R < ?R + ?N"
    using W(7) by linarith
  then have "sq (shared s) ?R = of_nat ?R \<or> sq (shared s) ?R = of_nat (Suc ?R)"
    using window_seq [OF assms(1), of ?R] by blast
  moreover have "w = of_nat (Suc ?R) + of_nat (?N - 1)"
    using W(7) by (simp add: w of_nat_diff)
  moreover have "0 < ?N" "0 < ?N - 1" "?N < 2 ^ 63"
    using W(7,8) by auto
  ultimately show ?thesis
    using isize_wrapping_sub_neg [of ?N "of_nat ?R"] isize_wrapping_sub_neg [of "?N - 1" "of_nat (Suc ?R)"] w
    by auto
qed

subsection \<open>The invariant along every run\<close>

lemma conc_same [simp]: "s\<lparr>shared := shared s, prods := ps, enq_log := enq_log s\<rparr> = s\<lparr>prods := ps\<rparr>"
  "s\<lparr>shared := shared s, cons := c, deq_log := d\<rparr> = s\<lparr>cons := c, deq_log := d\<rparr>"
  by simp_all

lemma enq_load_seq_inv:
  assumes "conc_inv s" "in_budget s" "prods s i = Busy x (ELoadSeq y w)"
  shows "conc_inv (s\<lparr>prods := (prods s)(i := Busy x (snd (enq_step f (shared s) (ELoadSeq y w))))\<rparr>)"
proof (rule inv_quiet [OF assms(1)])
  have y: "y = x" "unat w \<le> length (enq_log s)"
    using conc_inv_pc [OF assms(1,3)] by simp_all
  have "length (enq_log s) < given_back s + length (buffer (shared s))"
    if "seq (slot_at (shared s) w) = w" "unat w = length (enq_log s)"
    using full_mark [OF assms(1,2), of w] that window_bounds(4) [OF conc_inv_window [OF assms(1)]]
      isize_wrapping_sub_eq_0 [of w w]
    by (metis le_neq_implies_less order_less_irrefl)
  then show "pc_ok (shared s) (enq_log s) (given_back s) i z pc"
    if "Busy x (snd (enq_step f (shared s) (ELoadSeq y w))) = Busy z pc" for z pc
    using that y by (auto simp: Let_def split: if_splits)
qed (simp add: not_holding_def assms(3))

lemma inv_prod_step:
  assumes "conc_inv s" "in_budget s" "act (ProdStep i f) s = Some t"
  shows "conc_inv t"
proof -
  obtain x pc where i: "prods s i = Busy x pc"
    using assms(3) by (auto split: producer.splits)
  define q' where "q' = fst (enq_step f (shared s) pc)"
  define pc' where "pc' = snd (enq_step f (shared s) pc)"
  have t: "t = s\<lparr>shared := q', prods := (prods s)(i := Busy x pc'), enq_log := log_enq i pc pc' (enq_log s)\<rparr>"
    using assms(3) i by (simp add: q'_def pc'_def split: prod.splits)
  note ok = conc_inv_pc [OF assms(1) i]
  have quiet: ?thesis
    if "q' = shared s" "\<not> holding pc" "\<not> holding pc'" "pc_ok (shared s) (enq_log s) (given_back s) i x pc'"
  proof -
    have "log_enq i pc pc' (enq_log s) = enq_log s"
      using that(2,3) by (cases pc; cases pc') (simp_all add: log_enq_def)
    then show ?thesis
      using inv_quiet [OF assms(1), of i "Busy x pc'"] that i unfolding t by (simp add: not_holding_def)
  qed
  show ?thesis
  proof (cases pc)
    case (ELoadPos y)
    then show ?thesis
      using quiet ok window_bounds(6) [OF conc_inv_window [OF assms(1)]] assms(2)
      by (simp add: q'_def pc'_def in_budget_def unat_of_small)
  next
    case (ELoadSeq y w)
    then show ?thesis
      using enq_load_seq_inv [OF assms(1,2), of i x y w f] i unfolding t q'_def pc'_def
      by (auto simp: Let_def log_enq_def)
  next
    case (ECas y w)
    show ?thesis
    proof (cases "enqueue_pos (shared s) = w \<and> \<not> f")
      case True
      then show ?thesis
        using inv_reserve [OF assms(1,2), of i x y w] i ECas unfolding t q'_def pc'_def
        by (simp add: log_enq_def)
    next
      case False
      then show ?thesis
        using quiet ok window_bounds(6) [OF conc_inv_window [OF assms(1)]] assms(2) ECas
        by (auto simp: q'_def pc'_def in_budget_def unat_of_small)
    qed
  next
    case (EWrite y w)
    have "y = x" using ok EWrite by simp
    moreover note O = owner_window [OF assms(1) i, of w] 
    ultimately show ?thesis
      using inv_own_slot [OF assms(1,2) i, of w "set_val (shared s) w (Some x)" "Some x" 0 "EPublish w"] EWrite ok
        window_bounds(1) [OF conc_inv_window [OF assms(1)]]
      unfolding t q'_def pc'_def by (simp add: log_enq_def sq_vl_set_val)
  next
    case (EPublish w)
    note O = owner_window [OF assms(1) i, of w] 
    have wf: "queue_wf (shared s)" using window_bounds(1) [OF conc_inv_window [OF assms(1)]] .
    have "published (set_seq (shared s) w (w + 1)) (enq_log s) (unat w)"
      using ok EPublish wf by (simp add: published_def sq_vl_set_seq)
    then show ?thesis
      using inv_own_slot [OF assms(1,2) i, of w "set_seq (shared s) w (w + 1)" None "w + 1" "EDone (Ok ())"] EPublish
      unfolding t q'_def pc'_def by (simp add: log_enq_def not_holding_def)
  qed (use quiet ok in \<open>auto simp: q'_def pc'_def\<close>)
qed

lemma inv_cons_step:
  assumes "conc_inv s" "in_budget s" "act (ConsStep f) s = Some t"
  shows "conc_inv t"
proof -
  obtain pc where c: "cons s = CBusy pc"
    using assms(3) by (auto split: consumer.splits)
  note ok = conc_inv_cons [OF assms(1), unfolded c]
  have quiet: "conc_inv (s\<lparr>cons := CBusy pc'\<rparr>)"
    if "\<not> taking (CBusy pc)" "\<not> taking (CBusy pc')" "cons_ok (shared s) (enq_log s) (given_back s) (CBusy pc')" for pc'
    using inv_cons_quiet [OF assms(1) _ that(3)] that(1,2) c by (simp add: given_back_def)
  show ?thesis
  proof (cases pc)
    case DStart
    then show ?thesis using quiet assms(3) c by (auto simp: log_deq_def)
  next
    case (DLoadSeq w)
    then show ?thesis
      using quiet assms(3) c ok inv_not_empty [OF assms(1,2), of w]
      by (auto simp: log_deq_def Let_def split: if_splits)
  next
    case (DCas w)
    have "conc_inv (s\<lparr>cons := CBusy (DLoadSeq (dequeue_pos (shared s)))\<rparr>)"
      by (rule quiet) (simp_all add: DCas)
    then show ?thesis
      using assms(3) c DCas inv_claim [OF assms(1,2), of w] by (auto simp: log_deq_def split: if_splits)
  next
    case (DTake w)
    then show ?thesis
      using assms(3) c inv_take [OF assms(1), of w] by (auto split: option.splits)
  next
    case (DRelease w x)
    then show ?thesis
      using assms(3) c inv_release [OF assms(1), of w x "Some x"] by (auto simp: log_deq_def)
  qed (use quiet assms(3) c ok in \<open>auto simp: log_deq_def\<close>)
qed

lemma log_enq_append: "\<exists>l. log_enq i pc pc' log = log @ l"
  by (cases pc; cases pc') (simp_all add: log_enq_def)

lemma enq_log_grows: "act a s = Some t \<Longrightarrow> \<exists>l. enq_log t = enq_log s @ l"
  using log_enq_append by (cases a) (auto simp: act_iff simp del: act.simps)

lemma in_budget_back: "act a s = Some t \<Longrightarrow> in_budget t \<Longrightarrow> in_budget s"
  using enq_log_grows [of a s t] by (auto simp: in_budget_def)

lemma inv_act:
  assumes "conc_inv s" "act a s = Some t" "in_budget t"
  shows "conc_inv t"
proof -
  have b: "in_budget s"
    using assms(2,3) by (rule in_budget_back)
  have idle: "conc_inv (s\<lparr>prods := (prods s)(i := new)\<rparr>)"
    if "not_holding (prods s i)" "new = Idle \<or> new = Gone \<or> (\<exists>x. new = Busy x (EStart x))" for i new
    by (rule inv_quiet [OF assms(1) that(1)]) (use that(2) in auto)
  have quiet_cons: "conc_inv (s\<lparr>cons := c\<rparr>)"
    if "\<not> taking (cons s)" "c = CIdle \<or> c = CGone \<or> c = CBusy DStart" for c
    using inv_cons_quiet [OF assms(1), of c] that by (auto simp: given_back_def)
  show ?thesis
  proof (cases a)
    case (BeginSend i x)
    then show ?thesis
      using assms(2) idle [of i "Busy x (EStart x)"] by (auto simp: not_holding_def split: producer.splits)
  next
    case (EndSend i)
    then obtain x r where i: "prods s i = Busy x (EDone r)"
        "t = s\<lparr>prods := (prods s)(i := Idle), returns := (returns s)(i := returns s i @ [(x, r)])\<rparr>"
      using assms(2) by (auto split: producer.splits enq_pc.splits)
    then show ?thesis using idle [of i Idle] by (simp add: not_holding_def)
  next
    case (Clone i j)
    then have "prods s j = Gone" "t = s\<lparr>prods := (prods s)(j := Idle),
        shared := (shared s)\<lparr>producers := producers (shared s) + 1\<rparr>\<rparr>"
      using assms(2) by (auto simp: sender_clone_def split: if_splits)
    then show ?thesis
      using idle [of j Idle] inv_handles(1) [where s = "s\<lparr>prods := (prods s)(j := Idle)\<rparr>"] by (simp add: not_holding_def)
  next
    case (DropTx i)
    then have "prods s i = Idle" "t = s\<lparr>prods := (prods s)(i := Gone),
        shared := (shared s)\<lparr>producers := producers (shared s) - 1\<rparr>\<rparr>"
      using assms(2) by (auto simp: sender_drop_def split: if_splits)
    then show ?thesis
      using idle [of i Gone] inv_handles(1) [where s = "s\<lparr>prods := (prods s)(i := Gone)\<rparr>"] by (simp add: not_holding_def)
  next
    case BeginRecv
    then show ?thesis using assms(2) quiet_cons [of "CBusy DStart"] by (auto split: if_splits)
  next
    case EndRecv
    then show ?thesis
      using assms(2) quiet_cons [of CIdle] by (auto split: consumer.splits deq_pc.splits)
  next
    case DropRx
    then have "cons s = CIdle" "t = s\<lparr>cons := CGone, shared := (shared s)\<lparr>consumer_alive := False\<rparr>\<rparr>"
      using assms(2) by (auto simp: receiver_drop_def split: if_splits)
    then show ?thesis
      using quiet_cons [of CGone] inv_handles(2) [where s = "s\<lparr>cons := CGone\<rparr>"] by simp
  qed (use assms b inv_prod_step inv_cons_step in \<open>metis\<close>)+
qed

lemma conc_init_inv:
  assumes "channel sb cap = Some q" "2 \<le> unat cap" "8 \<le> sb"
  shows "conc_inv (conc_init q)"
proof -
  have q: "queue_inv q" "dequeue_pos q = 0" "enqueue_pos q = 0"
    using channel_inv [OF assms(1,3,2)] assms(1) by (auto simp: channel_def Let_def split: if_splits)
  have "sq q p = of_nat p \<and> vl q p = None" if "p < length (buffer q)" for p
    using queue_inv_free [OF q(1), of p] that q(2,3) by (simp add: sq_def vl_def nth_slot_def qlen_def)
  then show ?thesis
    using q by (auto simp: conc_inv_def conc_init_def window_ok_def given_back_def split: if_splits)
qed

lemma conc_reach_inv:
  assumes "conc_reach q s" "channel sb cap = Some q" "2 \<le> unat cap" "8 \<le> sb" "in_budget s"
  shows "conc_inv s"
  using assms(1,5)
proof (induction rule: conc_reach.induct)
  case start
  then show ?case using conc_init_inv [OF assms(2-4)] by simp
next
  case (step s a t)
  then show ?case using inv_act in_budget_back by blast
qed

subsection \<open>Histories\<close>

text \<open>How many messages the consumer has moved out of their slots.\<close>

definition taken :: "'a conc \<Rightarrow> nat" where
  "taken s = unat (dequeue_pos (shared s)) - (case cons s of CBusy (DTake _) \<Rightarrow> 1 | _ \<Rightarrow> 0)"

lemma taken_bounds:
  assumes "conc_inv s"
  shows "taken s \<le> length (enq_log s)"
    and "length (enq_log s) \<le> taken s + length (buffer (shared s))"
    and "given_back s \<le> taken s" "taken s \<le> Suc (given_back s)"
    and "length (enq_log s) - given_back s \<le> length (buffer (shared s))"
proof -
  note W = window_bounds [OF conc_inv_window [OF assms]]
  have "given_back s \<le> taken s" "taken s \<le> unat (dequeue_pos (shared s))"
    by (auto simp: taken_def given_back_def split: consumer.splits deq_pc.splits)
  then show "taken s \<le> length (enq_log s)" "length (enq_log s) \<le> taken s + length (buffer (shared s))"
      "given_back s \<le> taken s" "taken s \<le> Suc (given_back s)"
      "length (enq_log s) - given_back s \<le> length (buffer (shared s))"
    using W by auto
qed

lemma taken_step:
  assumes "conc_inv s" "in_budget s" "act a s = Some t" "deq_log s = map snd (take (taken s) (enq_log s))"
  shows "deq_log t = map snd (take (taken t) (enq_log t))"
proof (cases a)
  case (ProdStep i f)
  obtain x pc where i: "prods s i = Busy x pc"
    using assms(3) ProdStep by (auto split: producer.splits)
  have "dequeue_pos (fst (enq_step f (shared s) pc)) = dequeue_pos (shared s)"
    by (cases pc) (auto simp: Let_def)
  then have "taken t = taken s" "deq_log t = deq_log s"
    using assms(3) ProdStep i by (auto simp: act_iff taken_def simp del: act.simps)
  then show ?thesis
    using assms(4) enq_log_grows [OF assms(3)] taken_bounds(1) [OF assms(1)] by auto
next
  case (ConsStep f)
  obtain pc where c: "cons s = CBusy pc"
    using assms(3) ConsStep by (auto split: consumer.splits)
  note ok = conc_inv_cons [OF assms(1), unfolded c]
  show ?thesis
  proof (cases pc)
    case (DCas w)
    have "unat (w + 1) = Suc (unat w)"
      using ok DCas c assms(2) by (auto simp: given_back_def in_budget_def unat_word_ariths)
    then show ?thesis
      using DCas ok c assms(3,4) ConsStep by (auto simp: taken_def log_deq_def split: if_splits)
  next
    case (DTake w)
    then show ?thesis
      using ok c assms(3,4) ConsStep inv_take [OF assms(1), of w]
      by (auto simp: taken_def log_deq_def take_Suc_conv_app_nth)
  qed (use c ok assms(3,4) ConsStep in \<open>auto simp: taken_def log_deq_def Let_def\<close>)
qed (use assms(3,4) in \<open>auto simp: act_iff taken_def sender_clone_def sender_drop_def receiver_drop_def
        simp del: act.simps\<close>)

text \<open>The messages a producer's calls have enqueued, the running one included.\<close>

fun committed :: "'a producer \<Rightarrow> 'a list" where
  "committed (Busy x (EWrite _ _)) = [x]"
| "committed (Busy x (EPublish _)) = [x]"
| "committed (Busy x (EDone (Ok _))) = [x]"
| "committed _ = []"

fun is_ok :: "('a, 'e) result \<Rightarrow> bool" where
  "is_ok (Ok _) = True"
| "is_ok (Err _) = False"

definition sent_by :: "'a conc \<Rightarrow> nat \<Rightarrow> 'a list" where
  "sent_by s i = map fst (filter (is_ok \<circ> snd) (returns s i))"

definition producers_log :: "'a conc \<Rightarrow> nat \<Rightarrow> 'a list" where
  "producers_log s i = map snd (filter (\<lambda>e. fst e = i) (enq_log s))"

definition returns_inv :: "'a conc \<Rightarrow> bool" where
  "returns_inv s \<longleftrightarrow>
     (\<forall>i. sent_by s i @ committed (prods s i) = producers_log s i) \<and>
     (\<forall>i x e. (x, Err e) \<in> set (returns s i) \<longrightarrow> try_into_message e = x)"

lemma returns_quiet:
  assumes "returns_inv s" "committed new = committed (prods s i)"
  shows "returns_inv (s\<lparr>prods := (prods s)(i := new)\<rparr>)"
  using assms by (simp add: returns_inv_def sent_by_def producers_log_def)

lemma returns_inv_cong [simp]:
  "returns_inv (s\<lparr>shared := q\<rparr>) = returns_inv s" "returns_inv (s\<lparr>cons := c\<rparr>) = returns_inv s"
  "returns_inv (s\<lparr>deq_log := d\<rparr>) = returns_inv s"
  by (simp_all add: returns_inv_def sent_by_def producers_log_def)

lemma returns_step:
  assumes "conc_inv s" "returns_inv s" "act a s = Some t"
  shows "returns_inv t"
proof (cases a)
  case (ProdStep i f)
  obtain x pc where i: "prods s i = Busy x pc"
    using assms(3) ProdStep by (auto split: producer.splits)
  note ok = conc_inv_pc [OF assms(1) i]
  have t: "enq_log t = log_enq i pc (snd (enq_step f (shared s) pc)) (enq_log s)"
      "prods t = (prods s)(i := Busy x (snd (enq_step f (shared s) pc)))" "returns t = returns s"
    using assms(3) ProdStep i by (auto split: prod.splits)
  have "producers_log t j @ [] = producers_log s j" "committed (prods t j) = committed (prods s j)" if "j \<noteq> i" for j
    using that t by (cases pc; cases "snd (enq_step f (shared s) pc)"; simp add: producers_log_def log_enq_def)+
  moreover have "sent_by s i @ committed (prods t i) = producers_log t i"
    using assms(2) ok i t
    by (cases pc) (auto simp: returns_inv_def producers_log_def log_enq_def Let_def dest: spec [of _ i])
  ultimately show ?thesis
    using assms(2) t(3) unfolding returns_inv_def sent_by_def by (metis append_Nil2)
next
  case (EndSend i)
  then obtain x r where i: "prods s i = Busy x (EDone r)"
      "t = s\<lparr>prods := (prods s)(i := Idle), returns := (returns s)(i := returns s i @ [(x, r)])\<rparr>"
    using assms(3) by (auto split: producer.splits enq_pc.splits)
  then show ?thesis
    using assms(2) conc_inv_pc [OF assms(1) i(1)]
    by (cases r) (auto simp: returns_inv_def sent_by_def producers_log_def dest: spec [of _ i])
next
  case (Clone i j)
  then show ?thesis
    using assms(2,3) returns_quiet [of "s\<lparr>shared := sender_clone (shared s)\<rparr>" Idle j]
    by (simp add: act_iff del: act.simps)
next
  case (DropTx i)
  then show ?thesis
    using assms(2,3) returns_quiet [of "s\<lparr>shared := sender_drop (shared s)\<rparr>" Gone i]
    by (simp add: act_iff del: act.simps)
qed (use assms(2,3) in \<open>auto simp: act_iff returns_quiet simp del: act.simps\<close>)

subsection \<open>Handles\<close>

definition handles_inv :: "'a conc \<Rightarrow> bool" where
  "handles_inv s \<longleftrightarrow>
     finite {i. prods s i \<noteq> Gone} \<and> unat (producers (shared s)) = card {i. prods s i \<noteq> Gone} \<and>
     (consumer_alive (shared s) \<longleftrightarrow> cons s \<noteq> CGone)"

lemma enq_step_handles [simp]:
  "producers (fst (enq_step f q pc)) = producers q" "consumer_alive (fst (enq_step f q pc)) = consumer_alive q"
  by (cases pc; simp add: Let_def)+

lemma deq_step_handles [simp]:
  "producers (fst (deq_step f q pc)) = producers q" "consumer_alive (fst (deq_step f q pc)) = consumer_alive q"
  by (cases pc; simp add: Let_def split: option.split)+

lemma live_upd:
  "{k. ((prods s)(i := p)) k \<noteq> Gone} =
     (if p = Gone then {k. prods s k \<noteq> Gone} - {i} else insert i {k. prods s k \<noteq> Gone})"
  by auto

lemma handles_step:
  assumes "handles_inv s" "act a s = Some t"
  shows "handles_inv t"
proof (cases a)
  case (Clone i j)
  have "unat (producers (shared s) + 1) = Suc (unat (producers (shared s)))"
    using assms(2) Clone by (simp add: act_iff unat_word_ariths del: act.simps)
  then show ?thesis
    using assms Clone by (auto simp: act_iff handles_inv_def live_upd sender_clone_def simp del: act.simps fun_upd_apply)
next
  case (DropTx i)
  then have i: "i \<in> {k. prods s k \<noteq> Gone}" "finite {k. prods s k \<noteq> Gone}"
    using assms by (auto simp: act_iff handles_inv_def simp del: act.simps)
  then have pos: "0 < unat (producers (shared s))"
    using assms(1) by (auto simp: handles_inv_def card_gt_0_iff)
  then have "unat (producers (shared s) - 1) = unat (producers (shared s)) - 1"
    by (metis gr_implies_not_zero unat_0 unat_minus_one)
  then show ?thesis
    using assms DropTx i by (simp add: act_iff handles_inv_def live_upd sender_drop_def del: act.simps fun_upd_apply)
qed (use assms in \<open>auto simp: act_iff handles_inv_def live_upd insert_absorb receiver_drop_def
       simp del: act.simps fun_upd_apply\<close>)

text \<open>All invariants together.\<close>

definition run_inv :: "'a conc \<Rightarrow> bool" where
  "run_inv s \<longleftrightarrow> conc_inv s \<and> deq_log s = map snd (take (taken s) (enq_log s)) \<and> returns_inv s \<and> handles_inv s"

lemma conc_reach_run_inv:
  assumes "conc_reach q s" "channel sb cap = Some q" "2 \<le> unat cap" "8 \<le> sb" "in_budget s"
  shows "run_inv s"
  using assms(1,5)
proof (induction rule: conc_reach.induct)
  case start
  have "producers q = 1" "consumer_alive q" "dequeue_pos q = 0"
    using assms(2) by (auto simp: channel_def Let_def split: if_splits)
  then show ?case
    using conc_init_inv [OF assms(2-4)]
    by (auto simp: run_inv_def conc_init_def taken_def returns_inv_def sent_by_def producers_log_def
        handles_inv_def)
next
  case (step s a t)
  then have "in_budget s" using in_budget_back by blast
  with step show ?case
    using inv_act taken_step returns_step handles_step unfolding run_inv_def by blast
qed

subsection \<open>Threads running alone\<close>

lemma mark_behind [simp]: "isize_wrapping_sub w (w + 1) = - 1"
  using isize_wrapping_sub_neg [of 1 w] by simp

lemma head_mark:
  assumes "conc_inv s" "\<not> taking (cons s)"
  shows "seq (slot_at (shared s) (dequeue_pos (shared s))) = dequeue_pos (shared s) + 1 \<and>
      given_back s < length (enq_log s) \<and> published (shared s) (enq_log s) (given_back s) \<or>
    seq (slot_at (shared s) (dequeue_pos (shared s))) = dequeue_pos (shared s) \<and>
      \<not> published (shared s) (enq_log s) (given_back s)"
proof -
  note W = window_bounds [OF conc_inv_window [OF assms(1)]]
  have R: "of_nat (given_back s) = dequeue_pos (shared s)" "given_back s = unat (dequeue_pos (shared s))"
    using assms(2) by (simp_all add: given_back_def)
  have "given_back s < given_back s + length (buffer (shared s))"
    using W(7) by linarith
  then show ?thesis
    using window_seq [OF assms(1), of "given_back s"] R by (auto simp: sq_def published_def)
qed

definition head_message :: "'a conc \<Rightarrow> 'a option" where
  "head_message s =
     (if published (shared s) (enq_log s) (given_back s) \<and> given_back s < length (enq_log s)
      then Some (snd (enq_log s ! given_back s)) else None)"

lemma consumer_alone:
  assumes "conc_inv s" "cons s = CBusy DStart"
  shows "\<exists>t. schedule (replicate 5 (ConsStep False)) s = Some t \<and>
    cons t = CBusy (DDone (head_message s)) \<and> prods t = prods s"
proof -
  have "\<not> taking (cons s)" using assms(2) by simp
  from head_mark [OF assms(1) this] show ?thesis
  proof (elim disjE conjE, goal_cases)
    case 1
    let ?q = "shared s" and ?w = "dequeue_pos (shared s)"
    have w: "?w = of_nat (given_back s)"
      using assms(2) by (simp add: given_back_def)
    have v: "val (slot_at (?q\<lparr>dequeue_pos := p\<rparr>) ?w) = Some (snd (enq_log s ! given_back s))" for p
      using 1(3) by (simp add: published_def vl_def slot_at_def index_def w)
    show ?case
      using 1 assms(2) v by (simp add: eval_nat_numeral log_deq_def Let_def head_message_def)
  next
    case 2
    then show ?case
      using assms(2) by (simp add: eval_nat_numeral log_deq_def Let_def head_message_def)
  qed
qed

lemma producer_alone:
  assumes "conc_inv s" "in_budget s" "prods s i = Busy x (EStart x)"
  shows "\<exists>t. schedule (replicate 6 (ProdStep i False)) s = Some t \<and> cons t = cons s \<and>
    prods t i = Busy x (EDone
      (if \<not> consumer_alive (shared s) then Err (Closed x)
       else if length (enq_log s) = given_back s + length (buffer (shared s)) then Err (Full x)
       else Ok ()))"
proof -
  let ?q = "shared s" and ?w = "enqueue_pos (shared s)" and ?T = "length (enq_log s)"
  note W = window_bounds [OF conc_inv_window [OF assms(1)]]
  have uw: "unat ?w = ?T"
    using W(6) assms(2) by (simp add: in_budget_def unat_of_small)
  consider (closed) "\<not> consumer_alive ?q"
    | (full) "consumer_alive ?q" "?T = given_back s + length (buffer ?q)"
    | (free) "consumer_alive ?q" "?T < given_back s + length (buffer ?q)"
    using W(4) by linarith
  then show ?thesis
  proof cases
    case closed
    then show ?thesis using assms(3) by (simp add: eval_nat_numeral log_enq_def)
  next
    case full
    then show ?thesis
      using assms(3) full_mark [OF assms(1,2) uw] by (auto simp: eval_nat_numeral log_enq_def Let_def)
  next
    case free
    have "seq (slot_at ?q ?w) = ?w"
      using assms(1) free(2) W(6) by (auto simp: conc_inv_def window_ok_def sq_def)
    then show ?thesis
      using assms(3) free by (simp add: eval_nat_numeral log_enq_def Let_def)
  qed
qed

subsection \<open>Properties\<close>

lemma enq_step_buffer [simp]: "length (buffer (fst (enq_step f q pc))) = length (buffer q)"
  by (cases pc) (auto simp: Let_def)

lemma deq_step_buffer [simp]: "length (buffer (fst (deq_step f q pc))) = length (buffer q)"
  by (cases pc) (auto simp: Let_def split: option.split)

lemma act_buffer: "act a s = Some t \<Longrightarrow> length (buffer (shared t)) = length (buffer (shared s))"
  by (cases a) (auto simp: act_iff sender_clone_def sender_drop_def receiver_drop_def simp del: act.simps)

lemma conc_reach_capacity:
  assumes "conc_reach q s" "channel sb cap = Some q" "2 \<le> unat cap"
  shows "length (buffer (shared s)) = next_power_of_two (unat cap)"
proof -
  have "length (buffer (shared s)) = length (buffer q)"
    using assms(1) by (induction rule: conc_reach.induct) (simp_all add: conc_init_def act_buffer)
  also have "\<dots> = next_power_of_two (max (unat cap) 1)"
    using assms(2) by (auto simp: channel_def Let_def split: if_splits)
  finally show ?thesis using assms(3) by (simp add: max_def)
qed

lemma log_deq_length: "run_inv s \<Longrightarrow> length (deq_log s) = taken s"
  using taken_bounds(1) [of s] by (auto simp: run_inv_def)

text \<open>
  A run for the witnesses: two senders on a queue of two slots, the second of which overtakes the
  first between its reservation and its write.
\<close>

definition demo_queue :: "nat queue" where
  "demo_queue = the (channel 16 2)"

definition demo :: "nat action list" where
  "demo = [Clone 0 1, BeginSend 0 7] @ replicate 4 (ProdStep 0 False) @ [BeginSend 1 8] @
     replicate 6 (ProdStep 1 False) @ [EndSend 1]"

definition demo_state :: "nat conc" where
  "demo_state = the (schedule demo (conc_init demo_queue))"

lemma demo_channel: "channel 16 2 = Some demo_queue"
  by (simp add: demo_queue_def channel_two)

lemma replicate_numeral': "replicate (numeral n) x = x # replicate (pred_numeral n) x"
  by (simp add: numeral_eq_Suc)

lemmas demo_simps = demo_queue_def channel_two demo_def conc_init_def replicate_numeral' sender_clone_def
  sender_drop_def log_enq_def log_deq_def Let_def slot_at_def index_def set_val_def set_seq_def

lemma demo_run:
  "schedule demo (conc_init demo_queue) = Some
     \<lparr>shared = \<lparr>buffer = [\<lparr>seq = 0, val = None\<rparr>, \<lparr>seq = 2, val = Some 8\<rparr>], qmask = 1, enqueue_pos = 2,
        dequeue_pos = 0, producers = 2, consumer_alive = True\<rparr>,
      prods = (\<lambda>_. Gone)(0 := Busy 7 (EWrite 7 0), 1 := Idle), cons = CIdle,
      enq_log = [(0, 7), (1, 8)], deq_log = [], returns = (\<lambda>_. [])(1 := [(8, Ok ())])\<rparr>"
  by (simp add: demo_simps fun_upd_twist [of 0 1])

lemma demo_reach: "conc_reach demo_queue demo_state"
  using schedule_reach [OF conc_reach.start demo_run] by (simp add: demo_state_def demo_run)

lemma demo_fields [simp]:
  "enq_log demo_state = [(0, 7), (1, 8)]" "deq_log demo_state = []" "cons demo_state = CIdle"
  "returns demo_state (Suc 0) = [(8, Ok ())]" "prods demo_state 0 = Busy 7 (EWrite 7 0)" "prods demo_state (Suc 0) = Idle"
  "in_budget demo_state"
  by (simp_all add: demo_state_def demo_run in_budget_def)

text \<open>
  C1: with any number of concurrent senders and however their accesses interleave with the
  receiver's, the receiver takes out the messages in exactly the order in which their senders
  reserved positions: none is lost, duplicated or overtaken. At any moment at most as many messages
  are reserved and not yet taken as the queue has slots.
\<close>

theorem concurrent_fifo:
  assumes "channel slot_bytes capacity = Some q" "2 \<le> unat capacity" "8 \<le> slot_bytes"
    and "conc_reach q s" "in_budget s"
  shows "deq_log s = map snd (take (length (deq_log s)) (enq_log s)) \<and>
    length (deq_log s) \<le> length (enq_log s) \<and>
    length (enq_log s) \<le> length (deq_log s) + next_power_of_two (unat capacity)"
proof -
  have inv: "run_inv s"
    using conc_reach_run_inv [OF assms(4,1-3,5)] .
  then show ?thesis
    using taken_bounds [of s] log_deq_length [OF inv] conc_reach_capacity [OF assms(4,1,2)]
    by (simp add: run_inv_def)
qed

lemma concurrent_fifo_witness:
  "length (enq_log demo_state) \<le> length (deq_log demo_state) + next_power_of_two 2"
  using concurrent_fifo [OF demo_channel _ _ demo_reach] by simp

text \<open>
  A sender's successful calls are exactly the messages it has in the queue's order, in the order
  it made the calls (the call that is past its reservation counted last), and a failed call hands its
  own message back and puts nothing in.
\<close>

theorem concurrent_returns:
  assumes "channel slot_bytes capacity = Some q" "2 \<le> unat capacity" "8 \<le> slot_bytes"
    and "conc_reach q s" "in_budget s"
  shows "sent_by s i @ committed (prods s i) = producers_log s i \<and>
    (\<forall>(x, r)\<in>set (returns s i). case r of Ok _ \<Rightarrow> True | Err e \<Rightarrow> try_into_message e = x)"
  using conc_reach_run_inv [OF assms(4,1-3,5)] by (auto simp: run_inv_def returns_inv_def split: result.split)

lemma concurrent_returns_witness:
  "sent_by demo_state 1 @ committed (prods demo_state 1) = producers_log demo_state 1 \<and>
   producers_log demo_state 0 = [7]"
  using concurrent_returns [OF demo_channel _ _ demo_reach, of 1] by (simp add: producers_log_def)

fun writing_at :: "'a producer \<Rightarrow> usize option" where
  "writing_at (Busy _ (EWrite _ w)) = Some w"
| "writing_at (Busy _ (EPublish w)) = Some w"
| "writing_at _ = None"

fun reading_at :: "'a consumer \<Rightarrow> usize option" where
  "reading_at (CBusy (DTake w)) = Some w"
| "reading_at (CBusy (DRelease w _)) = Some w"
| "reading_at _ = None"

lemma writing_atE:
  assumes "conc_inv s" "writing_at (prods s i) = Some w"
  obtains x where "enq_log s ! unat w = (i, x)" "unat (dequeue_pos (shared s)) \<le> unat w"
    "unat w < length (enq_log s)" "sq (shared s) (unat w) = w"
  using assms(2) conc_inv_pc [OF assms(1), of i] that by (cases "prods s i" rule: writing_at.cases) auto

lemma slots_apart:
  assumes "conc_inv s" "unat v < length (enq_log s)" "given_back s \<le> unat v"
    and "unat w < length (enq_log s)" "given_back s \<le> unat w" "index (shared s) v = index (shared s) w"
  shows "unat v = unat w"
  using slot_apart [OF assms(1,4,5), of "unat v"] assms window_bounds(4) [OF conc_inv_window [OF assms(1)]] by simp

text \<open>
  C2: the accesses to the \<open>UnsafeCell\<close>s never race. Two senders between their reservation and their
  publishing store work on different slots, and the receiver between its exchange and its releasing
  store on yet another; a sender writes only into a cell that holds no value, so no message is
  overwritten or leaked, and the receiver reads only a cell that holds one, so \<open>assume_init_read\<close> is
  never undefined.
\<close>

theorem concurrent_no_race:
  assumes "channel slot_bytes capacity = Some q" "2 \<le> unat capacity" "8 \<le> slot_bytes"
    and "conc_reach q s" "in_budget s"
  shows "(\<forall>i j v w. i \<noteq> j \<longrightarrow> writing_at (prods s i) = Some v \<longrightarrow> writing_at (prods s j) = Some w \<longrightarrow>
            index (shared s) v \<noteq> index (shared s) w) \<and>
    (\<forall>i v w. writing_at (prods s i) = Some v \<longrightarrow> reading_at (cons s) = Some w \<longrightarrow>
            index (shared s) v \<noteq> index (shared s) w) \<and>
    (\<forall>i x y w. prods s i = Busy x (EWrite y w) \<longrightarrow> val (slot_at (shared s) w) = None) \<and>
    (\<forall>w. cons s = CBusy (DTake w) \<longrightarrow> val (slot_at (shared s) w) \<noteq> None) \<and>
    cons s \<noteq> CBusy DUninit"
proof (intro conjI allI impI)
  have inv: "conc_inv s"
    using conc_reach_inv [OF assms(4,1-3,5)] .
  note W = window_bounds [OF conc_inv_window [OF inv]]
  { fix i j v w
    assume ij: "i \<noteq> j" "writing_at (prods s i) = Some v" "writing_at (prods s j) = Some w"
    obtain x where v: "enq_log s ! unat v = (i, x)" "unat (dequeue_pos (shared s)) \<le> unat v"
        "unat v < length (enq_log s)"
      using inv ij(2) by (rule writing_atE)
    obtain y where w: "enq_log s ! unat w = (j, y)" "unat (dequeue_pos (shared s)) \<le> unat w"
        "unat w < length (enq_log s)"
      using inv ij(3) by (rule writing_atE)
    show "index (shared s) v \<noteq> index (shared s) w"
      using slots_apart [OF inv v(3) _ w(3)] v w ij(1) W(2) by auto }
  { fix i v w
    assume iw: "writing_at (prods s i) = Some v" "reading_at (cons s) = Some w"
    obtain x where v: "enq_log s ! unat v = (i, x)" "unat (dequeue_pos (shared s)) \<le> unat v"
        "unat v < length (enq_log s)"
      using inv iw(1) by (rule writing_atE)
    have w: "w = of_nat (given_back s)" "unat (dequeue_pos (shared s)) = Suc (given_back s)"
      using iw(2) conc_inv_cons [OF inv] by (cases "cons s" rule: reading_at.cases; auto)+
    then have uw: "unat w = given_back s"
      using assms(5) W(3) by (simp add: in_budget_def unat_of_small)
    show "index (shared s) v \<noteq> index (shared s) w"
      using slots_apart [OF inv v(3) _ _ _, of w] v w(2) uw W(3) by auto }
  show "val (slot_at (shared s) w) = None" if "prods s i = Busy x (EWrite y w)" for i x y w
    using conc_inv_pc [OF inv that] by (simp add: vl_def)
  show "val (slot_at (shared s) w) \<noteq> None" if "cons s = CBusy (DTake w)" for w
    using inv_take [OF inv that] by auto
  show "cons s \<noteq> CBusy DUninit"
    using conc_inv_cons [OF inv] by auto
qed

lemma concurrent_no_race_witness:
  "val (slot_at (shared demo_state) 0) = None \<and> writing_at (prods demo_state 0) = Some 0"
proof -
  have "\<forall>i x y w. prods demo_state i = Busy x (EWrite y w) \<longrightarrow> val (slot_at (shared demo_state) w) = None"
    using concurrent_no_race [OF demo_channel _ _ demo_reach] by simp
  then show ?thesis using demo_fields(5) by fastforce
qed

text \<open>
  A sender gives up with \<open>Full\<close> only after a read at which every slot of the queue was in use:
  reserved, filled, or not yet handed back by the receiver. A position that other senders or the
  receiver have meanwhile moved past is never mistaken for a full queue.
\<close>

theorem concurrent_full_verdict:
  assumes "channel slot_bytes capacity = Some q" "2 \<le> unat capacity" "8 \<le> slot_bytes"
    and "conc_reach q s" "in_budget s"
    and "prods s i = Busy x (ELoadSeq y w)" "act (ProdStep i f) s = Some t" "prods t i = Busy x (EFull y)"
  shows "length (enq_log s) = given_back s + next_power_of_two (unat capacity)"
proof (rule ccontr)
  have inv: "conc_inv s"
    using conc_reach_inv [OF assms(4,1-3,5)] .
  assume "length (enq_log s) \<noteq> given_back s + next_power_of_two (unat capacity)"
  then have "length (enq_log s) \<noteq> given_back s + length (buffer (shared s))"
    using conc_reach_capacity [OF assms(4,1,2)] by simp
  moreover have "unat w \<le> length (enq_log s)"
    using conc_inv_pc [OF inv assms(6)] by simp
  ultimately obtain d where "seq (slot_at (shared s) w) = w + of_nat d" "d < 2 ^ 63"
    using stale_mark [OF inv assms(5)] by metis
  then have "\<not> isize_wrapping_sub (seq (slot_at (shared s) w)) w < 0"
    by (simp add: isize_wrapping_sub_of_nat)
  then show False
    using assms(6-8) by (auto simp: Let_def split: if_splits)
qed

definition demo_full :: "nat conc" where
  "demo_full = demo_state\<lparr>prods := (prods demo_state)(1 := Busy 9 (ELoadSeq 9 2))\<rparr>"

lemma demo_full_run: "schedule [BeginSend 1 9, ProdStep 1 False, ProdStep 1 False] demo_state = Some demo_full"
  by (simp add: demo_full_def demo_state_def demo_run log_enq_def)

lemma concurrent_full_verdict_witness:
  "length (enq_log demo_full) = given_back demo_full + next_power_of_two 2"
proof -
  have reach: "conc_reach demo_queue demo_full"
    using schedule_reach [OF demo_reach demo_full_run] .
  have "length (enq_log demo_full) = given_back demo_full + next_power_of_two (unat (2 :: usize))"
    by (rule concurrent_full_verdict [OF demo_channel _ _ reach, of 1 9 9 2 False
          "demo_full\<lparr>prods := (prods demo_full)(1 := Busy 9 (EFull 9))\<rparr>"])
      (simp_all add: demo_full_def in_budget_def demo_state_def demo_run log_enq_def Let_def
        slot_at_def index_def isize_wrapping_sub_def)
  then show ?thesis by simp
qed

text \<open>
  C30: when the receiver reads that no sender is left and then that the queue is empty, every message
  ever accepted has been taken out, and nothing is enqueued afterwards: a core may detach the actor.
\<close>

theorem concurrent_drained:
  assumes "channel slot_bytes capacity = Some q" "2 \<le> unat capacity" "8 \<le> slot_bytes"
    and "conc_reach q s" "in_budget s"
    and "cons s = CIdle" "\<not> producers_alive (shared s)" "receiver_is_empty (shared s)"
  shows "deq_log s = map snd (enq_log s) \<and> (\<forall>i. prods s i = Gone) \<and>
    (\<forall>as. map_option enq_log (schedule as s) \<in> {None, Some (enq_log s)})"
proof -
  have run: "run_inv s"
    using conc_reach_run_inv [OF assms(4,1-3,5)] .
  then have inv: "conc_inv s" and h: "handles_inv s" and log: "deq_log s = map snd (take (taken s) (enq_log s))"
    by (simp_all add: run_inv_def)
  note W = window_bounds [OF conc_inv_window [OF inv]]
  have gone: "prods s i = Gone" for i
    using h assms(7) by (auto simp: handles_inv_def producers_alive_def word_gt_0)
  have "\<not> published (shared s) (enq_log s) (given_back s)"
    using head_mark [OF inv] assms(6,8) by (auto simp: receiver_is_empty_def queue_is_empty_def Let_def)
  moreover have "\<not> reserved (prods s) (enq_log s) p" for p
    by (simp add: reserved_def gone)
  moreover have R: "given_back s = unat (dequeue_pos (shared s))" "taken s = given_back s"
    using assms(6) by (simp_all add: given_back_def taken_def)
  ultimately have "length (enq_log s) \<le> taken s"
    using conc_inv_slot [OF inv, of "given_back s"] by (metis leI order_refl)
  then have "deq_log s = map snd (enq_log s)"
    using log by simp
  moreover have "map_option enq_log (schedule as s') \<in> {None, Some (enq_log s')}"
    if "\<forall>i. prods s' i = Gone" for as and s' :: "'a conc"
    using that
  proof (induction as arbitrary: s')
    case (Cons a as)
    then show ?case
    proof (cases "act a s'")
      case (Some t)
      then have "enq_log t = enq_log s' \<and> prods t = prods s'"
        using Cons.prems by (cases a) (auto simp: act_iff simp del: act.simps)
      then show ?thesis using Cons.IH [of t] Cons.prems Some by simp
    qed simp
  qed simp
  ultimately show ?thesis using gone by blast
qed

lemma concurrent_drained_witness:
  "\<exists>s. schedule [DropTx 0] (conc_init demo_queue) = Some s \<and> deq_log s = map snd (enq_log s)"
proof -
  obtain s where s: "schedule [DropTx 0] (conc_init demo_queue) = Some s" "in_budget s" "cons s = CIdle"
      "\<not> producers_alive (shared s)" "receiver_is_empty (shared s)"
    by (simp add: demo_simps in_budget_def producers_alive_def receiver_is_empty_def queue_is_empty_def
        isize_wrapping_sub_def)
  then show ?thesis
    using concurrent_drained [OF demo_channel _ _ schedule_reach [OF conc_reach.start s(1)] s(2-5)] by simp
qed

text \<open>
  C31: neither end waits for the other. From every reachable state the receiver, left to run, finishes
  a \<open>try_recv\<close> within five accesses, with the oldest message if that one has been published and
  \<open>None\<close> otherwise; a sender, left to run, finishes a \<open>try_send\<close> within six, with the verdict its
  situation calls for. This holds also while other senders are stopped in the middle of a call.
\<close>

theorem concurrent_nonblocking:
  assumes "channel slot_bytes capacity = Some q" "2 \<le> unat capacity" "8 \<le> slot_bytes"
    and "conc_reach q s" "in_budget s"
  shows "(cons s = CBusy DStart \<longrightarrow>
      (\<exists>t. schedule (replicate 5 (ConsStep False)) s = Some t \<and> cons t = CBusy (DDone (head_message s)))) \<and>
    (prods s i = Busy x (EStart x) \<longrightarrow>
      (\<exists>t. schedule (replicate 6 (ProdStep i False)) s = Some t \<and>
         prods t i = Busy x (EDone
           (if \<not> consumer_alive (shared s) then Err (Closed x)
            else if length (enq_log s) = given_back s + next_power_of_two (unat capacity) then Err (Full x)
            else Ok ()))))"
proof -
  have inv: "conc_inv s"
    using conc_reach_inv [OF assms(4,1-3,5)] .
  show ?thesis
    using consumer_alone [OF inv] producer_alone [OF inv assms(5), of i x]
      conc_reach_capacity [OF assms(4,1,2)] by auto
qed

lemma concurrent_nonblocking_witness:
  "\<exists>s t. act (BeginSend 1 9) demo_state = Some s \<and> schedule (replicate 6 (ProdStep 1 False)) s = Some t \<and>
     prods t 1 = Busy 9 (EDone (Err (Full 9)))"
proof -
  obtain s where s: "act (BeginSend 1 9) demo_state = Some s" "in_budget s" "prods s 1 = Busy 9 (EStart 9)"
      "consumer_alive (shared s)" "length (enq_log s) = given_back s + 2"
    by (simp add: demo_state_def demo_run in_budget_def given_back_def)
  then show ?thesis
    using concurrent_nonblocking [OF demo_channel _ _ conc_reach.step [OF demo_reach s(1)] s(2), of 1 9] by simp
qed

text \<open>
  \<open>try_recv\<close> may report an empty queue although a send has already returned \<open>Ok\<close> and no message
  has been taken out: a sender stopped between its reservation and its publishing store hides
  everything behind it. The queue is FIFO but not linearizable, and a single empty answer does not
  prove that no accepted message is queued.
\<close>

theorem empty_answer_with_accepted_message:
  "\<exists>s. conc_reach demo_queue s \<and> returns s 1 = [(8, Ok ())] \<and> deq_log s = [] \<and> cons s = CBusy (DDone None)"
proof -
  let ?s = "demo_state\<lparr>cons := CBusy (DDone None)\<rparr>"
  have "schedule [BeginRecv, ConsStep False, ConsStep False] demo_state = Some ?s"
    by (simp add: demo_state_def demo_run log_deq_def Let_def slot_at_def index_def isize_wrapping_sub_def)
  from schedule_reach [OF demo_reach this] show ?thesis
    by (intro exI [of _ ?s]) simp
qed

text \<open>
  A send that found the receiver alive may return \<open>Ok\<close> after the receiver is gone; its message is
  then never received, whatever happens later. (\<open>Drop for Receiver\<close> only clears a flag: it neither
  waits for senders inside \<open>enqueue\<close> nor drains the queue.)
\<close>

theorem accepted_message_stranded:
  "\<exists>s. conc_reach demo_queue s \<and> returns s 0 = [(7, Ok ())] \<and>
     (\<forall>as. map_option deq_log (schedule as s) \<in> {None, Some []})"
proof -
  let ?as = "[BeginSend 0 7, ProdStep 0 False, DropRx] @ replicate 5 (ProdStep 0 False) @ [EndSend 0]"
  obtain s where s: "schedule ?as (conc_init demo_queue) = Some s" "returns s 0 = [(7, Ok ())]"
      "cons s = CGone" "deq_log s = []"
    by (simp add: demo_simps receiver_drop_def)
  have "map_option deq_log (schedule as s') \<in> {None, Some []}"
    if "cons s' = CGone" "deq_log s' = []" for as and s' :: "nat conc"
    using that
  proof (induction as arbitrary: s')
    case (Cons a as)
    then show ?case
    proof (cases "act a s'")
      case (Some t)
      then have "cons t = CGone \<and> deq_log t = []"
        using Cons.prems by (cases a) (auto simp: act_iff simp del: act.simps)
      then show ?thesis using Cons.IH [of t] Some by simp
    qed simp
  qed simp
  then show ?thesis
    using schedule_reach [OF conc_reach.start s(1)] s by blast
qed

end
