(* ===== verification/Mpsc_Atomic.thy ===== *)
theory Mpsc_Atomic
  imports Mpsc_Conc
begin

text \<open>
  The interleaved queue of theory \<open>Mpsc_Conc\<close> against the mailbox specification, as the receiver sees
  it. What it can see are the messages up to the first position that is reserved and not published.
  Senders only ever add to them, and a call of \<open>try_recv\<close>, although it makes several accesses with the
  senders' in between, acts on them at one of its steps, as the mailbox's \<open>try_recv\<close> does. This is
  what the scheduler's model of a mailbox takes for granted.
\<close>

subsection \<open>What the receiver can see\<close>

definition visible_from :: "'a conc \<Rightarrow> nat \<Rightarrow> nat list" where
  "visible_from s d = takeWhile (published (shared s) (enq_log s)) [d..<length (enq_log s)]"

definition visible :: "'a conc \<Rightarrow> 'a list" where
  "visible s = map (\<lambda>p. snd (enq_log s ! p)) (visible_from s (unat (dequeue_pos (shared s))))"

lemma takeWhile_upt_grows:
  assumes "m \<le> n" "\<And>p. d \<le> p \<Longrightarrow> p < m \<Longrightarrow> P p \<Longrightarrow> Q p"
  shows "\<exists>ps. takeWhile Q [d..<n] = takeWhile P [d..<m] @ ps"
proof -
  have *: "\<exists>ps. takeWhile Q (xs @ ys) = takeWhile P xs @ ps" if "\<forall>p\<in>set xs. P p \<longrightarrow> Q p" for xs ys
    using that by (induction xs) auto
  show ?thesis
  proof (cases "d \<le> m")
    case True
    then have "[d..<n] = [d..<m] @ [m..<n]" using assms(1) by (metis le_Suc_ex upt_add_eq_append)
    then show ?thesis using * [of "[d..<m]" "[m..<n]"] assms(2) by simp
  qed simp
qed

lemma reserved_not_published:
  assumes "conc_inv s" "in_budget s" "p < length (enq_log s)" "reserved (prods s) (enq_log s) p"
  shows "\<not> published (shared s) (enq_log s) p"
proof -
  have small: "p < 2 ^ 64" "Suc p < 2 ^ 64" using assms(2,3) by (simp_all add: in_budget_def)
  obtain i x where "prods s i = Busy x (EWrite x (of_nat p)) \<or> prods s i = Busy x (EPublish (of_nat p))"
    using assms(4) by (auto simp: reserved_def)
  then have "sq (shared s) p = of_nat p"
    using conc_inv_pc [OF assms(1)] small by (force simp: unat_of_small)
  then show ?thesis using of_nat_small_eq [OF small] by (simp add: published_def del: of_nat_Suc)
qed

text \<open>A slot held after a step was held before it, or has just been reserved.\<close>

lemma holder_back:
  assumes "conc_inv s" "act a s = Some t" "prods t i = Busy x pc" "pc = EWrite x w \<or> pc = EPublish w"
  shows "prods s i = Busy x (EWrite x w) \<or> prods s i = Busy x (EPublish w) \<or> w = enqueue_pos (shared s)"
proof (cases "a")
  case (ProdStep j f)
  then obtain y pc0 where j: "prods s j = Busy y pc0"
      "t = s\<lparr>shared := fst (enq_step f (shared s) pc0), prods := (prods s)(j := Busy y (snd (enq_step f (shared s) pc0))),
         enq_log := log_enq j pc0 (snd (enq_step f (shared s) pc0)) (enq_log s)\<rparr>"
    using assms(2) unfolding ProdStep act_iff by blast
  show ?thesis
  proof (cases "i = j")
    case True
    then have "snd (enq_step f (shared s) pc0) = pc" "y = x" using assms(3) j by auto
    then show ?thesis
      using assms(4) conc_inv_pc [OF assms(1) j(1)] True j(1) by (cases pc0) (auto simp: Let_def split: if_splits)
  qed (use assms(3,4) j in auto)
qed (use assms(2-4) in \<open>auto simp: act_iff simp del: act.simps split: if_splits\<close>)

text \<open>A published message stays so as long as it is in the queue.\<close>

lemma published_stays:
  assumes "conc_inv s" "act a s = Some t" "in_budget t" "unat (dequeue_pos (shared t)) \<le> p" "p < length (enq_log s)"
    and "published (shared s) (enq_log s) p"
  shows "published (shared t) (enq_log t) p"
proof (rule ccontr)
  assume np: "\<not> published (shared t) (enq_log t) p"
  have b: "in_budget s" using in_budget_back [OF assms(2,3)] .
  obtain l where l: "enq_log t = enq_log s @ l" using enq_log_grows [OF assms(2)] by blast
  have "reserved (prods t) (enq_log t) p"
    using conc_inv_slot [OF inv_act [OF assms(1-3)] assms(4)] np assms(5) l by simp
  then obtain i x where i: "enq_log s ! p = (i, x)"
      "prods t i = Busy x (EWrite x (of_nat p)) \<or> prods t i = Busy x (EPublish (of_nat p))"
    using assms(5) l by (auto simp: reserved_def nth_append)
  have "(of_nat p :: usize) \<noteq> enqueue_pos (shared s)"
    using assms(5) b window_bounds [OF conc_inv_window [OF assms(1)]] of_nat_small_eq [of p "length (enq_log s)"]
    by (auto simp: in_budget_def)
  note new = this
  have "reserved (prods s) (enq_log s) p"
    using i holder_back [OF assms(1,2)] new by (auto simp: reserved_def)
  then show False using reserved_not_published [OF assms(1) b assms(5)] assms(6) by blast
qed

lemma visible_grows:
  assumes "conc_inv s" "act a s = Some t" "in_budget t" "dequeue_pos (shared t) = dequeue_pos (shared s)"
  shows "\<exists>new. visible t = visible s @ new"
proof -
  let ?d = "unat (dequeue_pos (shared s))"
  obtain l where l: "enq_log t = enq_log s @ l" using enq_log_grows [OF assms(2)] by blast
  obtain ps where ps: "visible_from t ?d = visible_from s ?d @ ps"
    using takeWhile_upt_grows [of "length (enq_log s)" "length (enq_log t)" ?d
        "published (shared s) (enq_log s)" "published (shared t) (enq_log t)"]
      published_stays [OF assms(1-3)] assms(4) l
    by (auto simp: visible_from_def)
  have "p < length (enq_log s)" if "p \<in> set (visible_from s ?d)" for p
    using that by (auto simp: visible_from_def dest: set_takeWhileD)
  then have "map (\<lambda>p. snd (enq_log t ! p)) (visible_from s ?d) = visible s"
    by (auto simp: visible_def l nth_append)
  then show ?thesis using ps assms(4) by (auto simp: visible_def)
qed

subsection \<open>The receiver's steps\<close>

text \<open>Only a successful exchange of the receiver moves the dequeue position.\<close>

lemma dequeue_pos_moves:
  assumes "act a s = Some t"
  obtains "dequeue_pos (shared t) = dequeue_pos (shared s)"
  | f where "a = ConsStep f" "cons s = CBusy (DCas (dequeue_pos (shared s)))"
      "t = s\<lparr>shared := (shared s)\<lparr>dequeue_pos := dequeue_pos (shared s) + 1\<rparr>, cons := CBusy (DTake (dequeue_pos (shared s)))\<rparr>"
proof (cases "dequeue_pos (shared t) = dequeue_pos (shared s)")
  case False
  have "\<exists>f. a = ConsStep f"
  proof (cases a)
    case (ProdStep i f)
    then obtain x pc where "t = s\<lparr>shared := fst (enq_step f (shared s) pc), prods := (prods s)(i := Busy x (snd (enq_step f (shared s) pc))),
         enq_log := log_enq i pc (snd (enq_step f (shared s) pc)) (enq_log s)\<rparr>"
      using assms unfolding ProdStep act_iff by blast
    then show ?thesis using False by (cases pc) (auto simp: Let_def split: if_splits)
  qed (use False assms in \<open>auto simp: act_iff sender_clone_def sender_drop_def receiver_drop_def simp del: act.simps\<close>)
  then obtain f pc where f: "a = ConsStep f" "cons s = CBusy pc"
      "t = s\<lparr>shared := fst (deq_step f (shared s) pc), cons := CBusy (snd (deq_step f (shared s) pc)),
         deq_log := log_deq pc (snd (deq_step f (shared s) pc)) (deq_log s)\<rparr>"
    using assms by (auto simp: act_iff simp del: act.simps)
  show thesis
    by (rule that(2) [OF f(1)]; insert f(2,3) False; cases pc)
      (auto simp: Let_def log_deq_def split: if_splits option.splits)
qed (rule that)

lemma claim_step:
  assumes "conc_inv s" "in_budget s" "cons s = CBusy (DCas (dequeue_pos (shared s)))"
    and "t = s\<lparr>shared := (shared s)\<lparr>dequeue_pos := dequeue_pos (shared s) + 1\<rparr>, cons := CBusy (DTake (dequeue_pos (shared s)))\<rparr>"
  shows "visible s = snd (enq_log s ! unat (dequeue_pos (shared s))) # visible t"
proof -
  let ?d = "unat (dequeue_pos (shared s))"
  have R: "given_back s = ?d" using assms(3) by (simp add: given_back_def)
  have c: "?d < length (enq_log s)" "published (shared s) (enq_log s) ?d"
    using conc_inv_cons [OF assms(1)] assms(3) R by simp_all
  have "unat (dequeue_pos (shared s) + 1) = Suc ?d"
    using c(1) assms(2) by (auto simp: in_budget_def unat_word_ariths)
  moreover have "published ((shared s)\<lparr>dequeue_pos := n\<rparr>) l = published (shared s) l" for n l
    by (rule ext) (simp add: published_def)
  then have "visible_from t d = visible_from s d" for d
    by (simp add: visible_from_def assms(4))
  moreover have "visible_from s ?d = ?d # visible_from s (Suc ?d)"
    using c by (simp add: visible_from_def upt_conv_Cons)
  ultimately show ?thesis by (simp add: visible_def assms(4))
qed

lemma empty_step:
  assumes "conc_inv s" "cons s = CBusy (DLoadSeq w)" "act (ConsStep f) s = Some t" "cons t = CBusy (DDone None)"
  shows "visible s = []"
proof -
  have t: "\<not> taking (cons s)" and w: "w = dequeue_pos (shared s)"
    using assms(2) conc_inv_cons [OF assms(1)] by simp_all
  have R: "given_back s = unat (dequeue_pos (shared s))" using assms(2) by (simp add: given_back_def)
  have "\<not> published (shared s) (enq_log s) (unat (dequeue_pos (shared s)))"
    using head_mark [OF assms(1) t] assms(2-4) R w by (auto simp: Let_def isize_wrapping_sub_def split: if_splits)
  then show ?thesis
    by (cases "unat (dequeue_pos (shared s)) < length (enq_log s)") (simp_all add: visible_def visible_from_def upt_conv_Cons)
qed

subsection \<open>A call of \<open>try_recv\<close>\<close>

text \<open>The queue as the receiver meets it.\<close>

definition receiver_view :: "'a conc \<Rightarrow> 'a mailbox" where
  "receiver_view s = \<lparr>items = visible s, mb_cap = length (buffer (shared s)),
     senders = unat (producers (shared s)), receiver_alive = consumer_alive (shared s)\<rparr>"

text \<open>
  At one step of the call, the queue did what the specification's \<open>try_recv\<close> does; before it and after it
  messages were only added.
\<close>

definition took :: "'a action list \<Rightarrow> 'a conc \<Rightarrow> 'a conc \<Rightarrow> 'a option \<Rightarrow> bool" where
  "took as s t r \<longleftrightarrow> (\<exists>pre f post u v arrived later. as = pre @ ConsStep f # post \<and> schedule pre s = Some u \<and>
     act (ConsStep f) u = Some v \<and> schedule post v = Some t \<and> visible u = visible s @ arrived \<and>
     mb_try_recv (receiver_view u) = (r, receiver_view v) \<and> visible t = visible v @ later)"

fun recv_phase :: "'a action list \<Rightarrow> 'a conc \<Rightarrow> 'a conc \<Rightarrow> 'a consumer \<Rightarrow> bool" where
  "recv_phase as s t (CBusy (DTake w)) = took as s t (Some (snd (enq_log t ! unat w)))"
| "recv_phase as s t (CBusy (DRelease w y)) = took as s t (Some y)"
| "recv_phase as s t (CBusy (DDone r)) = took as s t r"
| "recv_phase as s t (CBusy DUninit) = False"
| "recv_phase as s t (CBusy _) = (\<exists>arrived. visible t = visible s @ arrived)"
| "recv_phase as s t _ = False"

lemma took_later:
  assumes "took as s t r" "act a t = Some t'" "visible t' = visible t @ new"
  shows "took (as @ [a]) s t' r"
proof -
  obtain pre f post u v arrived later where t: "as = pre @ ConsStep f # post" "schedule pre s = Some u" "act (ConsStep f) u = Some v"
      "schedule post v = Some t" "visible u = visible s @ arrived" "mb_try_recv (receiver_view u) = (r, receiver_view v)"
      "visible t = visible v @ later"
    using assms(1) unfolding took_def by blast
  have "schedule (post @ [a]) v = Some t'" "visible t' = visible v @ (later @ new)" "as @ [a] = pre @ ConsStep f # (post @ [a])"
    using t(1,4,7) assms(2,3) by (simp_all add: schedule_append)
  then show ?thesis unfolding took_def using t(2,3,5,6) by blast
qed

lemma took_now:
  assumes "schedule as s = Some t" "visible t = visible s @ arrived" "act (ConsStep f) t = Some t'"
    and "mb_try_recv (receiver_view t) = (r, receiver_view t')"
  shows "took (as @ [ConsStep f]) s t' r"
  unfolding took_def using assms
  by (intro exI [of _ as] exI [of _ f] exI [of _ "[]"] exI [of _ t] exI [of _ t'] exI [of _ arrived] exI [of _ "[]"]) simp

lemma take_pos:
  assumes "conc_inv s" "cons s = CBusy (DTake w)"
  shows "unat w = given_back s" "given_back s < length (enq_log s)"
proof -
  have c: "w = of_nat (given_back s)" "unat (dequeue_pos (shared s)) = Suc (given_back s)" "given_back s < length (enq_log s)"
    using conc_inv_cons [OF assms(1)] assms(2) by auto
  have "given_back s < 2 ^ 64" using c(2) unsigned_less [of "dequeue_pos (shared s)", where ?'a = nat] by simp
  then show "unat w = given_back s" "given_back s < length (enq_log s)" using c by (simp_all add: unat_of_small)
qed

text \<open>Steps of senders, and what else leaves the receiver where it is.\<close>

lemma phase_other:
  assumes "conc_inv t" "recv_phase as s t (cons t)" "act a t = Some t'" "visible t' = visible t @ new" "enq_log t' = enq_log t @ l"
  shows "recv_phase (as @ [a]) s t' (cons t)"
proof (cases "(as, s, t, cons t)" rule: recv_phase.cases)
  case (1 as' s' u w)
  then have c: "cons t = CBusy (DTake w)" by blast
  then show ?thesis using take_pos [OF assms(1) c] assms took_later [OF _ assms(3,4)] by (auto simp: nth_append)
qed (use assms took_later [OF _ assms(3,4)] in \<open>auto\<close>)

lemma phase_step:
  assumes "conc_inv t" "schedule as s = Some t" "act a t = Some t'" "in_budget t'" "a \<noteq> EndRecv" "recv_phase as s t (cons t)"
  shows "recv_phase (as @ [a]) s t' (cons t')"
proof (cases rule: dequeue_pos_moves [OF assms(3)])
  case 1
  obtain new where new: "visible t' = visible t @ new" using visible_grows [OF assms(1,3,4) 1] by blast
  obtain l where l: "enq_log t' = enq_log t @ l" using enq_log_grows [OF assms(3)] by blast
  note other = phase_other [OF assms(1,6,3) new l] and later = took_later [OF _ assms(3) new]
  show ?thesis
  proof (cases a)
    case (ConsStep f)
    then obtain pc where pc: "cons t = CBusy pc"
        "t' = t\<lparr>shared := fst (deq_step f (shared t) pc), cons := CBusy (snd (deq_step f (shared t) pc)),
           deq_log := log_deq pc (snd (deq_step f (shared t) pc)) (deq_log t)\<rparr>"
      using assms(3) by (auto simp: act_iff simp del: act.simps)
    show ?thesis
    proof (cases pc)
      case (DLoadSeq w)
      have same: "visible t' = visible t" "receiver_view t' = receiver_view t"
        using pc(2) DLoadSeq by (simp_all add: visible_def visible_from_def receiver_view_def Let_def)
      have "took (as @ [a]) s t' None" if "cons t' = CBusy (DDone None)"
      proof -
        obtain arrived where "visible t = visible s @ arrived" using assms(6) pc(1) DLoadSeq by auto
        moreover have "visible t = []" using empty_step [OF assms(1) pc(1) [unfolded DLoadSeq]] assms(3) that ConsStep by simp
        ultimately show ?thesis
          using took_now [OF assms(2), of arrived f t' None] assms(3) same ConsStep by (simp add: mb_try_recv_def receiver_view_def)
      qed
      then show ?thesis using other pc DLoadSeq by (auto simp: Let_def split: if_splits)
    next
      case (DTake w)
      then obtain x where "val (slot_at (shared t) w) = Some x" "x = snd (enq_log t ! given_back t)"
        using inv_take [OF assms(1)] pc(1) by blast
      then show ?thesis using DTake assms(6) pc later take_pos [OF assms(1), of w] by simp
    next
      case (DCas w)
      then have "snd (deq_step f (shared t) pc) = DLoadSeq (dequeue_pos (shared t))"
        using pc(2) 1 by (auto split: if_splits)
      then show ?thesis using other pc DCas by simp
    qed (use other later pc assms(6) in auto)
  qed (use assms(3,5,6) other in \<open>auto simp: act_iff simp del: act.simps\<close>)
next
  case (2 f)
  have b: "in_budget t" using in_budget_back [OF assms(3,4)] .
  have v: "visible t = snd (enq_log t ! unat (dequeue_pos (shared t))) # visible t'"
    by (rule claim_step [OF assms(1) b 2(2,3)])
  obtain arrived where "visible t = visible s @ arrived" using assms(6) 2(2) by auto
  moreover have "receiver_view t' = (receiver_view t)\<lparr>items := visible t'\<rparr>" using 2(3) by (simp add: receiver_view_def)
  then have "mb_try_recv (receiver_view t) = (Some (snd (enq_log t ! unat (dequeue_pos (shared t)))), receiver_view t')"
    using v by (simp add: mb_try_recv_def receiver_view_def)
  ultimately show ?thesis using took_now [OF assms(2), of arrived f t'] assms(3) 2 by simp
qed

lemma schedule_budget: "schedule as s = Some t \<Longrightarrow> in_budget t \<Longrightarrow> in_budget s"
  by (induction as arbitrary: s) (auto split: option.splits dest: in_budget_back)

lemma phase_run:
  assumes "conc_inv s" "cons s = CBusy DStart"
  shows "schedule as s = Some t \<Longrightarrow> in_budget t \<Longrightarrow> EndRecv \<notin> set as \<Longrightarrow> conc_inv t \<and> recv_phase as s t (cons t)"
proof (induction as arbitrary: t rule: rev_induct)
  case Nil
  then show ?case using assms by simp
next
  case (snoc a as)
  then obtain u where u: "schedule as s = Some u" "act a u = Some t" by (auto simp: schedule_append bind_eq_Some_conv split: option.splits)
  have "in_budget u" using in_budget_back [OF u(2) snoc.prems(2)] .
  then have ih: "conc_inv u" "recv_phase as s u (cons u)" using snoc.IH [OF u(1)] snoc.prems(3) by auto
  show ?case
    using phase_step [OF ih(1) u snoc.prems(2) _ ih(2)] inv_act [OF ih(1) u(2) snoc.prems(2)] snoc.prems(3) by auto
qed

text \<open>With no sender between reservation and publication, everything reserved and not taken is visible.\<close>

lemma visible_all:
  assumes "conc_inv s" "\<And>i x pc. prods s i = Busy x pc \<Longrightarrow> \<not> holding pc"
  shows "visible s = map snd (drop (unat (dequeue_pos (shared s))) (enq_log s))"
proof -
  let ?d = "unat (dequeue_pos (shared s))"
  have "published (shared s) (enq_log s) p" if "?d \<le> p" "p < length (enq_log s)" for p
    using conc_inv_slot [OF assms(1) that] assms(2) by (force simp: reserved_def)
  then have "visible_from s ?d = [?d..<length (enq_log s)]"
    by (simp add: visible_from_def takeWhile_eq_all_conv)
  then show ?thesis by (auto simp: visible_def intro!: nth_equalityI)
qed

text \<open>
  C4: \<open>try_recv\<close> is atomic. However its accesses interleave with those of any number of senders, a call
  behaves like \<open>try_recv\<close> of the mailbox specification at one of its own steps: in the state \<open>u\<close> right before that step the
  visible messages are those at the beginning and some that arrived since; the step takes the first of them, if
  there is one, exactly as the call reports in the end, and leaves the state \<open>v\<close>; and from then on messages
  are only added. Visible are the messages up to the first one whose sender has reserved its place
  and not yet published it; while no sender is at that point, these are all messages sent and not taken.
\<close>

theorem try_recv_atomic:
  assumes "channel slot_bytes capacity = Some q" "2 \<le> unat capacity" "8 \<le> slot_bytes"
    and "conc_reach q s" "schedule (BeginRecv # as) s = Some t" "EndRecv \<notin> set as" "cons t = CBusy (DDone r)" "in_budget t"
  shows "(\<exists>pre f post u v arrived later. as = pre @ ConsStep f # post \<and> schedule (BeginRecv # pre) s = Some u \<and>
      act (ConsStep f) u = Some v \<and> schedule post v = Some t \<and> visible u = visible s @ arrived \<and>
      mb_try_recv (receiver_view u) = (r, receiver_view v) \<and> visible t = visible v @ later) \<and>
    ((\<forall>i x pc. prods s i = Busy x pc \<longrightarrow> \<not> holding pc) \<longrightarrow>
      visible s = map snd (drop (length (deq_log s)) (enq_log s)))"
proof -
  obtain u where u: "act BeginRecv s = Some u" "schedule as u = Some t" using assms(5) by (auto split: option.splits)
  have bu: "in_budget u" using schedule_budget [OF u(2) assms(8)] .
  have inv: "conc_inv s" using conc_reach_inv [OF assms(4,1-3) in_budget_back [OF u(1) bu]] .
  have idle: "cons s = CIdle" "cons u = CBusy DStart" "visible u = visible s"
    using u(1) by (auto simp: visible_def visible_from_def split: if_splits)
  have "took as u t r"
    using phase_run [OF inv_act [OF inv u(1) bu] idle(2) u(2) assms(8,6)] assms(7) by simp
  moreover have "schedule (BeginRecv # pre) s = schedule pre u" for pre using u(1) by simp
  moreover have "length (deq_log s) = unat (dequeue_pos (shared s))"
    using log_deq_length [OF conc_reach_run_inv [OF assms(4,1-3) in_budget_back [OF u(1) bu]]] idle by (simp add: taken_def)
  ultimately show ?thesis using visible_all [OF inv] idle(3) unfolding took_def by auto
qed

text \<open>The receiver begins, a sender publishes between its accesses, and the call returns that message.\<close>

definition demo_recv :: "nat action list" where
  "demo_recv = [ConsStep False, ProdStep 0 False, ProdStep 0 False, ConsStep False, ConsStep False, ConsStep False, ConsStep False]"

lemma demo_recv_run:
  "\<exists>t. schedule (BeginRecv # demo_recv) demo_state = Some t \<and> cons t = CBusy (DDone (Some 7)) \<and> in_budget t"
  by (simp add: demo_state_def demo_run demo_recv_def in_budget_def log_enq_def log_deq_def Let_def slot_at_def index_def
      set_val_def set_seq_def isize_wrapping_sub_def)

theorem try_recv_atomic_witness:
  "\<exists>pre u v. schedule (BeginRecv # pre) demo_state = Some u \<and> visible demo_state = [] \<and>
     act (ConsStep False) u = Some v \<and> items (receiver_view u) = (7 :: nat) # items (receiver_view v)"
proof -
  obtain t where t: "schedule (BeginRecv # demo_recv) demo_state = Some t" "cons t = CBusy (DDone (Some 7))" "in_budget t"
    using demo_recv_run by blast
  have v: "visible demo_state = []"
    by (simp add: visible_def visible_from_def demo_state_def demo_run published_def sq_def vl_def slot_at_def index_def)
  have "EndRecv \<notin> set demo_recv" by (simp add: demo_recv_def)
  note call = try_recv_atomic [OF demo_channel _ _ demo_reach t(1) this t(2,3)]
  have "2 \<le> unat (2 :: usize)" "8 \<le> (16 :: nat)" by simp_all
  from call [OF this] obtain pre f post u v' where c: "demo_recv = pre @ ConsStep f # post" "schedule (BeginRecv # pre) demo_state = Some u"
      "act (ConsStep f) u = Some v'" "mb_try_recv (receiver_view u) = (Some 7, receiver_view v')"
    by blast
  have "f = False" using arg_cong [OF c(1), of set] by (auto simp: demo_recv_def)
  moreover have "items (receiver_view u) = 7 # items (receiver_view v')"
  proof -
    have "\<exists>l. items (receiver_view u) = 7 # l \<and> (receiver_view u)\<lparr>items := l\<rparr> = receiver_view v'"
      using c(4) by (auto simp: mb_try_recv_def split: list.splits)
    then obtain l where l: "items (receiver_view u) = 7 # l" "receiver_view v' = (receiver_view u)\<lparr>items := l\<rparr>" by metis
    show ?thesis by (simp add: l)
  qed
  ultimately show ?thesis using c(2,3) v by auto
qed

subsection \<open>A call of \<open>try_send\<close>\<close>

text \<open>The queue as a sender meets it: the slots in use, up to one that the receiver is just handing back.\<close>

definition sender_view :: "'a conc \<Rightarrow> 'a mailbox" where
  "sender_view s = \<lparr>items = map snd (drop (given_back s) (enq_log s)), mb_cap = length (buffer (shared s)),
     senders = unat (producers (shared s)), receiver_alive = consumer_alive (shared s)\<rparr>"

text \<open>Between calls it is what the receiver sees.\<close>

lemma views_agree:
  assumes "conc_inv s" "cons s = CIdle" "\<And>i x pc. prods s i = Busy x pc \<Longrightarrow> \<not> holding pc"
  shows "items (sender_view s) = visible s"
  using visible_all [OF assms(1,3)] assms(2) by (simp add: sender_view_def given_back_def)

text \<open>At one step of the call, the queue did what the specification's \<open>try_send\<close> does.\<close>

definition acted :: "nat \<Rightarrow> 'a \<Rightarrow> 'a action list \<Rightarrow> 'a conc \<Rightarrow> 'a conc \<Rightarrow> 'a send_result \<Rightarrow> bool" where
  "acted i x as s t r \<longleftrightarrow> (\<exists>pre f post u v. as = pre @ ProdStep i f # post \<and> schedule pre s = Some u \<and>
     act (ProdStep i f) u = Some v \<and> schedule post v = Some t \<and> mb_try_send (sender_view u) x = (r, sender_view v))"

lemma acted_later: "acted i x as s t r \<Longrightarrow> act a t = Some t' \<Longrightarrow> acted i x (as @ [a]) s t' r"
proof -
  assume "acted i x as s t r" "act a t = Some t'"
  then obtain pre f post u v where "as = pre @ ProdStep i f # post" "schedule pre s = Some u" "act (ProdStep i f) u = Some v"
      "schedule (post @ [a]) v = Some t'" "mb_try_send (sender_view u) x = (r, sender_view v)"
    unfolding acted_def by (auto simp: schedule_append)
  then show ?thesis unfolding acted_def by (intro exI [of _ pre] exI [of _ f] exI [of _ "post @ [a]"]) auto
qed

lemma acted_now:
  assumes "schedule as s = Some t" "act (ProdStep i f) t = Some t'" "mb_try_send (sender_view t) x = (r, sender_view t')"
  shows "acted i x (as @ [ProdStep i f]) s t' r"
  unfolding acted_def using assms by (intro exI [of _ as] exI [of _ f] exI [of _ "[]"]) auto

text \<open>Where a call is, and that what it will return has been decided.\<close>

fun send_phase :: "nat \<Rightarrow> 'a \<Rightarrow> 'a action list \<Rightarrow> 'a conc \<Rightarrow> 'a conc \<Rightarrow> 'a producer \<Rightarrow> bool" where
  "send_phase i x as s t (Busy y (EStart z)) = (y = x \<and> z = x)"
| "send_phase i x as s t (Busy y (EWrite _ _)) = (y = x \<and> acted i x as s t (Ok ()))"
| "send_phase i x as s t (Busy y (EPublish _)) = (y = x \<and> acted i x as s t (Ok ()))"
| "send_phase i x as s t (Busy y (EFull z)) = (y = x \<and> z = x \<and> acted i x as s t (Err (Full x)) \<and> consumer_alive (shared t))"
| "send_phase i x as s t (Busy y (EDone r)) = (y = x \<and> acted i x as s t r)"
| "send_phase i x as s t (Busy y pc) = (y = x \<and> consumer_alive (shared t))"
| "send_phase i x as s t _ = False"

lemma full_read:
  assumes "conc_inv s" "in_budget s" "prods s i = Busy x (ELoadSeq y w)" "isize_wrapping_sub (seq (slot_at (shared s) w)) w < 0"
  shows "length (enq_log s) = given_back s + length (buffer (shared s))"
proof (rule ccontr)
  assume n: "length (enq_log s) \<noteq> given_back s + length (buffer (shared s))"
  have "unat w \<le> length (enq_log s)" using conc_inv_pc [OF assms(1,3)] by simp
  from stale_mark [OF assms(1,2) this] n obtain d where "seq (slot_at (shared s) w) = w + of_nat d" "d < 2 ^ 63" by metis
  then show False using assms(4) by (simp add: isize_wrapping_sub_of_nat)
qed

lemma alive_stays: "act a s = Some t \<Longrightarrow> a \<noteq> DropRx \<Longrightarrow> consumer_alive (shared t) = consumer_alive (shared s)"
  by (cases a) (auto simp: act_iff sender_clone_def sender_drop_def simp del: act.simps)

lemma reserve_view:
  assumes "conc_inv s" "in_budget s" "prods s i = Busy x (ECas x w)" "enqueue_pos (shared s) = w" "consumer_alive (shared s)"
    and "t = s\<lparr>shared := (shared s)\<lparr>enqueue_pos := w + 1\<rparr>, prods := (prods s)(i := p), enq_log := enq_log s @ [(i, x)]\<rparr>"
  shows "mb_try_send (sender_view s) x = (Ok (), sender_view t)"
proof -
  note W = window_bounds [OF conc_inv_window [OF assms(1)]]
  have "unat w = length (enq_log s)" using W(6) assms(2,4) by (simp add: unat_of_small in_budget_def)
  then have "length (enq_log s) < given_back s + length (buffer (shared s))" using conc_inv_pc [OF assms(1,3)] by simp
  moreover have "given_back s \<le> length (enq_log s)" using conc_inv_window [OF assms(1)] by (simp add: window_ok_def)
  moreover have "given_back t = given_back s" using assms(6) by (simp add: given_back_def)
  ultimately show ?thesis using assms(5,6) by (simp add: mb_try_send_def sender_view_def)
qed

lemma send_phase_step:
  assumes "conc_inv t" "in_budget t" "schedule as s = Some t" "act a t = Some t'" "a \<noteq> DropRx" "a \<noteq> EndSend i"
    and "send_phase i x as s t (prods t i)"
  shows "send_phase i x (as @ [a]) s t' (prods t' i)"
proof (cases "\<exists>f. a = ProdStep i f")
  case False
  then have same: "prods t' i = prods t i"
    using assms(4-7) by (cases a) (auto simp: act_iff simp del: act.simps)
  show ?thesis
    unfolding same using assms(7) acted_later [OF _ assms(4)] alive_stays [OF assms(4,5)]
    by (cases "(i, x, as, s, t, prods t i)" rule: send_phase.cases) auto
next
  case True
  then obtain f where a: "a = ProdStep i f" by blast
  obtain y pc where b: "prods t i = Busy y pc"
      "t' = t\<lparr>shared := fst (enq_step f (shared t) pc), prods := (prods t)(i := Busy y (snd (enq_step f (shared t) pc))),
         enq_log := log_enq i pc (snd (enq_step f (shared t) pc)) (enq_log t)\<rparr>"
    using assms(4) unfolding a act_iff by blast
  have x: "y = x" using assms(7) b(1) by (cases pc) auto
  note now = acted_now [OF assms(3) assms(4) [unfolded a]] and later = acted_later [OF _ assms(4), unfolded a]
  have gb: "given_back t' = given_back t" using b(2) by (cases pc) (auto simp: given_back_def Let_def)
  show ?thesis
  proof (cases pc)
    case (EStart z)
    then show ?thesis
      using assms(7) b x now [of x "Err (Closed x)"] gb
      by (auto simp: a mb_try_send_def sender_view_def log_enq_def)
  next
    case (ELoadSeq z w)
    have z: "z = x" using conc_inv_pc [OF assms(1) b(1)] x ELoadSeq by simp
    have "mb_try_send (sender_view t) x = (Err (Full x), sender_view t')" if "isize_wrapping_sub (seq (slot_at (shared t) w)) w < 0"
      using full_read [OF assms(1,2) b(1) [unfolded ELoadSeq] that] assms(7) b ELoadSeq gb
      by (auto simp: mb_try_send_def sender_view_def log_enq_def Let_def)
    then show ?thesis
      using assms(7) b x z ELoadSeq now [of x "Err (Full x)"] by (auto simp: a Let_def split: if_splits)
  next
    case (ECas z w)
    have z: "z = x" using conc_inv_pc [OF assms(1) b(1)] x ECas by simp
    have "mb_try_send (sender_view t) x = (Ok (), sender_view t')" if "enqueue_pos (shared t) = w \<and> \<not> f"
      by (rule reserve_view [OF assms(1,2), where i = i and w = w and p = "Busy x (EWrite x w)"])
        (use assms(7) b ECas z x that in \<open>auto simp: log_enq_def\<close>)
    then show ?thesis
      using assms(7) b x z ECas now [of x "Ok ()"] by (auto simp: a)
  qed (use assms(7) b x later in \<open>auto simp: a\<close>)
qed

lemma send_phase_run:
  assumes "conc_inv s" "prods s i = Busy x (EStart x)"
  shows "schedule as s = Some t \<Longrightarrow> in_budget t \<Longrightarrow> EndSend i \<notin> set as \<Longrightarrow> DropRx \<notin> set as \<Longrightarrow>
    conc_inv t \<and> send_phase i x as s t (prods t i)"
proof (induction as arbitrary: t rule: rev_induct)
  case Nil
  then show ?case using assms by simp
next
  case (snoc a as)
  then obtain u where u: "schedule as s = Some u" "act a u = Some t" by (auto simp: schedule_append bind_eq_Some_conv split: option.splits)
  have b: "in_budget u" using in_budget_back [OF u(2) snoc.prems(2)] .
  then have ih: "conc_inv u" "send_phase i x as s u (prods u i)" using snoc.IH [OF u(1)] snoc.prems(3,4) by auto
  show ?case
    using send_phase_step [OF ih(1) b u _ _ ih(2)] inv_act [OF ih(1) u(2) snoc.prems(2)] snoc.prems(3,4) by auto
qed

text \<open>
  C5: \<open>try_send\<close> is atomic. However its accesses interleave with those of other senders and the receiver, as long as
  the receiver is not dropped meanwhile a call behaves like \<open>try_send\<close> of the mailbox specification at one of
  its own steps: there the message is appended, or the mailbox is full, or its receiver is gone, exactly as the call
  reports in the end; its other steps leave no trace in that mailbox. In use, to a sender, are the messages
  whose slot the receiver has not handed back yet.
\<close>

theorem try_send_atomic:
  assumes "channel slot_bytes capacity = Some q" "2 \<le> unat capacity" "8 \<le> slot_bytes"
    and "conc_reach q s" "schedule (BeginSend i x # as) s = Some t" "EndSend i \<notin> set as" "DropRx \<notin> set as"
    and "prods t i = Busy x (EDone r)" "in_budget t"
  shows "\<exists>pre f post u v. as = pre @ ProdStep i f # post \<and> schedule (BeginSend i x # pre) s = Some u \<and>
    act (ProdStep i f) u = Some v \<and> schedule post v = Some t \<and> mb_try_send (sender_view u) x = (r, sender_view v)"
proof -
  obtain s1 where s1: "act (BeginSend i x) s = Some s1" "schedule as s1 = Some t" using assms(5) by (auto split: option.splits)
  have b: "in_budget s1" using schedule_budget [OF s1(2) assms(9)] .
  have "conc_inv s" using conc_reach_inv [OF assms(4,1-3) in_budget_back [OF s1(1) b]] .
  from inv_act [OF this s1(1) b] have "conc_inv s1" .
  moreover have "prods s1 i = Busy x (EStart x)" using s1(1) by (auto simp: act_iff simp del: act.simps)
  ultimately have "acted i x as s1 t r"
    using send_phase_run [OF _ _ s1(2) assms(9,6,7)] assms(8) by auto
  then show ?thesis using s1(1) by (simp add: acted_def)
qed

text \<open>Both slots of a queue of two are in use, and sender 1 finds it full.\<close>

lemma demo_send_run:
  "\<exists>t. schedule (BeginSend 1 9 # [ProdStep 1 False, ProdStep 1 False, ProdStep 1 False, ProdStep 1 False]) demo_state = Some t \<and> prods t 1 = Busy 9 (EDone (Err (Full 9))) \<and> in_budget t"
  by (simp add: demo_state_def demo_run in_budget_def log_enq_def Let_def slot_at_def index_def isize_wrapping_sub_def)

theorem try_send_atomic_witness:
  "\<exists>pre u v. schedule (BeginSend 1 9 # pre) demo_state = Some u \<and> mb_try_send (sender_view u) 9 = (Err (Full (9 :: nat)), sender_view v)"
proof -
  obtain t where t: "schedule (BeginSend 1 9 # [ProdStep 1 False, ProdStep 1 False, ProdStep 1 False, ProdStep 1 False]) demo_state = Some t"
      "prods t 1 = Busy 9 (EDone (Err (Full 9)))" "in_budget t"
    using demo_send_run by blast
  have "EndSend 1 \<notin> set ([ProdStep 1 False, ProdStep 1 False, ProdStep 1 False, ProdStep 1 False])" "DropRx \<notin> set ([ProdStep 1 False, ProdStep 1 False, ProdStep 1 False, ProdStep 1 False])" by auto
  note call = try_send_atomic [OF demo_channel _ _ demo_reach t(1) this t(2,3)]
  have "2 \<le> unat (2 :: usize)" "8 \<le> (16 :: nat)" by simp_all
  from call [OF this] show ?thesis by blast
qed

end
