(* ===== verification/Codec.thy ===== *)
theory Codec
  imports Prelude
begin

text \<open>
  The connection surface of \<open>core/src/net.rs\<close> without sockets: the outbound handle \<open>Io\<close>, the two
  codecs and the \<open>Framed\<close> adapter that cuts a byte stream into frames. The user's handler is a
  parameter: \<open>on_frame\<close> maps its state, a frame and the handle to the state and the handle after.
\<close>

type_synonym bytes = "u8 list"

subsection \<open>Io\<close>

record io =
  out :: bytes
  close_flag :: bool

definition io_default :: io where
  "io_default = \<lparr>out = [], close_flag = False\<rparr>"

definition io_write :: "bytes \<Rightarrow> io \<Rightarrow> io" where
  "io_write bs io = io\<lparr>out := out io @ bs\<rparr>"

definition io_close :: "io \<Rightarrow> io" where
  "io_close io = io\<lparr>close_flag := True\<rparr>"

definition io_pending :: "io \<Rightarrow> nat" where
  "io_pending io = length (out io)"

subsection \<open>Codecs\<close>

text \<open>
  \<open>decode\<close> answers the frame, the codec's state and what is left in the buffer. The two codecs of the
  crate are unit structs.
\<close>

type_synonym 'k decoder = "'k \<Rightarrow> bytes \<Rightarrow> bytes option \<times> 'k \<times> bytes"

definition from_be_bytes :: "u8 \<Rightarrow> u8 \<Rightarrow> u8 \<Rightarrow> u8 \<Rightarrow> u32" where
  "from_be_bytes a b c d = of_nat (((unat a * 256 + unat b) * 256 + unat c) * 256 + unat d)"

definition length_prefixed_decode :: "unit decoder" where
  "length_prefixed_decode k buf =
     (if length buf < 4 then (None, k, buf)
      else
        let n = unat (from_be_bytes (buf ! 0) (buf ! 1) (buf ! 2) (buf ! 3))
        in if length buf < 4 + n then (None, k, buf)
           else (Some (take n (drop 4 buf)), k, drop (4 + n) buf))"

fun position :: "('a \<Rightarrow> bool) \<Rightarrow> 'a list \<Rightarrow> nat option" where
  "position P [] = None"
| "position P (x # xs) = (if P x then Some 0 else map_option Suc (position P xs))"

definition lines_decode :: "unit decoder" where
  "lines_decode k buf =
     (case position (\<lambda>b. b = 10) buf of
        None \<Rightarrow> (None, k, buf)
      | Some pos \<Rightarrow>
          let line = take pos buf;
              line = (if line \<noteq> [] \<and> last line = 13 then butlast line else line)
          in (Some line, k, drop (Suc pos) buf))"

subsection \<open>Framed\<close>

record ('k, 's) framed =
  inner :: 's
  codec :: 'k
  fbuf :: bytes

definition framed_new :: "'k \<Rightarrow> 's \<Rightarrow> ('k, 's) framed" where
  "framed_new default_codec s = \<lparr>inner = s, codec = default_codec, fbuf = []\<rparr>"

definition framed_on_open :: "('s \<Rightarrow> io \<Rightarrow> 's \<times> io) \<Rightarrow> ('k, 's) framed \<Rightarrow> io \<Rightarrow> ('k, 's) framed \<times> io" where
  "framed_on_open on_open st io = (case on_open (inner st) io of (s, io') \<Rightarrow> (st\<lparr>inner := s\<rparr>, io'))"

text \<open>The \<open>while let\<close>; \<open>None\<close> is a loop that never ends, which a codec of the user's may cause.\<close>

partial_function (option) framed_loop ::
  "'k decoder \<Rightarrow> ('s \<Rightarrow> bytes \<Rightarrow> io \<Rightarrow> 's \<times> io) \<Rightarrow> ('k, 's) framed \<Rightarrow> io \<Rightarrow> (('k, 's) framed \<times> io) option" where
  "framed_loop decode on_frame st io =
     (case decode (codec st) (fbuf st) of
        (None, k, b) \<Rightarrow> Some (st\<lparr>codec := k, fbuf := b\<rparr>, io)
      | (Some frame, k, b) \<Rightarrow>
          (case on_frame (inner st) frame io of
             (s, io') \<Rightarrow> framed_loop decode on_frame (st\<lparr>inner := s, codec := k, fbuf := b\<rparr>) io'))"

definition framed_on_data ::
  "'k decoder \<Rightarrow> ('s \<Rightarrow> bytes \<Rightarrow> io \<Rightarrow> 's \<times> io) \<Rightarrow> bytes \<Rightarrow> ('k, 's) framed \<Rightarrow> io \<Rightarrow> (('k, 's) framed \<times> io) option" where
  "framed_on_data decode on_frame chunk st io =
     framed_loop decode on_frame (st\<lparr>fbuf := fbuf st @ chunk\<rparr>) io"

definition framed_on_close :: "('s \<Rightarrow> 's) \<Rightarrow> ('k, 's) framed \<Rightarrow> ('k, 's) framed" where
  "framed_on_close on_close st = st\<lparr>inner := on_close (inner st)\<rparr>"

text \<open>The calls of \<open>on_data\<close> for the chunks in which a stream happens to arrive.\<close>

fun feed ::
  "'k decoder \<Rightarrow> ('s \<Rightarrow> bytes \<Rightarrow> io \<Rightarrow> 's \<times> io) \<Rightarrow> bytes list \<Rightarrow> ('k, 's) framed \<Rightarrow> io \<Rightarrow> (('k, 's) framed \<times> io) option" where
  "feed decode on_frame [] st io = Some (st, io)"
| "feed decode on_frame (c # cs) st io =
     (case framed_on_data decode on_frame c st io of
        None \<Rightarrow> None
      | Some (st', io') \<Rightarrow> feed decode on_frame cs st' io')"

fun on_frames :: "('s \<Rightarrow> bytes \<Rightarrow> io \<Rightarrow> 's \<times> io) \<Rightarrow> bytes list \<Rightarrow> 's \<Rightarrow> io \<Rightarrow> 's \<times> io" where
  "on_frames on_frame [] s io = (s, io)"
| "on_frames on_frame (f # fs) s io = (case on_frame s f io of (s', io') \<Rightarrow> on_frames on_frame fs s' io')"

subsection \<open>The contract of a codec\<close>

text \<open>
  What \<open>Framed\<close> relies on: a frame uses bytes up, bytes behind a complete frame do not change it, and
  without a complete frame nothing is touched.
\<close>

locale codec_laws =
  fixes decode :: "'k decoder"
  assumes progress: "decode k b = (Some f, k', b') \<Longrightarrow> length b' < length b"
    and stable: "decode k b = (Some f, k', b') \<Longrightarrow> decode k (b @ c) = (Some f, k', b' @ c)"
    and waits: "decode k b = (None, k', b') \<Longrightarrow> k' = k \<and> b' = b"
begin

lemma loop_append:
  "framed_loop decode on_frame (st\<lparr>fbuf := fbuf st @ c\<rparr>) io =
     Option.bind (framed_loop decode on_frame st io)
       (\<lambda>(st', io'). framed_loop decode on_frame (st'\<lparr>fbuf := fbuf st' @ c\<rparr>) io')"
proof (induction "length (fbuf st)" arbitrary: st io rule: less_induct)
  case less
  obtain r k b where d: "decode (codec st) (fbuf st) = (r, k, b)"
    by (metis prod_cases3)
  show ?case
  proof (cases r)
    case None
    then have "st\<lparr>codec := k, fbuf := b\<rparr> = st"
      using waits d by fastforce
    then show ?thesis
      using d None by (simp add: framed_loop.simps [of decode on_frame st io])
  next
    case (Some f)
    obtain s io' where h: "on_frame (inner st) f io = (s, io')"
      by fastforce
    have "length b < length (fbuf st)"
      using progress d Some by simp
    from less [of "st\<lparr>inner := s, codec := k, fbuf := b\<rparr>" io'] this h d stable [of "codec st" "fbuf st" f k b c] Some
    show ?thesis
      by (simp add: framed_loop.simps [of decode on_frame st io]
          framed_loop.simps [of decode on_frame "st\<lparr>fbuf := fbuf st @ c\<rparr>" io])
  qed
qed

lemma loop_ends: "\<exists>st' io'. framed_loop decode on_frame st io = Some (st', io')"
proof (induction "length (fbuf st)" arbitrary: st io rule: less_induct)
  case less
  obtain r k b where d: "decode (codec st) (fbuf st) = (r, k, b)"
    by (metis prod_cases3)
  show ?case
  proof (cases r)
    case (Some f)
    then have "length b < length (fbuf st)"
      using progress d by simp
    with less [of "st\<lparr>inner := fst (on_frame (inner st) f io), codec := k, fbuf := b\<rparr>"
        "snd (on_frame (inner st) f io)"] d Some
    show ?thesis
      by (auto simp: framed_loop.simps [of decode on_frame st io] split: prod.split)
  qed (simp add: framed_loop.simps d)
qed

text \<open>How the stream is cut into chunks does not matter.\<close>

lemma chunking: "feed decode on_frame (c # cs) st io = framed_on_data decode on_frame (concat (c # cs)) st io"
proof (induction cs arbitrary: c st io)
  case Nil
  then show ?case by (auto split: option.split)
next
  case (Cons d cs)
  have "framed_on_data decode on_frame (c @ d @ concat cs) st io =
      Option.bind (framed_on_data decode on_frame c st io)
        (\<lambda>(st', io'). framed_on_data decode on_frame (d @ concat cs) st' io')"
    using loop_append [of on_frame "st\<lparr>fbuf := fbuf st @ c\<rparr>" "d @ concat cs" io]
    by (simp add: framed_on_data_def)
  also have "\<dots> = feed decode on_frame (c # d # cs) st io"
    using Cons.IH [of d] by (simp del: feed.simps(2) add: feed.simps(2) [of _ _ c] split: option.split)
  finally show ?case by simp
qed

end

text \<open>A sender's side that the codec undoes.\<close>

locale codec_roundtrip = codec_laws decode
  for decode :: "'k decoder" +
  fixes encode :: "bytes \<Rightarrow> bytes" and sendable :: "bytes \<Rightarrow> bool" and k :: 'k
  assumes decode_encode: "sendable f \<Longrightarrow> decode k (encode f @ c) = (Some f, k, c)"
    and decode_nil: "decode k [] = (None, k, [])"
begin

lemma loop_encoded:
  assumes "\<forall>f\<in>set fs. sendable f" "on_frames on_frame fs s io = (s', io')"
  shows "framed_loop decode on_frame \<lparr>inner = s, codec = k, fbuf = concat (map encode fs)\<rparr> io =
    Some (\<lparr>inner = s', codec = k, fbuf = []\<rparr>, io')"
  using assms
proof (induction fs arbitrary: s io)
  case Nil
  then show ?case by (simp add: framed_loop.simps decode_nil)
next
  case (Cons f fs)
  then show ?case
    by (subst framed_loop.simps) (simp add: decode_encode split: prod.splits)
qed

lemma roundtrip:
  assumes "\<forall>f\<in>set fs. sendable f" "on_frames on_frame fs s io = (s', io')"
    and "concat chunks = concat (map encode fs)"
  shows "feed decode on_frame chunks (framed_new k s) io = Some (framed_new k s', io')"
proof (cases chunks)
  case Nil
  have "fs = []"
  proof (rule ccontr)
    assume "fs \<noteq> []"
    then obtain f fs' where fs: "fs = f # fs'" by (cases fs) auto
    then have "encode f = []" using assms(3) Nil by simp
    then show False using decode_encode [of f "[]"] decode_nil assms(1) fs by simp
  qed
  then show ?thesis using Nil assms(2) by simp
next
  case (Cons c cs)
  have "feed decode on_frame chunks (framed_new k s) io =
      framed_on_data decode on_frame (concat (map encode fs)) (framed_new k s) io"
    using chunking assms(3) Cons by metis
  then show ?thesis
    using loop_encoded [OF assms(1,2)] by (simp add: framed_on_data_def framed_new_def)
qed

end

subsection \<open>LengthPrefixed keeps the contract\<close>

lemma u8_bound: "unat (a :: u8) < 256"
  by (rule order_less_le_trans [OF unsigned_less]) simp

lemma unat_of_nat_u32: "n < 2 ^ 32 \<Longrightarrow> unat (of_nat n :: u32) = n"
  by (simp add: unat_of_nat)

lemma unat_from_be_bytes:
  "unat (from_be_bytes a b c d) = ((unat a * 256 + unat b) * 256 + unat c) * 256 + unat d"
  unfolding from_be_bytes_def
  using u8_bound [of a] u8_bound [of b] u8_bound [of c] u8_bound [of d] by (intro unat_of_nat_u32) simp

definition to_be_bytes :: "nat \<Rightarrow> bytes" where
  "to_be_bytes n = [of_nat (n div 2 ^ 24), of_nat (n div 2 ^ 16), of_nat (n div 2 ^ 8), of_nat n]"

lemma from_to_be_bytes:
  assumes "n < 2 ^ 32"
  shows "unat (from_be_bytes (of_nat (n div 2 ^ 24)) (of_nat (n div 2 ^ 16)) (of_nat (n div 2 ^ 8)) (of_nat n)) = n"
proof -
  have top: "n div 2 ^ 24 < 256"
    using assms by (simp add: div_less_iff_less_mult)
  have shift: "n div 2 ^ 16 div 256 = n div 2 ^ 24" "n div 2 ^ 8 div 256 = n div 2 ^ 16" "n div 256 = n div 2 ^ 8"
    by (simp_all flip: div_mult2_eq)
  have u8: "unat (of_nat m :: u8) = m mod 256" for m
    by (simp add: unat_of_nat)
  have "n div 2 ^ 24 mod 256 * 256 + n div 2 ^ 16 mod 256 = n div 2 ^ 16"
    using div_mult_mod_eq [of "n div 2 ^ 16" 256] unfolding shift mod_less [OF top] .
  moreover have "n div 2 ^ 16 * 256 + n div 2 ^ 8 mod 256 = n div 2 ^ 8"
    using div_mult_mod_eq [of "n div 2 ^ 8" 256] unfolding shift .
  moreover have "n div 2 ^ 8 * 256 + n mod 256 = n"
    using div_mult_mod_eq [of n 256] unfolding shift .
  ultimately show ?thesis
    unfolding unat_from_be_bytes u8 by (simp only:)
qed

definition length_prefixed_encode :: "bytes \<Rightarrow> bytes" where
  "length_prefixed_encode f = to_be_bytes (length f) @ f"

lemma length_prefixed_encode_nth:
  "(length_prefixed_encode f @ c) ! 0 = of_nat (length f div 2 ^ 24)"
  "(length_prefixed_encode f @ c) ! 1 = of_nat (length f div 2 ^ 16)"
  "(length_prefixed_encode f @ c) ! 2 = of_nat (length f div 2 ^ 8)"
  "(length_prefixed_encode f @ c) ! 3 = of_nat (length f)"
  "length (length_prefixed_encode f @ c) = 4 + length f + length c"
  "drop 4 (length_prefixed_encode f @ c) = f @ c"
  by (simp_all add: length_prefixed_encode_def to_be_bytes_def)

interpretation length_prefixed: codec_roundtrip length_prefixed_decode length_prefixed_encode
  "\<lambda>f. length f < 2 ^ 32" "()"
proof
  fix k k' :: unit and b b' f c :: bytes
  assume d: "length_prefixed_decode k b = (Some f, k', b')"
  then show "length b' < length b"
    by (auto simp: length_prefixed_decode_def Let_def split: if_splits)
  from d show "length_prefixed_decode k (b @ c) = (Some f, k', b' @ c)"
    by (auto simp: length_prefixed_decode_def Let_def nth_append split: if_splits)
next
  fix k k' :: unit and b b' :: bytes
  assume "length_prefixed_decode k b = (None, k', b')"
  then show "k' = k \<and> b' = b"
    by (auto simp: length_prefixed_decode_def Let_def split: if_splits)
next
  fix f c :: bytes
  assume f: "length f < 2 ^ 32"
  have "drop (4 + length f) (length_prefixed_encode f @ c) = c"
    unfolding add.commute [of 4] drop_drop [symmetric] length_prefixed_encode_nth(6) by simp
  then show "length_prefixed_decode () (length_prefixed_encode f @ c) = (Some f, (), c)"
    unfolding length_prefixed_decode_def length_prefixed_encode_nth from_to_be_bytes [OF f] Let_def by simp
qed (simp add: length_prefixed_decode_def)

subsection \<open>Lines keeps the contract\<close>

lemma position_append: "position P xs = Some n \<Longrightarrow> position P (xs @ ys) = Some n \<and> n < length xs"
  by (induction xs arbitrary: n) (auto split: if_splits)

lemma position_skip: "(\<forall>x\<in>set xs. \<not> P x) \<Longrightarrow> P y \<Longrightarrow> position P (xs @ y # ys) = Some (length xs)"
  by (induction xs) auto

definition lf_encode :: "bytes \<Rightarrow> bytes" where
  "lf_encode f = f @ [10]"

definition crlf_encode :: "bytes \<Rightarrow> bytes" where
  "crlf_encode f = f @ [13, 10]"

interpretation lines: codec_laws lines_decode
proof
  fix k k' :: unit and b b' f c :: bytes
  assume d: "lines_decode k b = (Some f, k', b')"
  then show "length b' < length b"
    by (auto simp: lines_decode_def Let_def split: option.splits dest: position_append)
  from d obtain n where n: "position (\<lambda>x. x = 10) b = Some n"
    by (auto simp: lines_decode_def split: option.splits)
  then show "lines_decode k (b @ c) = (Some f, k', b' @ c)"
    using d position_append [OF n, of c] by (simp add: lines_decode_def Let_def Suc_le_eq [symmetric])
next
  fix k k' :: unit and b b' :: bytes
  assume "lines_decode k b = (None, k', b')"
  then show "k' = k \<and> b' = b"
    by (auto simp: lines_decode_def Let_def split: option.splits)
qed

interpretation lf: codec_roundtrip lines_decode lf_encode "\<lambda>f. 10 \<notin> set f \<and> (f = [] \<or> last f \<noteq> 13)" "()"
proof
  fix f c :: bytes
  assume f: "10 \<notin> set f \<and> (f = [] \<or> last f \<noteq> 13)"
  then have "position (\<lambda>b. b = 10) (f @ 10 # c) = Some (length f)"
    by (intro position_skip) auto
  then show "lines_decode () (lf_encode f @ c) = (Some f, (), c)"
    using f by (auto simp: lines_decode_def lf_encode_def)
qed (simp add: lines_decode_def)

interpretation crlf: codec_roundtrip lines_decode crlf_encode "\<lambda>f. 10 \<notin> set f" "()"
proof
  fix f c :: bytes
  assume f: "10 \<notin> set f"
  have "position (\<lambda>b. b = 10) ((f @ [13]) @ 10 # c) = Some (length (f @ [13]))"
    by (intro position_skip) (use f in auto)
  then show "lines_decode () (crlf_encode f @ c) = (Some f, (), c)"
    by (simp add: lines_decode_def crlf_encode_def)
qed (simp add: lines_decode_def)

subsection \<open>Properties\<close>

text \<open>
  C32: with the crate's codecs \<open>Framed::on_data\<close> always returns, and how TCP cuts the stream into
  chunks makes no difference: handler, outbound data and carry-over buffer end up as if all bytes had
  arrived at once. This holds for every handler and from every state of the adapter.
\<close>

theorem framing_chunk_invariant:
  "feed length_prefixed_decode on_frame (c # cs) st io \<noteq> None \<and>
   feed length_prefixed_decode on_frame (c # cs) st io =
     framed_on_data length_prefixed_decode on_frame (concat (c # cs)) st io \<and>
   feed lines_decode on_frame (c # cs) st io \<noteq> None \<and>
   feed lines_decode on_frame (c # cs) st io = framed_on_data lines_decode on_frame (concat (c # cs)) st io"
  using length_prefixed.loop_ends lines.loop_ends
  by (auto simp del: feed.simps concat.simps simp: length_prefixed.chunking lines.chunking framed_on_data_def)

text \<open>
  C33: length-prefixed framing is lossless: frames of less than 4 GiB, each sent as its big-endian
  32-bit length and its bytes, reach the handler one by one, whole and in order, however the stream is
  cut, and nothing is left over.
\<close>

theorem length_prefixed_roundtrip:
  assumes "\<forall>f\<in>set fs. length f < 2 ^ 32" "concat chunks = concat (map length_prefixed_encode fs)"
  shows "feed length_prefixed_decode on_frame chunks (framed_new () s) io =
    (case on_frames on_frame fs s io of (s', io') \<Rightarrow> Some (framed_new () s', io'))"
  using length_prefixed.roundtrip [OF assms(1) _ assms(2)] by (auto split: prod.split)

lemma length_prefixed_roundtrip_witness:
  "feed length_prefixed_decode (\<lambda>s f io. (s @ [f], io_write f io)) [[0, 0], [0, 2, 65], [66, 0, 0, 0], [0]]
     (framed_new () []) io_default =
   Some (framed_new () [[65, 66], []], \<lparr>out = [65, 66], close_flag = False\<rparr>)"
  using length_prefixed_roundtrip [of "[[65, 66], []]" "[[0, 0], [0, 2, 65], [66, 0, 0, 0], [0]]"
      "\<lambda>s f io. (s @ [f], io_write f io)" "[]" io_default]
  by (simp add: length_prefixed_encode_def to_be_bytes_def io_write_def io_default_def)

text \<open>
  Line framing is lossless in both conventions: a line without newline that is sent with CR LF
  comes out unchanged whatever it ends in, and one sent with a bare LF comes out unchanged unless it
  ends in a carriage return, which the codec strips.
\<close>

theorem lines_roundtrip:
  assumes "\<forall>f\<in>set fs. 10 \<notin> set f"
    and "concat chunks = concat (map crlf_encode fs) \<or>
      (\<forall>f\<in>set fs. f = [] \<or> last f \<noteq> 13) \<and> concat chunks = concat (map lf_encode fs)"
  shows "feed lines_decode on_frame chunks (framed_new () s) io =
    (case on_frames on_frame fs s io of (s', io') \<Rightarrow> Some (framed_new () s', io'))"
  using assms(2) crlf.roundtrip [OF assms(1), of on_frame s io] lf.roundtrip [of fs on_frame s io] assms(1)
  by (auto split: prod.split)

lemma lines_roundtrip_witness:
  "feed lines_decode (\<lambda>s f io. (s @ [f], io)) [[65], [13], [10, 66, 13, 13, 10]] (framed_new () []) io_default =
   Some (framed_new () [[65], [66, 13]], io_default)"
  using lines_roundtrip [of "[[65], [66, 13]]" "[[65], [13], [10, 66, 13, 13, 10]]" "\<lambda>s f io. (s @ [f], io)" "[]" io_default]
  by (simp add: crlf_encode_def)

end
