(* ===== verification/Reactor.thy ===== *)
theory Reactor
  imports Codec
begin

text \<open>
  The two reactors of \<open>core/src/net.rs\<close>. The operating system is the environment: every connection
  carries the outcomes its future reads and writes will have, and the listener those of its accepts,
  as finite scripts; a script that has run out answers \<open>WouldBlock\<close>. The user's handler is a record of
  callbacks, each of which may panic; a panic ends the thread of the reactor. What the kernel accepted of
  a connection's outbound bytes is kept in \<open>sent\<close>.
\<close>

subsection \<open>Environment and callbacks\<close>

text \<open>\<open>RData []\<close> is the read of 0 bytes at the end of the stream.\<close>

datatype read_result = RData bytes | RWouldBlock | RInterrupted | RFail

datatype write_result = WAccept nat | WWouldBlock | WInterrupted | WFail

text \<open>\<open>None\<close> is a panic.\<close>

record 's callbacks =
  cb_open :: "'s \<Rightarrow> io \<Rightarrow> ('s \<times> io) option"
  cb_data :: "'s \<Rightarrow> bytes \<Rightarrow> io \<Rightarrow> ('s \<times> io) option"
  cb_close :: "'s \<Rightarrow> 's option"

record 's conn =
  handler :: 's
  conn_io :: io
  reads :: "read_result list"
  writes :: "write_result list"
  sent :: bytes

subsection \<open>Conn\<close>

text \<open>
  The loop of \<open>try_flush\<close>: the flag is \<open>is_ok()\<close>. An accepted write takes bytes from the front of the
  buffer, at most those it was offered.
\<close>

fun flush_loop :: "write_result list \<Rightarrow> bytes \<Rightarrow> bytes \<Rightarrow> bool \<times> write_result list \<times> bytes \<times> bytes" where
  "flush_loop ws [] s = (True, ws, [], s)"
| "flush_loop [] bs s = (True, [], bs, s)"
| "flush_loop (WAccept n # ws) bs s =
     (if n = 0 then (True, ws, bs, s) else flush_loop ws (drop n bs) (s @ take n bs))"
| "flush_loop (WWouldBlock # ws) bs s = (True, ws, bs, s)"
| "flush_loop (WInterrupted # ws) bs s = flush_loop ws bs s"
| "flush_loop (WFail # ws) bs s = (False, ws, bs, s)"

definition try_flush :: "'s conn \<Rightarrow> bool \<times> 's conn" where
  "try_flush c =
     (case flush_loop (writes c) (out (conn_io c)) (sent c) of
        (ok, ws, bs, s) \<Rightarrow> (ok, c\<lparr>conn_io := (conn_io c)\<lparr>out := bs\<rparr>, writes := ws, sent := s\<rparr>))"

definition closing_done :: "'s conn \<Rightarrow> bool" where
  "closing_done c \<longleftrightarrow> close_flag (conn_io c) \<and> out (conn_io c) = []"

definition call_open :: "'s callbacks \<Rightarrow> 's conn \<Rightarrow> 's conn option" where
  "call_open cb c = map_option (\<lambda>(s, io). c\<lparr>handler := s, conn_io := io\<rparr>) (cb_open cb (handler c) (conn_io c))"

definition call_data :: "'s callbacks \<Rightarrow> bytes \<Rightarrow> 's conn \<Rightarrow> 's conn option" where
  "call_data cb bs c = map_option (\<lambda>(s, io). c\<lparr>handler := s, conn_io := io\<rparr>) (cb_data cb (handler c) bs (conn_io c))"

definition call_close :: "'s callbacks \<Rightarrow> 's conn \<Rightarrow> 's conn option" where
  "call_close cb c = map_option (\<lambda>s. c\<lparr>handler := s\<rparr>) (cb_close cb (handler c))"

text \<open>Whether the connection is to be dropped, and the connection after; \<open>None\<close> if \<open>on_close\<close> panics.\<close>

definition service :: "'s callbacks \<Rightarrow> 's conn \<Rightarrow> (bool \<times> 's conn) option" where
  "service cb c =
     (case try_flush c of
        (ok, c') \<Rightarrow> if \<not> ok \<or> closing_done c' then map_option (Pair True) (call_close cb c') else Some (False, c'))"

subsection \<open>The scan reactor\<close>

datatype accept_result =
    AConn int bool "read_result list" "write_result list"
  | AWouldBlock
  | AInterrupted
  | AFail

text \<open>
  A new connection, with its file descriptor and whether \<open>set_nonblocking\<close> succeeds. The state of the loop is
  its connections, those it has dropped, and whether a panic has unwound it; the connection whose
  handler panicked is in neither list. \<open>fresh\<close> is what the factory returns, \<open>None\<close> if it panics.
\<close>

definition new_conn :: "'s \<Rightarrow> read_result list \<Rightarrow> write_result list \<Rightarrow> 's conn" where
  "new_conn s rs ws = \<lparr>handler = s, conn_io = io_default, reads = rs, writes = ws, sent = []\<rparr>"

definition open_conn :: "'s callbacks \<Rightarrow> 's option \<Rightarrow> read_result list \<Rightarrow> write_result list \<Rightarrow> 's conn option" where
  "open_conn cb fresh rs ws = Option.bind fresh (\<lambda>s. call_open cb (new_conn s rs ws))"

type_synonym 's scan_state = "'s conn list \<times> 's conn list \<times> bool"

fun scan_accept :: "'s callbacks \<Rightarrow> 's option \<Rightarrow> accept_result list \<Rightarrow> 's scan_state \<Rightarrow> 's scan_state" where
  "scan_accept cb fresh [] st = st"
| "scan_accept cb fresh (AConn fd nonblocking rs ws # as) (conns, gone, dead) =
     (if \<not> nonblocking then scan_accept cb fresh as (conns, gone, dead)
      else
        (case Option.bind (open_conn cb fresh rs ws) (service cb) of
           None \<Rightarrow> (conns, gone, True)
         | Some (remove, c) \<Rightarrow>
             scan_accept cb fresh as (if remove then (conns, gone @ [c], dead) else (conns @ [c], gone, dead))))"
| "scan_accept cb fresh (AWouldBlock # as) st = st"
| "scan_accept cb fresh (AInterrupted # as) st = scan_accept cb fresh as st"
| "scan_accept cb fresh (AFail # as) st = st"

text \<open>One connection's turn: whether it is removed, and the connection after.\<close>

definition scan_conn :: "'s callbacks \<Rightarrow> 's conn \<Rightarrow> (bool \<times> 's conn) option" where
  "scan_conn cb c =
     (case reads c of
        [] \<Rightarrow> service cb c
      | r # rs \<Rightarrow>
          let c = c\<lparr>reads := rs\<rparr>
          in case r of
               RData bs \<Rightarrow>
                 if bs = [] then map_option (Pair True) (call_close cb c)
                 else Option.bind (call_data cb bs c) (service cb)
             | RWouldBlock \<Rightarrow> service cb c
             | RInterrupted \<Rightarrow> Some (False, c)
             | RFail \<Rightarrow> map_option (Pair True) (call_close cb c))"

text \<open>Once a turn has panicked there are no further turns.\<close>

definition scan_body :: "('a \<Rightarrow> (bool \<times> 'a) option) \<Rightarrow> 'a \<Rightarrow> 'a list \<times> bool \<Rightarrow> bool \<times> 'a \<times> 'a list \<times> bool" where
  "scan_body turn c st =
     (case st of
        (gone, dead) \<Rightarrow>
          if dead then (False, c, gone, dead)
          else
            (case turn c of
               None \<Rightarrow> (True, c, gone, True)
             | Some (remove, c') \<Rightarrow> (remove, c', if remove then gone @ [c'] else gone, False)))"

text \<open>
  One iteration of the reactor's loop, and the loop: \<open>stop\<close> is read before each iteration, so a run
  is as many iterations as the list of the listener's scripts has entries, or fewer if it panics.
\<close>

definition scan_iteration :: "'s callbacks \<Rightarrow> 's option \<Rightarrow> accept_result list \<Rightarrow> 's scan_state \<Rightarrow> 's scan_state" where
  "scan_iteration cb fresh accepts st =
     (case st of
        (_, _, True) \<Rightarrow> st
      | _ \<Rightarrow> (case scan_accept cb fresh accepts st of
                (conns, gone, dead) \<Rightarrow> scan (scan_body (scan_conn cb)) 0 conns (gone, dead)))"

definition scan_reactor :: "'s callbacks \<Rightarrow> 's option \<Rightarrow> accept_result list list \<Rightarrow> 's scan_state" where
  "scan_reactor cb fresh runs = fold (scan_iteration cb fresh) runs ([], [], False)"

subsection \<open>The epoll reactor\<close>

text \<open>
  An event of \<open>epoll_wait\<close>: the descriptor, whether \<open>EPOLLHUP\<close> or \<open>EPOLLERR\<close> is set, whether
  \<open>EPOLLIN\<close> is. \<open>interest\<close> is the kernel's side: the descriptors registered with \<open>epoll_ctl\<close> and
  whether \<open>EPOLLOUT\<close> is requested for them. \<open>ctls\<close> says which of the coming calls to add or modify a
  registration succeed; all do when it has run out. The reactor ignores the result.
\<close>

record ep_event =
  ev_fd :: int
  ev_hangup :: bool
  ev_in :: bool

record 's epoll =
  econns :: "int \<rightharpoonup> 's conn"
  interest :: "int \<rightharpoonup> bool"
  egone :: "'s conn list"
  edead :: bool
  ctls :: "bool list"

definition want_out :: "'s conn \<Rightarrow> bool" where
  "want_out c \<longleftrightarrow> out (conn_io c) \<noteq> []"

text \<open>
  \<open>EPOLL_CTL_ADD\<close> and \<open>EPOLL_CTL_MOD\<close>. A failed call leaves the interest list as it is, and only a registered descriptor can be
  modified; one that is added was just handed out by the kernel. \<open>EPOLL_CTL_DEL\<close> needs no result: the descriptor is closed next, which
  removes it too.
\<close>

datatype ctl_op = CtlAdd | CtlMod

definition ctl_set :: "ctl_op \<Rightarrow> int \<Rightarrow> bool \<Rightarrow> 's epoll \<Rightarrow> 's epoll" where
  "ctl_set op fd w e =
     (let ok = (ctls e = [] \<or> hd (ctls e)) \<and> (op = CtlAdd \<or> interest e fd \<noteq> None)
      in e\<lparr>ctls := tl (ctls e), interest := if ok then (interest e)(fd \<mapsto> w) else interest e\<rparr>)"

definition epoll_new :: "int \<Rightarrow> bool list \<Rightarrow> 's epoll" where
  "epoll_new listen_fd results =
     ctl_set CtlAdd listen_fd False
       \<lparr>econns = Map.empty, interest = Map.empty, egone = [], edead = False, ctls = results\<rparr>"

text \<open>A panic unwinds the loop; the connection whose handler panicked leaves the table with it.\<close>

definition epoll_die :: "int \<Rightarrow> 's epoll \<Rightarrow> 's epoll" where
  "epoll_die fd e = e\<lparr>edead := True, econns := (econns e)(fd := None)\<rparr>"

fun epoll_accept :: "'s callbacks \<Rightarrow> 's option \<Rightarrow> accept_result list \<Rightarrow> 's epoll \<Rightarrow> 's epoll" where
  "epoll_accept cb fresh [] e = e"
| "epoll_accept cb fresh (AConn fd nonblocking rs ws # as) e =
     (if \<not> nonblocking then epoll_accept cb fresh as e
      else
        (case open_conn cb fresh rs ws of
           None \<Rightarrow> e\<lparr>edead := True\<rparr>
         | Some c0 \<Rightarrow>
             (case try_flush c0 of
                (_, c) \<Rightarrow>
                  if closing_done c
                  then (case call_close cb c of
                          None \<Rightarrow> e\<lparr>edead := True\<rparr>
                        | Some c' \<Rightarrow> epoll_accept cb fresh as (e\<lparr>egone := egone e @ [c']\<rparr>))
                  else epoll_accept cb fresh as
                         ((ctl_set CtlAdd fd (want_out c) e)\<lparr>econns := (econns e)(fd \<mapsto> c)\<rparr>))))"
| "epoll_accept cb fresh (AWouldBlock # as) e = e"
| "epoll_accept cb fresh (AInterrupted # as) e = epoll_accept cb fresh as e"
| "epoll_accept cb fresh (AFail # as) e = e"

definition epoll_read :: "'s callbacks \<Rightarrow> 's conn \<Rightarrow> (bool \<times> 's conn) option" where
  "epoll_read cb c =
     (case reads c of
        [] \<Rightarrow> Some (False, c)
      | r # rs \<Rightarrow>
          let c = c\<lparr>reads := rs\<rparr>
          in case r of
               RData bs \<Rightarrow>
                 if bs = [] then map_option (Pair True) (call_close cb c) else map_option (Pair False) (call_data cb bs c)
             | RWouldBlock \<Rightarrow> Some (False, c)
             | RInterrupted \<Rightarrow> Some (False, c)
             | RFail \<Rightarrow> map_option (Pair True) (call_close cb c))"

definition epoll_conn :: "'s callbacks \<Rightarrow> ep_event \<Rightarrow> 's conn \<Rightarrow> (bool \<times> 's conn) option" where
  "epoll_conn cb ev c =
     (if ev_hangup ev then map_option (Pair True) (call_close cb c)
      else
        (case (if ev_in ev then epoll_read cb c else Some (False, c)) of
           None \<Rightarrow> None
         | Some (remove, c') \<Rightarrow> if remove then Some (True, c') else service cb c'))"

definition epoll_event :: "'s callbacks \<Rightarrow> 's option \<Rightarrow> int \<Rightarrow> ep_event \<times> accept_result list \<Rightarrow> 's epoll \<Rightarrow> 's epoll" where
  "epoll_event cb fresh listen_fd evs e =
     (case evs of
        (ev, accepts) \<Rightarrow>
          if edead e then e
          else if ev_fd ev = listen_fd then epoll_accept cb fresh accepts e
          else
            (case econns e (ev_fd ev) of
               None \<Rightarrow> e
             | Some c \<Rightarrow>
                 (case epoll_conn cb ev c of
                    None \<Rightarrow> epoll_die (ev_fd ev) e
                  | Some (remove, c') \<Rightarrow>
                      if remove
                      then e\<lparr>interest := (interest e)(ev_fd ev := None),
                             econns := (econns e)(ev_fd ev := None), egone := egone e @ [c']\<rparr>
                      else (ctl_set CtlMod (ev_fd ev) (want_out c') e)\<lparr>econns := (econns e)(ev_fd ev \<mapsto> c')\<rparr>)))"

definition epoll_reactor ::
  "'s callbacks \<Rightarrow> 's option \<Rightarrow> int \<Rightarrow> bool list \<Rightarrow> (ep_event \<times> accept_result list) list \<Rightarrow> 's epoll" where
  "epoll_reactor cb fresh listen_fd results evs =
     fold (epoll_event cb fresh listen_fd) evs (epoll_new listen_fd results)"

subsection \<open>Flushing\<close>

lemma flush_loop_conserves:
  "flush_loop ws bs s = (ok, ws', bs', s') \<Longrightarrow> s' @ bs' = s @ bs"
  by (induction ws bs s arbitrary: ok ws' bs' s' rule: flush_loop.induct) (auto split: if_splits)

lemma flush_loop_used:
  "flush_loop ws bs s = (ok, ws', bs', s') \<Longrightarrow> \<exists>used. ws = used @ ws' \<and> (\<not> ok \<longrightarrow> used \<noteq> [] \<and> last used = WFail)"
proof (induction ws bs s arbitrary: ok ws' bs' s' rule: flush_loop.induct)
  case (3 n ws b bs s)
  show ?case
  proof (cases "n = 0")
    case True
    then show ?thesis using 3(2) by (intro exI [of _ "[WAccept n]"]) simp
  next
    case False
    then obtain used where "ws = used @ ws'" "\<not> ok \<longrightarrow> used \<noteq> [] \<and> last used = WFail" using 3 by force
    then show ?thesis by (intro exI [of _ "WAccept n # used"]) simp
  qed
next
  case (5 ws b bs s)
  then obtain used where "ws = used @ ws'" "\<not> ok \<longrightarrow> used \<noteq> [] \<and> last used = WFail" by force
  then show ?case by (intro exI [of _ "WInterrupted # used"]) simp
qed auto

lemma try_flush_used:
  "try_flush c = (ok, c') \<Longrightarrow> \<exists>used. writes c = used @ writes c' \<and> (\<not> ok \<longrightarrow> used \<noteq> [] \<and> last used = WFail)"
  using flush_loop_used by (fastforce simp: try_flush_def split: prod.splits)

lemma try_flush_simps:
  assumes "try_flush c = (ok, c')"
  shows "sent c' @ out (conn_io c') = sent c @ out (conn_io c)" "handler c' = handler c"
    "reads c' = reads c" "close_flag (conn_io c') = close_flag (conn_io c)"
  using assms flush_loop_conserves
  by (fastforce simp: try_flush_def split: prod.splits)+

subsection \<open>Every connection has its turn\<close>

lemma scan_dead: "i \<le> length xs \<Longrightarrow> scan (scan_body turn) i xs (gone, True) = (xs, gone, True)"
proof (induction "length xs - i" arbitrary: i)
  case 0
  then show ?case by (subst scan.simps) simp
next
  case (Suc n)
  then have "scan (scan_body turn) (Suc i) xs (gone, True) = (xs, gone, True)" by simp
  then show ?case using Suc(2) by (subst scan.simps) (simp add: scan_body_def)
qed

text \<open>
  Without a panic the scan gives each connection one turn, keeps those that stay and drops the others,
  although a removal moves the last connection to the front of those still waiting.
\<close>

lemma scan_turns:
  assumes "i \<le> length xs" "scan (scan_body turn) i xs (gone, False) = (ys, gone', False)"
  shows "(\<forall>c\<in>set (drop i xs). turn c \<noteq> None) \<and>
    mset ys = mset (take i xs) +
      {#snd (the (turn c)). c \<in># {#c \<in># mset (drop i xs). \<not> fst (the (turn c))#}#} \<and>
    mset gone' = mset gone + {#snd (the (turn c)). c \<in># {#c \<in># mset (drop i xs). fst (the (turn c))#}#}"
  using assms
proof (induction "scan_body turn" i xs "(gone, False)" arbitrary: gone rule: scan.induct)
  case (1 i xs)
  show ?case
  proof (cases "i < length xs")
    case False
    then show ?thesis using 1(3,4) by (simp add: scan.simps)
  next
    case True
    have "turn (xs ! i) \<noteq> None"
    proof
      assume "turn (xs ! i) = None"
      then have "scan (scan_body turn) i (swap_remove xs i) (gone, True) = (ys, gone', False)"
        using 1(4) True by (simp add: scan.simps [of _ i xs] scan_body_def)
      moreover have "i \<le> length (swap_remove xs i)" using True by simp
      ultimately show False by (simp add: scan_dead)
    qed
    then obtain r c where t: "turn (xs ! i) = Some (r, c)" by fastforce
    then have b: "scan_body turn (xs ! i) (gone, False) = (r, c, if r then gone @ [c] else gone, False)"
      by (simp add: scan_body_def)
    have rest: "drop i xs = xs ! i # drop (Suc i) xs" using True by (simp add: Cons_nth_drop_Suc)
    show ?thesis
    proof (cases r)
      case True
      then have sub: "scan (scan_body turn) i (swap_remove xs i) (gone @ [c], False) = (ys, gone', False)"
        using 1(4) \<open>i < length xs\<close> b by (simp add: scan.simps [of _ i xs])
      have i: "i \<le> length (swap_remove xs i)" using \<open>i < length xs\<close> by simp
      have m: "mset (drop i (swap_remove xs i)) = mset (drop (Suc i) xs)"
        using mset_drop_swap_remove [OF \<open>i < length xs\<close>] rest by simp
      then have st: "set (drop i (swap_remove xs i)) = set (drop (Suc i) xs)" by (rule mset_eq_setD)
      show ?thesis
        using 1(1) [OF \<open>i < length xs\<close> b [symmetric] _ True i sub] True t m st rest
          take_swap_remove [OF \<open>i < length xs\<close>] by auto
    next
      case False
      then have sub: "scan (scan_body turn) (Suc i) (xs[i := c]) (gone, False) = (ys, gone', False)"
        using 1(4) \<open>i < length xs\<close> b by (simp add: scan.simps [of _ i xs])
      moreover have "mset (take (Suc i) (xs[i := c])) = add_mset c (mset (take i xs))"
        using \<open>i < length xs\<close> by (simp add: take_Suc_conv_app_nth)
      ultimately show ?thesis
        using 1(2) [OF \<open>i < length xs\<close> b [symmetric] _ False _ sub] False t rest \<open>i < length xs\<close> by auto
    qed
  qed
qed

lemma scan_all_turns:
  assumes "scan (scan_body turn) 0 xs (gone, dead) = (ys, gone', False)"
  shows "\<forall>c\<in>set xs. turn c \<noteq> None"
    "mset ys = {#snd (the (turn c)). c \<in># {#c \<in># mset xs. \<not> fst (the (turn c))#}#}"
    "mset gone' = mset gone + {#snd (the (turn c)). c \<in># {#c \<in># mset xs. fst (the (turn c))#}#}"
proof -
  have "\<not> dead" using assms scan_dead [of 0 xs turn gone] by (cases dead) auto
  then show "\<forall>c\<in>set xs. turn c \<noteq> None"
      "mset ys = {#snd (the (turn c)). c \<in># {#c \<in># mset xs. \<not> fst (the (turn c))#}#}"
      "mset gone' = mset gone + {#snd (the (turn c)). c \<in># {#c \<in># mset xs. fst (the (turn c))#}#}"
    using scan_turns [of 0 xs turn gone ys gone'] assms by simp_all
qed

text \<open>
  A turn that panics ends the scan: some connections have had their turn, one panicked and is lost, the others are as they were.
\<close>

lemma scan_panics:
  assumes "i \<le> length xs" "scan (scan_body turn) i xs (gone, False) = (ys, gone', True)"
  shows "\<exists>served p rest. mset (drop i xs) = mset served + {#p#} + mset rest \<and> turn p = None \<and> (\<forall>c\<in>set served. turn c \<noteq> None) \<and>
    mset ys = mset (take i xs) + {#snd (the (turn c)). c \<in># {#c \<in># mset served. \<not> fst (the (turn c))#}#} + mset rest \<and>
    mset gone' = mset gone + {#snd (the (turn c)). c \<in># {#c \<in># mset served. fst (the (turn c))#}#}"
  using assms
proof (induction "scan_body turn" i xs "(gone, False)" arbitrary: gone rule: scan.induct)
  case (1 i xs)
  have i: "i < length xs" using 1(3,4) by (cases "i = length xs") (auto simp: scan.simps)
  have rest: "mset (drop i xs) = add_mset (xs ! i) (mset (drop (Suc i) xs))" using i by (simp add: Cons_nth_drop_Suc [symmetric])
  have len: "i \<le> length (swap_remove xs i)" using i by simp
  have m: "mset (drop i (swap_remove xs i)) = mset (drop (Suc i) xs)"
    using mset_drop_swap_remove [OF i] rest by simp
  show ?case
  proof (cases "turn (xs ! i)")
    case None
    then have "scan (scan_body turn) i (swap_remove xs i) (gone, True) = (ys, gone', True)"
      using 1(4) i by (simp add: scan.simps [of _ i xs] scan_body_def)
    then have y: "ys = swap_remove xs i" "gone' = gone" using scan_dead [OF len, of turn gone] by simp_all
    have "mset ys = mset (take i xs) + mset (drop i (swap_remove xs i))"
      using y(1) take_swap_remove [OF i] by (metis append_take_drop_id mset_append)
    then show ?thesis
      using None y rest m by (intro exI [of _ "[]"] exI [of _ "xs ! i"] exI [of _ "drop i (swap_remove xs i)"]) simp
  next
    case (Some rc)
    obtain r c where t: "turn (xs ! i) = Some (r, c)" using Some by (cases rc) simp
    then have b: "scan_body turn (xs ! i) (gone, False) = (r, c, if r then gone @ [c] else gone, False)"
      by (simp add: scan_body_def)
    let ?ys = "if r then swap_remove xs i else xs[i := c]"
    let ?j = "if r then i else Suc i"
    have sub: "scan (scan_body turn) ?j ?ys (if r then gone @ [c] else gone, False) = (ys, gone', True)"
      using 1(4) i b by (cases r) (simp_all add: scan.simps [of _ i xs])
    have "\<exists>served p rest. mset (drop ?j ?ys) = mset served + {#p#} + mset rest \<and> turn p = None \<and> (\<forall>c\<in>set served. turn c \<noteq> None) \<and>
        mset ys = mset (take ?j ?ys) + {#snd (the (turn c)). c \<in># {#c \<in># mset served. \<not> fst (the (turn c))#}#} + mset rest \<and>
        mset gone' = mset (if r then gone @ [c] else gone) + {#snd (the (turn c)). c \<in># {#c \<in># mset served. fst (the (turn c))#}#}"
      using 1(1) [OF i b [symmetric] _ _ len] 1(2) [OF i b [symmetric]] sub i by (auto split: if_splits)
    then obtain served p rest' where h: "mset (drop ?j ?ys) = mset served + {#p#} + mset rest'" "turn p = None" "\<forall>c\<in>set served. turn c \<noteq> None"
        "mset ys = mset (take ?j ?ys) + {#snd (the (turn c)). c \<in># {#c \<in># mset served. \<not> fst (the (turn c))#}#} + mset rest'"
        "mset gone' = mset (if r then gone @ [c] else gone) + {#snd (the (turn c)). c \<in># {#c \<in># mset served. fst (the (turn c))#}#}"
      by blast
    have d: "mset (drop ?j ?ys) = mset (drop (Suc i) xs)" using m by simp
    have k: "mset (take ?j ?ys) = (if r then mset (take i xs) else add_mset c (mset (take i xs)))"
      using i take_swap_remove [OF i] by (simp add: take_Suc_conv_app_nth)
    show ?thesis
      by (rule exI [of _ "xs ! i # served"], rule exI [of _ p], rule exI [of _ rest'])
        (use h d k rest t in \<open>auto split: if_splits\<close>)
  qed
qed

subsection \<open>A handler that remembers\<close>

text \<open>
  What a handler does is a function of the calls it has had. So the most general handler is one that
  keeps the list of its calls and answers each with bytes to write and perhaps a close request, or panics;
  \<open>Io\<close>'s fields are private, so a handler can do no more with it than append and request.
\<close>

datatype event = Opened | Got bytes | Shut

type_synonym behaviour = "event list \<Rightarrow> (bytes \<times> bool) option"

definition react :: "behaviour \<Rightarrow> event list \<Rightarrow> io \<Rightarrow> (event list \<times> io) option" where
  "react f h io = map_option (\<lambda>(bs, cl). (h, (if cl then io_close else id) (io_write bs io))) (f h)"

definition history_cb :: "behaviour \<Rightarrow> event list callbacks" where
  "history_cb f =
     \<lparr>cb_open = \<lambda>h io. react f (h @ [Opened]) io,
      cb_data = \<lambda>h bs io. react f (h @ [Got bs]) io,
      cb_close = \<lambda>h. map_option (\<lambda>_. h @ [Shut]) (f (h @ [Shut]))\<rparr>"

text \<open>All that a handler with these calls has written, in order.\<close>

definition wrote :: "behaviour \<Rightarrow> event list \<Rightarrow> bytes" where
  "wrote f h = (case f h of None \<Rightarrow> [] | Some (bs, _) \<Rightarrow> bs)"

definition written :: "behaviour \<Rightarrow> event list \<Rightarrow> bytes" where
  "written f h = concat (map (\<lambda>n. if h ! n = Shut then [] else wrote f (take (Suc n) h)) [0..<length h])"

lemma written_Nil [simp]: "written f [] = []"
  by (simp add: written_def)

lemma written_snoc [simp]: "written f (h @ [e]) = written f h @ (if e = Shut then [] else wrote f (h @ [e]))"
  by (auto simp: written_def nth_append intro!: arg_cong [of _ _ concat] map_cong)

lemma react_facts:
  assumes "react f h io = Some (h', io')"
  shows "h' = h" "out io' = out io @ wrote f h"
  using assms by (auto simp: react_def wrote_def io_write_def io_close_def split: if_splits)

text \<open>
  What the listener's scripts hold for connections that are taken, the data in a script of reads, and how a
  connection's reads and writes so far relate to its script.
\<close>

definition scripts_of :: "accept_result list \<Rightarrow> (read_result list \<times> write_result list) set" where
  "scripts_of as = {(rs, ws). \<exists>fd. AConn fd True rs ws \<in> set as}"

lemma scripts_of_mono: "set as \<subseteq> set bs \<Longrightarrow> scripts_of as \<subseteq> scripts_of bs"
  by (auto simp: scripts_of_def)

fun chunks :: "read_result list \<Rightarrow> bytes list" where
  "chunks [] = []"
| "chunks (RData bs # rs) = (if bs = [] then chunks rs else bs # chunks rs)"
| "chunks (_ # rs) = chunks rs"

lemma chunks_append [simp]: "chunks (rs @ qs) = chunks rs @ chunks qs"
  by (induction rs rule: chunks.induct) simp_all

text \<open>A connection ends with the end of the stream or an error of a read, an error of a write, or, all bytes sent, on request.\<close>

definition ended :: "read_result list \<Rightarrow> write_result list \<Rightarrow> 's conn \<Rightarrow> bool" where
  "ended rs ws c \<longleftrightarrow>
     rs \<noteq> [] \<and> last rs \<in> {RData [], RFail} \<or> ws \<noteq> [] \<and> last ws = WFail \<or> close_flag (conn_io c) \<and> out (conn_io c) = []"

definition bytes_ok :: "behaviour \<Rightarrow> event list conn \<Rightarrow> bool" where
  "bytes_ok f c \<longleftrightarrow> sent c @ out (conn_io c) = written f (handler c)"

definition live_ok :: "(read_result list \<times> write_result list) set \<Rightarrow> behaviour \<Rightarrow> event list conn \<Rightarrow> bool" where
  "live_ok A f c \<longleftrightarrow> bytes_ok f c \<and>
     (\<exists>rs ws. (rs @ reads c, ws @ writes c) \<in> A \<and> RData [] \<notin> set rs \<and> RFail \<notin> set rs \<and>
        handler c = Opened # map Got (chunks rs))"

text \<open>\<open>hung\<close>: whether the kernel has reported a connection as hung up or broken.\<close>

definition gone_ok :: "bool \<Rightarrow> (read_result list \<times> write_result list) set \<Rightarrow> behaviour \<Rightarrow> event list conn \<Rightarrow> bool" where
  "gone_ok hung A f c \<longleftrightarrow> bytes_ok f c \<and>
     (\<exists>rs ws. (rs @ reads c, ws @ writes c) \<in> A \<and> (ended rs ws c \<or> hung) \<and>
        handler c = Opened # map Got (chunks rs) @ [Shut])"

lemma live_okE:
  assumes "live_ok A f c"
  obtains rs ws where "bytes_ok f c" "(rs @ reads c, ws @ writes c) \<in> A" "RData [] \<notin> set rs" "RFail \<notin> set rs"
    "handler c = Opened # map Got (chunks rs)"
  using assms unfolding live_ok_def by blast

lemma live_ok_open:
  assumes "open_conn (history_cb f) (Some []) rs ws = Some c" "(rs, ws) \<in> A"
  shows "live_ok A f c"
proof -
  obtain h io where r: "react f [Opened] io_default = Some (h, io)" "c = (new_conn [] rs ws)\<lparr>handler := h, conn_io := io\<rparr>"
    using assms(1) by (auto simp: open_conn_def call_open_def history_cb_def new_conn_def)
  note rf = react_facts [OF r(1)]
  have "bytes_ok f c"
    using written_snoc [of f "[]" Opened] rf r(2) by (simp add: bytes_ok_def new_conn_def io_default_def)
  then show ?thesis
    using assms(2) rf r(2) unfolding live_ok_def by (intro conjI exI [of _ "[]"]) (simp_all add: new_conn_def)
qed

lemma live_ok_data:
  assumes "live_ok A f c" "reads c = RData bs # qs" "bs \<noteq> []" "call_data (history_cb f) bs (c\<lparr>reads := qs\<rparr>) = Some c'"
  shows "live_ok A f c'"
proof -
  obtain rs ws where l: "bytes_ok f c" "(rs @ reads c, ws @ writes c) \<in> A" "RData [] \<notin> set rs" "RFail \<notin> set rs"
    "handler c = Opened # map Got (chunks rs)" by (rule live_okE [OF assms(1)])
  obtain h io where r: "react f (handler c @ [Got bs]) (conn_io c) = Some (h, io)" "c' = c\<lparr>reads := qs, handler := h, conn_io := io\<rparr>"
    using assms(4) by (auto simp: call_data_def history_cb_def)
  note rf = react_facts [OF r(1)]
  have "handler c' = Opened # map Got (chunks (rs @ [RData bs]))" "((rs @ [RData bs]) @ reads c', ws @ writes c') \<in> A"
    "RData [] \<notin> set (rs @ [RData bs])" "RFail \<notin> set (rs @ [RData bs])"
    using l assms(2,3) rf r(2) by simp_all
  moreover have "bytes_ok f c'"
    using l(1) rf r(2) written_snoc [of f "handler c" "Got bs"] by (simp add: bytes_ok_def)
  ultimately show ?thesis unfolding live_ok_def by blast
qed

lemma live_ok_read:
  assumes "live_ok A f c" "reads c = r # qs" "r = RWouldBlock \<or> r = RInterrupted"
  shows "live_ok A f (c\<lparr>reads := qs\<rparr>)"
proof -
  obtain rs ws where l: "bytes_ok f c" "(rs @ reads c, ws @ writes c) \<in> A" "RData [] \<notin> set rs" "RFail \<notin> set rs"
    "handler c = Opened # map Got (chunks rs)" by (rule live_okE [OF assms(1)])
  then have "((rs @ [r]) @ qs, ws @ writes c) \<in> A" "handler c = Opened # map Got (chunks (rs @ [r]))"
    "RData [] \<notin> set (rs @ [r])" "RFail \<notin> set (rs @ [r])" using assms(2,3) by auto
  moreover have "bytes_ok f (c\<lparr>reads := qs\<rparr>)" using l(1) by (simp add: bytes_ok_def)
  ultimately show ?thesis
    unfolding live_ok_def by (intro conjI exI [of _ "rs @ [r]"] exI [of _ ws]) simp_all
qed

lemma live_ok_flush:
  assumes "live_ok A f c" "try_flush c = (ok, c')"
  shows "live_ok A f c'"
proof -
  obtain used where "writes c = used @ writes c'" using try_flush_used [OF assms(2)] by blast
  then show ?thesis
    using assms(1) try_flush_simps [OF assms(2)] unfolding live_ok_def bytes_ok_def by (metis append_assoc)
qed

lemma call_close_conn: "call_close (history_cb f) c = Some c' \<Longrightarrow> c' = c\<lparr>handler := handler c @ [Shut]\<rparr>"
  by (auto simp: call_close_def history_cb_def)

lemma bytes_ok_close: "call_close (history_cb f) c = Some c' \<Longrightarrow> bytes_ok f c \<Longrightarrow> bytes_ok f c'"
  using call_close_conn [of f c c'] written_snoc [of f "handler c" Shut] by (simp add: bytes_ok_def)

lemma bytes_ok_reads [simp]: "bytes_ok f (c\<lparr>reads := rs\<rparr>) = bytes_ok f c"
  by (simp add: bytes_ok_def)

lemma gone_ok_close:
  assumes "live_ok A f c" "call_close (history_cb f) c = Some c'" "hung \<or> closing_done c"
  shows "gone_ok hung A f c'"
proof -
  obtain rs ws where "bytes_ok f c" "(rs @ reads c, ws @ writes c) \<in> A" "handler c = Opened # map Got (chunks rs)"
    by (rule live_okE [OF assms(1)])
  then show ?thesis
    using call_close_conn [OF assms(2)] bytes_ok_close [OF assms(2)] assms(3) by (auto simp: gone_ok_def ended_def closing_done_def)
qed

lemma gone_ok_read:
  assumes "live_ok A f c" "reads c = r # qs" "r = RData [] \<or> r = RFail" "call_close (history_cb f) (c\<lparr>reads := qs\<rparr>) = Some c'"
  shows "gone_ok hung A f c'"
proof -
  obtain rs ws where l: "bytes_ok f c" "(rs @ reads c, ws @ writes c) \<in> A" "handler c = Opened # map Got (chunks rs)"
    by (rule live_okE [OF assms(1)])
  have c': "c' = c\<lparr>reads := qs, handler := handler c @ [Shut]\<rparr>" using call_close_conn [OF assms(4)] by simp
  have "((rs @ [r]) @ reads c', ws @ writes c') \<in> A" "handler c' = Opened # map Got (chunks (rs @ [r])) @ [Shut]"
    "ended (rs @ [r]) ws c'" "bytes_ok f c'"
    using l assms(2,3) c' bytes_ok_close [OF assms(4)] by (auto simp: ended_def)
  then show ?thesis unfolding gone_ok_def by blast
qed

lemma gone_ok_failed:
  assumes "live_ok A f c" "try_flush c = (False, c1)" "call_close (history_cb f) c1 = Some c'"
  shows "gone_ok hung A f c'"
proof -
  obtain used where u: "writes c = used @ writes c1" "used \<noteq> []" "last used = WFail" using try_flush_used [OF assms(2)] by blast
  obtain rs ws where l: "bytes_ok f c" "(rs @ reads c, ws @ writes c) \<in> A" "handler c = Opened # map Got (chunks rs)"
    by (rule live_okE [OF assms(1)])
  have c': "c' = c1\<lparr>handler := handler c1 @ [Shut]\<rparr>" using call_close_conn [OF assms(3)] .
  have "(rs @ reads c', (ws @ used) @ writes c') \<in> A" "handler c' = Opened # map Got (chunks rs) @ [Shut]"
    "ended rs (ws @ used) c'" "bytes_ok f c'"
    using l u c' try_flush_simps [OF assms(2)] bytes_ok_close [OF assms(3)] by (auto simp: ended_def bytes_ok_def)
  then show ?thesis unfolding gone_ok_def by blast
qed

definition turn_ok :: "bool \<Rightarrow> (read_result list \<times> write_result list) set \<Rightarrow> behaviour \<Rightarrow> (bool \<times> event list conn) option \<Rightarrow> bool" where
  "turn_ok hung A f r \<longleftrightarrow> (\<forall>remove c. r = Some (remove, c) \<longrightarrow> (if remove then gone_ok hung A f c else live_ok A f c))"

lemma turn_ok_simps [simp]:
  "turn_ok hung A f None" "turn_ok hung A f (Some (False, c)) = live_ok A f c" "turn_ok hung A f (Some (True, c)) = gone_ok hung A f c"
  "turn_ok hung A f (map_option (Pair True) r) \<longleftrightarrow> (\<forall>c. r = Some c \<longrightarrow> gone_ok hung A f c)"
  "turn_ok hung A f (map_option (Pair False) r) \<longleftrightarrow> (\<forall>c. r = Some c \<longrightarrow> live_ok A f c)"
  by (auto simp: turn_ok_def)

lemma service_ok:
  assumes "live_ok A f c"
  shows "turn_ok hung A f (service (history_cb f) c)"
proof -
  obtain ok c1 where fl: "try_flush c = (ok, c1)" by fastforce
  show ?thesis
    using live_ok_flush [OF assms fl] gone_ok_close [of A f c1 _ hung] gone_ok_failed [OF assms, of c1] fl
    by (cases ok) (auto simp: service_def)
qed

lemma scan_conn_ok:
  assumes "live_ok A f c"
  shows "turn_ok hung A f (scan_conn (history_cb f) c)"
proof (cases "reads c")
  case Nil
  then show ?thesis using service_ok [OF assms] by (simp add: scan_conn_def)
next
  case (Cons r qs)
  show ?thesis
  proof (cases "r = RWouldBlock \<or> r = RInterrupted")
    case True
    then show ?thesis
      using live_ok_read [OF assms Cons True] service_ok [of A f "c\<lparr>reads := qs\<rparr>"] Cons by (auto simp: scan_conn_def Let_def)
  next
    case False
    then show ?thesis
      using gone_ok_read [OF assms Cons, of _ hung] live_ok_data [OF assms, of _ qs] service_ok [of A f _ hung] Cons
      by (cases r) (auto simp: scan_conn_def Let_def split: bind_split)
  qed
qed

lemma epoll_read_ok:
  assumes "live_ok A f c"
  shows "turn_ok hung A f (epoll_read (history_cb f) c)"
proof (cases "reads c")
  case (Cons r qs)
  then show ?thesis
    using gone_ok_read [OF assms Cons, of _ hung] live_ok_data [OF assms, of _ qs] live_ok_read [OF assms Cons]
    by (cases r) (auto simp: epoll_read_def Let_def)
qed (simp add: epoll_read_def assms)

lemma epoll_conn_ok:
  assumes "live_ok A f c" "ev_hangup ev \<longrightarrow> hung"
  shows "turn_ok hung A f (epoll_conn (history_cb f) ev c)"
proof (cases "ev_hangup ev")
  case True
  then show ?thesis using gone_ok_close [OF assms(1)] assms(2) by (simp add: epoll_conn_def)
next
  case False
  have "turn_ok hung A f (if ev_in ev then epoll_read (history_cb f) c else Some (False, c))"
    using epoll_read_ok [OF assms(1)] assms(1) by simp
  then show ?thesis
    using False service_ok [of A f _ hung] unfolding epoll_conn_def by (auto simp: turn_ok_def split: option.split)
qed

definition conns_ok :: "(read_result list \<times> write_result list) set \<Rightarrow> behaviour \<Rightarrow> event list scan_state \<Rightarrow> bool" where
  "conns_ok A f st \<longleftrightarrow> (\<forall>c\<in>set (fst st). live_ok A f c) \<and> (\<forall>c\<in>set (fst (snd st)). gone_ok False A f c)"

lemma conns_ok_changes:
  assumes "conns_ok A f (xs, gone, d)"
  shows "live_ok A f c \<Longrightarrow> conns_ok A f (xs @ [c], gone, d')" "live_ok A f c \<Longrightarrow> conns_ok A f (xs[i := c], gone, d')"
    "gone_ok False A f c \<Longrightarrow> conns_ok A f (xs, gone @ [c], d')" "i < length xs \<Longrightarrow> conns_ok A f (swap_remove xs i, gone, d')"
  using assms set_update_subset_insert [of xs i c] set_swap_remove [of i xs] by (auto simp: conns_ok_def)

lemma scan_accept_ok:
  "conns_ok A f st \<Longrightarrow> scripts_of as \<subseteq> A \<Longrightarrow> conns_ok A f (scan_accept (history_cb f) (Some []) as st)"
proof (induction as arbitrary: st)
  case (Cons a as)
  obtain conns gone dead where st: "st = (conns, gone, dead)" by (metis prod_cases3)
  have sub: "scripts_of as \<subseteq> A" using Cons.prems(2) by (auto simp: scripts_of_def)
  show ?case
  proof (cases a)
    case (AConn fd nonblocking rs ws)
    show ?thesis
    proof (cases "nonblocking \<and> Option.bind (open_conn (history_cb f) (Some []) rs ws) (service (history_cb f)) \<noteq> None")
      case False
      then show ?thesis
        using Cons.IH [OF Cons.prems(1) sub] Cons.prems(1) AConn st by (cases nonblocking) (auto simp: conns_ok_def simp del: not_None_eq)
    next
      case True
      then obtain c0 r c where c: "open_conn (history_cb f) (Some []) rs ws = Some c0"
          "service (history_cb f) c0 = Some (r, c)"
        by (auto simp: bind_eq_Some_conv)
      have "(rs, ws) \<in> A" using Cons.prems(2) AConn True by (auto simp: scripts_of_def)
      from service_ok [OF live_ok_open [OF c(1) this]] have "if r then gone_ok False A f c else live_ok A f c"
        using c(2) unfolding turn_ok_def by blast
      then have "conns_ok A f (if r then (conns, gone @ [c], dead) else (conns @ [c], gone, dead))"
        using conns_ok_changes(1,3) [OF Cons.prems(1) [unfolded st], of c dead] by (cases r) simp_all
      then show ?thesis using Cons.IH [OF _ sub] c True AConn st by simp
    qed
  qed (use Cons.IH [OF Cons.prems(1) sub] Cons.prems st in simp_all)
qed simp

lemma scan_body_ok:
  assumes "conns_ok A f (xs, t)" "i < length xs" "scan_body (scan_conn (history_cb f)) (xs ! i) t = (remove, x, t')"
  shows "conns_ok A f (if remove then swap_remove xs i else xs[i := x], t')"
proof -
  obtain gone dead where t: "t = (gone, dead)" by (cases t)
  note ok = assms(1) [unfolded t]
  have c: "turn_ok False A f (scan_conn (history_cb f) (xs ! i))" using assms(1,2) by (simp add: conns_ok_def scan_conn_ok)
  show ?thesis
  proof (cases "dead \<or> scan_conn (history_cb f) (xs ! i) = None")
    case True
    then show ?thesis
      using assms conns_ok_changes(4) [OF ok, of i True] t by (auto simp: scan_body_def split: if_splits)
  next
    case False
    then obtain r c' where r: "scan_conn (history_cb f) (xs ! i) = Some (r, c')" by fastforce
    have "if r then gone_ok False A f c' else live_ok A f c'" using c r unfolding turn_ok_def by blast
    moreover have "x = c'" "remove = r" "t' = (if r then gone @ [c'] else gone, False)"
      using assms(3) False r t by (auto simp: scan_body_def)
    ultimately show ?thesis
      using conns_ok_changes(2,3) [OF ok, of c'] conns_ok_changes(4) [OF _ assms(2)] by (cases r) auto
  qed
qed

lemma scan_ok:
  assumes "conns_ok A f (xs, t)"
  shows "conns_ok A f (scan (scan_body (scan_conn (history_cb f))) 0 xs t)"
proof -
  obtain ys u where st: "scan (scan_body (scan_conn (history_cb f))) 0 xs t = (ys, u)" by (rule prod.exhaust)
  have "(\<lambda>(i :: nat) xs t. conns_ok A f (xs, t)) (length ys) ys u"
    by (rule scan_invariant [where I = "\<lambda>i xs t. conns_ok A f (xs, t)", OF st])
      (use assms scan_body_ok in \<open>force+\<close>)
  then show ?thesis using st by simp
qed

lemma scan_iteration_ok:
  assumes "conns_ok A f st" "scripts_of as \<subseteq> A"
  shows "conns_ok A f (scan_iteration (history_cb f) (Some []) as st)"
proof -
  obtain conns gone dead where st: "scan_accept (history_cb f) (Some []) as st = (conns, gone, dead)" by (metis prod_cases3)
  have "conns_ok A f (scan (scan_body (scan_conn (history_cb f))) 0 conns (gone, dead))"
    using scan_ok scan_accept_ok [OF assms] st by simp
  then show ?thesis using assms st by (auto simp: scan_iteration_def split: prod.split bool.split)
qed

lemma scan_reactor_ok: "conns_ok (scripts_of (concat runs)) f (scan_reactor (history_cb f) (Some []) runs)"
proof -
  have "conns_ok A f (fold (scan_iteration (history_cb f) (Some [])) runs st)"
    if "conns_ok A f st" "scripts_of (concat runs) \<subseteq> A" for st A
    using that
  proof (induction runs arbitrary: st)
    case (Cons as runs)
    then have "scripts_of as \<subseteq> A" "scripts_of (concat runs) \<subseteq> A"
      using scripts_of_mono [of as "concat (as # runs)"] scripts_of_mono [of "concat runs" "concat (as # runs)"] by auto
    then show ?case using Cons by (simp add: scan_iteration_ok)
  qed simp
  from this [of "scripts_of (concat runs)" "([], [], False)"] show ?thesis by (simp add: scan_reactor_def conns_ok_def)
qed

text \<open>How many connections a script of accepts gives, up to the one that ends the loop.\<close>

fun arrivals :: "accept_result list \<Rightarrow> nat" where
  "arrivals [] = 0"
| "arrivals (AConn _ nonblocking _ _ # as) = (if nonblocking then Suc (arrivals as) else arrivals as)"
| "arrivals (AInterrupted # as) = arrivals as"
| "arrivals (_ # as) = 0"

lemma scan_accept_dead: "snd (snd st) \<Longrightarrow> snd (snd (scan_accept cb fresh as st))"
  by (induction cb fresh as st rule: scan_accept.induct) (auto split: option.splits)

lemma scan_accept_count:
  "scan_accept cb fresh as (conns, gone, d) = (conns', gone', False) \<Longrightarrow>
     length conns' + length gone' = length conns + length gone + arrivals as"
proof (induction as arbitrary: conns gone d)
  case (Cons a as)
  then show ?case by (cases a) (auto split: option.splits if_splits prod.splits)
qed simp

lemma scan_iteration_count:
  assumes "scan_iteration cb fresh as (conns, gone, d) = (conns', gone', False)"
  shows "\<not> d \<and> length conns' + length gone' = length conns + length gone + arrivals as"
proof -
  obtain cs g e where a: "scan_accept cb fresh as (conns, gone, d) = (cs, g, e)" by (metis prod_cases3)
  have d: "\<not> d" using assms by (cases d) (simp_all add: scan_iteration_def)
  then have sc: "scan (scan_body (scan_conn cb)) 0 cs (g, e) = (conns', gone', False)"
    using assms a by (simp add: scan_iteration_def)
  then have "\<not> e" using scan_dead [of 0 cs "scan_conn cb" g] by (cases e) simp_all
  then have "length cs + length g = length conns + length gone + arrivals as"
    using scan_accept_count [of cb fresh as conns gone d cs g] a by simp
  moreover have "length conns' + length gone' = length cs + length g"
  proof -
    let ?P = "\<lambda>c. fst (the (scan_conn cb c))"
    have "size (mset cs) = size {#c \<in># mset cs. ?P c#} + size {#c \<in># mset cs. \<not> ?P c#}"
      by (metis multiset_partition size_union)
    moreover have "size (mset conns') = size {#c \<in># mset cs. \<not> ?P c#}" "size (mset gone') = size (mset g) + size {#c \<in># mset cs. ?P c#}"
      unfolding scan_all_turns(2,3) [OF sc] by (simp_all only: size_image_mset size_union)
    ultimately show ?thesis by simp
  qed
  ultimately show ?thesis using d by simp
qed

lemma scan_reactor_count:
  "scan_reactor cb fresh runs = (conns, gone, False) \<Longrightarrow> length conns + length gone = sum_list (map arrivals runs)"
proof (induction runs arbitrary: conns gone rule: rev_induct)
  case (snoc as runs)
  obtain cs g d where r: "scan_reactor cb fresh runs = (cs, g, d)" by (metis prod_cases3)
  then have "scan_iteration cb fresh as (cs, g, d) = (conns, gone, False)" using snoc.prems by (simp add: scan_reactor_def)
  from scan_iteration_count [OF this] show ?case using snoc.IH r by simp
qed (simp add: scan_reactor_def)

definition epoll_ok :: "bool \<Rightarrow> (read_result list \<times> write_result list) set \<Rightarrow> behaviour \<Rightarrow> int \<Rightarrow> event list epoll \<Rightarrow> bool" where
  "epoll_ok hung A f listen_fd e \<longleftrightarrow>
     (\<forall>fd c. econns e fd = Some c \<longrightarrow> live_ok A f c) \<and> (\<forall>c\<in>set (egone e). gone_ok hung A f c) \<and> econns e listen_fd = None \<and>
     (\<not> edead e \<longrightarrow> dom (interest e) \<subseteq> insert listen_fd (dom (econns e)))"

text \<open>The interest list has what the reactor asked for, as long as no call fails.\<close>

definition watched :: "int \<Rightarrow> 's epoll \<Rightarrow> bool" where
  "watched listen_fd e \<longleftrightarrow> interest e listen_fd = Some False \<and> (\<forall>fd c. econns e fd = Some c \<longrightarrow> interest e fd = Some (want_out c)) \<and>
     econns e listen_fd = None \<and> False \<notin> set (ctls e)"

fun fresh_fds :: "int \<Rightarrow> accept_result list \<Rightarrow> bool" where
  "fresh_fds listen_fd [] = True"
| "fresh_fds listen_fd (AConn fd _ _ _ # as) = (fd \<noteq> listen_fd \<and> fresh_fds listen_fd as)"
| "fresh_fds listen_fd (_ # as) = fresh_fds listen_fd as"

lemma ctl_set_simps [simp]:
  "econns (ctl_set op fd w e) = econns e" "egone (ctl_set op fd w e) = egone e" "edead (ctl_set op fd w e) = edead e"
  "ctls (ctl_set op fd w e) = tl (ctls e)"
  by (simp_all add: ctl_set_def Let_def)

lemma ctl_set_interest:
  "interest (ctl_set op fd w e) = interest e \<or> interest (ctl_set op fd w e) = (interest e)(fd \<mapsto> w)"
  "False \<notin> set (ctls e) \<Longrightarrow> op = CtlAdd \<or> interest e fd \<noteq> None \<Longrightarrow> interest (ctl_set op fd w e) = (interest e)(fd \<mapsto> w)"
  by (cases "ctls e"; simp add: ctl_set_def Let_def)+

lemma epoll_ok_changes:
  assumes "epoll_ok hung A f listen_fd e"
  shows "gone_ok hung A f c \<Longrightarrow> epoll_ok hung A f listen_fd (e\<lparr>egone := egone e @ [c]\<rparr>)"
    "epoll_ok hung A f listen_fd (e\<lparr>edead := True\<rparr>)" "epoll_ok hung A f listen_fd (epoll_die fd e)"
    "gone_ok hung A f c \<Longrightarrow> fd \<noteq> listen_fd \<Longrightarrow>
       epoll_ok hung A f listen_fd (e\<lparr>interest := (interest e)(fd := None), econns := (econns e)(fd := None), egone := egone e @ [c]\<rparr>)"
  using assms by (auto simp: epoll_ok_def epoll_die_def)

lemma epoll_ok_set:
  assumes "epoll_ok hung A f listen_fd e" "live_ok A f c" "fd \<noteq> listen_fd"
  shows "epoll_ok hung A f listen_fd ((ctl_set op fd w e)\<lparr>econns := (econns e)(fd \<mapsto> c)\<rparr>)"
  using assms ctl_set_interest(1) [of op fd w e] by (fastforce simp: epoll_ok_def)

lemma watched_changes:
  assumes "watched listen_fd e"
  shows "watched listen_fd (e\<lparr>egone := g\<rparr>)" "watched listen_fd (e\<lparr>edead := True\<rparr>)" "watched listen_fd (epoll_die fd e)"
    "fd \<noteq> listen_fd \<Longrightarrow> watched listen_fd (e\<lparr>interest := (interest e)(fd := None), econns := (econns e)(fd := None), egone := g\<rparr>)"
  using assms by (auto simp: watched_def epoll_die_def)

lemma watched_set:
  assumes "watched listen_fd e" "fd \<noteq> listen_fd" "op = CtlAdd \<or> econns e fd \<noteq> None"
  shows "watched listen_fd ((ctl_set op fd (want_out c) e)\<lparr>econns := (econns e)(fd \<mapsto> c)\<rparr>)"
proof -
  have "interest (ctl_set op fd (want_out c) e) = (interest e)(fd \<mapsto> want_out c)"
    by (rule ctl_set_interest(2)) (use assms in \<open>auto simp: watched_def\<close>)
  then show ?thesis using assms(1,2) by (cases "ctls e") (auto simp: watched_def)
qed

lemma epoll_accept_ok:
  "epoll_ok hung A f listen_fd e \<Longrightarrow> fresh_fds listen_fd as \<Longrightarrow> scripts_of as \<subseteq> A \<Longrightarrow>
     epoll_ok hung A f listen_fd (epoll_accept (history_cb f) (Some []) as e) \<and>
     (watched listen_fd e \<longrightarrow> watched listen_fd (epoll_accept (history_cb f) (Some []) as e))"
proof (induction as arbitrary: e)
  case (Cons a as)
  have sub: "scripts_of as \<subseteq> A" using Cons.prems(3) by (auto simp: scripts_of_def)
  show ?case
  proof (cases a)
    case (AConn fd nb rs ws)
    have fd: "fd \<noteq> listen_fd" "fresh_fds listen_fd as" using Cons.prems(2) AConn by simp_all
    show ?thesis
    proof (cases "nb \<and> open_conn (history_cb f) (Some []) rs ws \<noteq> None")
      case True
      then obtain c0 where c0: "open_conn (history_cb f) (Some []) rs ws = Some c0" by blast
      obtain ok c where fl: "try_flush c0 = (ok, c)" by fastforce
      have "(rs, ws) \<in> A" using Cons.prems(3) AConn True by (auto simp: scripts_of_def)
      then have c: "live_ok A f c" using live_ok_flush [OF live_ok_open [OF c0] fl] by blast
      have go: "epoll_ok hung A f listen_fd (epoll_accept (history_cb f) (Some []) as e') \<and>
          (watched listen_fd e \<longrightarrow> watched listen_fd (epoll_accept (history_cb f) (Some []) as e'))"
        if "epoll_ok hung A f listen_fd e'" "watched listen_fd e \<longrightarrow> watched listen_fd e'" for e'
        using Cons.IH [OF that(1) fd(2) sub] that(2) by blast
      show ?thesis
      proof (cases "closing_done c")
        case False
        then show ?thesis
          using go [OF epoll_ok_set [OF Cons.prems(1) c fd(1), of CtlAdd "want_out c"]] watched_set [OF _ fd(1), of e CtlAdd c] True AConn c0 fl by simp
      next
        case cd: True
        show ?thesis
        proof (cases "call_close (history_cb f) c")
          case None
          then show ?thesis
            using cd True AConn c0 fl epoll_ok_changes(2) [OF Cons.prems(1)] watched_changes(2) [of listen_fd e] by simp
        next
          case (Some c')
          have "epoll_ok hung A f listen_fd (e\<lparr>egone := egone e @ [c']\<rparr>)"
            using epoll_ok_changes(1) [OF Cons.prems(1)] gone_ok_close [OF c Some] cd by blast
          from go [OF this] watched_changes(1) [of listen_fd e "egone e @ [c']"] show ?thesis
            using Some cd True AConn c0 fl by simp
        qed
      qed
    next
      case False
      then show ?thesis
        using Cons.IH [OF Cons.prems(1) fd(2) sub] AConn epoll_ok_changes(2) [OF Cons.prems(1)] watched_changes(2) by auto
    qed
  qed (use Cons.IH [OF Cons.prems(1) _ sub] Cons.prems in auto)
qed simp

lemma epoll_event_ok:
  assumes "epoll_ok hung A f listen_fd e" "fresh_fds listen_fd accepts" "scripts_of accepts \<subseteq> A" "ev_hangup ev \<longrightarrow> hung"
  shows "epoll_ok hung A f listen_fd (epoll_event (history_cb f) (Some []) listen_fd (ev, accepts) e) \<and>
    (watched listen_fd e \<longrightarrow> watched listen_fd (epoll_event (history_cb f) (Some []) listen_fd (ev, accepts) e))"
proof (cases "edead e \<or> ev_fd ev = listen_fd \<or> econns e (ev_fd ev) = None")
  case True
  then show ?thesis using assms(1) epoll_accept_ok [OF assms(1-3)] by (auto simp: epoll_event_def)
next
  case False
  then obtain c where c: "econns e (ev_fd ev) = Some c" by blast
  have t: "turn_ok hung A f (epoll_conn (history_cb f) ev c)"
    using epoll_conn_ok [OF _ assms(4)] assms(1) c by (simp add: epoll_ok_def)
  show ?thesis
  proof (cases "epoll_conn (history_cb f) ev c")
    case None
    then show ?thesis
      using False c epoll_ok_changes(3) [OF assms(1)] watched_changes(3) [of listen_fd e] by (simp add: epoll_event_def)
  next
    case (Some rc)
    obtain remove c' where rc: "rc = (remove, c')" by fastforce
    have "if remove then gone_ok hung A f c' else live_ok A f c'" using t Some rc unfolding turn_ok_def by blast
    then show ?thesis
      using False c Some rc epoll_ok_changes(4) [OF assms(1)] epoll_ok_set [OF assms(1)] watched_changes(4) [of listen_fd e]
        watched_set [of listen_fd e "ev_fd ev" CtlMod c']
      by (auto simp: epoll_event_def split: if_splits)
  qed
qed

lemma epoll_new_ok:
  "epoll_ok hung A f listen_fd (epoll_new listen_fd results)"
  "False \<notin> set results \<Longrightarrow> watched listen_fd (epoll_new listen_fd results)"
  by (cases results; simp add: epoll_ok_def watched_def epoll_new_def ctl_set_def)+

lemma epoll_reactor_ok:
  assumes "\<forall>(ev, accepts)\<in>set evs. fresh_fds listen_fd accepts"
    and "A = scripts_of (concat (map snd evs))" "hung = (\<exists>(ev, accepts)\<in>set evs. ev_hangup ev)"
  shows "epoll_ok hung A f listen_fd (epoll_reactor (history_cb f) (Some []) listen_fd results evs)"
    and "False \<notin> set results \<Longrightarrow> watched listen_fd (epoll_reactor (history_cb f) (Some []) listen_fd results evs)"
proof -
  have "epoll_ok hung A f listen_fd (fold (epoll_event (history_cb f) (Some []) listen_fd) xs e) \<and>
      (watched listen_fd e \<longrightarrow> watched listen_fd (fold (epoll_event (history_cb f) (Some []) listen_fd) xs e))"
    if "epoll_ok hung A f listen_fd e" "set xs \<subseteq> set evs" for e xs
    using that
  proof (induction xs arbitrary: e)
    case (Cons x xs)
    obtain ev acc where x: "x = (ev, acc)" by (cases x)
    have "(ev, acc) \<in> set evs" using Cons.prems(2) x by simp
    then have "fresh_fds listen_fd acc" "scripts_of acc \<subseteq> A" "ev_hangup ev \<longrightarrow> hung"
      using assms scripts_of_mono [of acc "concat (map snd evs)"] by force+
    from epoll_event_ok [OF Cons.prems(1) this] show ?case using Cons x by auto
  qed simp
  from this [OF epoll_new_ok(1) subset_refl]
  show "epoll_ok hung A f listen_fd (epoll_reactor (history_cb f) (Some []) listen_fd results evs)"
    "False \<notin> set results \<Longrightarrow> watched listen_fd (epoll_reactor (history_cb f) (Some []) listen_fd results evs)"
    using epoll_new_ok(2) by (auto simp: epoll_reactor_def)
qed

subsection \<open>Properties\<close>

text \<open>
  Flushing never loses, repeats or reorders outbound bytes, whatever the socket answers: what the
  kernel has taken followed by what is still buffered is unchanged. It reports an error only if a
  write failed, and otherwise stops only when the buffer is empty or the socket takes nothing more.
\<close>

theorem try_flush_conserves:
  assumes "try_flush c = (ok, c')"
  shows "sent c' @ out (conn_io c') = sent c @ out (conn_io c) \<and>
    (ok \<or> WFail \<in> set (writes c)) \<and>
    ((\<forall>w\<in>set (writes c). \<exists>n>0. w = WAccept n) \<and> length (out (conn_io c)) \<le> length (writes c) \<longrightarrow>
       ok \<and> out (conn_io c') = [])"
proof -
  have "ok \<or> WFail \<in> set ws" if "flush_loop ws bs s = (ok, r)" for ws bs s ok r
    using that by (induction ws bs s rule: flush_loop.induct) (auto split: if_splits)
  moreover have "fst (flush_loop ws bs s) \<and> fst (snd (snd (flush_loop ws bs s))) = []"
    if "\<forall>w\<in>set ws. \<exists>n>0. w = WAccept n" "length bs \<le> length ws" for ws bs s
    using that by (induction ws bs s rule: flush_loop.induct) auto
  ultimately show ?thesis
    using try_flush_simps(1) [OF assms] assms by (auto simp: try_flush_def split: prod.splits) (metis fst_conv snd_conv)+
qed

definition demo_conn :: "unit conn" where
  "demo_conn = (new_conn () [] [WInterrupted, WAccept 1, WAccept 5])\<lparr>conn_io := \<lparr>out = [1, 2, 3], close_flag = False\<rparr>\<rparr>"

lemma try_flush_conserves_witness:
  "\<exists>c. try_flush demo_conn = (True, c) \<and> out (conn_io c) = [] \<and> sent c = [1, 2, 3]"
proof -
  obtain c where c: "try_flush demo_conn = (True, c)" "out (conn_io c) = []"
    by (simp add: try_flush_def demo_conn_def new_conn_def)
  then show ?thesis
    using try_flush_conserves [OF c(1)] by (simp add: demo_conn_def new_conn_def)
qed

text \<open>
  C34: a connection's life under the scan reactor, for any handler, also one that panics, and any behaviour of
  the network. Every connection is one that the listener accepted, with the reads and writes of its script; until a panic none is lost. Its
  handler is opened once, first; then gets exactly the data read from its socket, read by read; and, if the
  connection was dropped, is closed once, last, and is not called again. A connection that is kept has
  not been closed. The bytes its handler wrote are, in order, those the kernel took and then those
  still buffered, and a connection is dropped only when a read ended or failed, when a write failed, or when the handler asked for it and
  nothing is left to send: so bytes are given up only with a connection that the peer has closed or that is broken.
\<close>

theorem scan_reactor_lifecycle:
  assumes "scan_reactor (history_cb f) (Some []) runs = (conns, gone, dead)"
  shows "(\<forall>c\<in>set conns. sent c @ out (conn_io c) = written f (handler c) \<and>
      (\<exists>rs ws. (rs @ reads c, ws @ writes c) \<in> scripts_of (concat runs) \<and> RData [] \<notin> set rs \<and> RFail \<notin> set rs \<and>
         handler c = Opened # map Got (chunks rs))) \<and>
    (\<forall>c\<in>set gone. sent c @ out (conn_io c) = written f (handler c) \<and>
      (\<exists>rs ws. (rs @ reads c, ws @ writes c) \<in> scripts_of (concat runs) \<and> handler c = Opened # map Got (chunks rs) @ [Shut] \<and>
         (rs \<noteq> [] \<and> last rs \<in> {RData [], RFail} \<or> ws \<noteq> [] \<and> last ws = WFail \<or>
          close_flag (conn_io c) \<and> out (conn_io c) = []))) \<and>
    (\<not> dead \<longrightarrow> length conns + length gone = sum_list (map arrivals runs))"
proof (intro conjI)
  note ok = scan_reactor_ok [of runs f, unfolded assms conns_ok_def fst_conv snd_conv]
  show "\<forall>c\<in>set conns. sent c @ out (conn_io c) = written f (handler c) \<and>
      (\<exists>rs ws. (rs @ reads c, ws @ writes c) \<in> scripts_of (concat runs) \<and> RData [] \<notin> set rs \<and> RFail \<notin> set rs \<and>
         handler c = Opened # map Got (chunks rs))"
    using ok unfolding live_ok_def bytes_ok_def by blast
  show "\<forall>c\<in>set gone. sent c @ out (conn_io c) = written f (handler c) \<and>
      (\<exists>rs ws. (rs @ reads c, ws @ writes c) \<in> scripts_of (concat runs) \<and> handler c = Opened # map Got (chunks rs) @ [Shut] \<and>
         (rs \<noteq> [] \<and> last rs \<in> {RData [], RFail} \<or> ws \<noteq> [] \<and> last ws = WFail \<or>
          close_flag (conn_io c) \<and> out (conn_io c) = []))"
    using ok unfolding gone_ok_def bytes_ok_def ended_def by blast
  show "\<not> dead \<longrightarrow> length conns + length gone = sum_list (map arrivals runs)"
    using scan_reactor_count [of "history_cb f" "Some []" runs conns gone] assms by simp
qed

text \<open>An echo server that closes after a 9 and panics on a 13.\<close>

definition demo_echo :: behaviour where
  "demo_echo h = (case last h of Got bs \<Rightarrow> if bs = [13] then None else Some (bs, bs = [9]) | _ \<Rightarrow> Some ([], False))"

definition demo_runs :: "accept_result list list" where
  "demo_runs = [[AConn 5 True [RData [7], RData [9]] [WAccept 1, WAccept 1], AConn 6 True [RInterrupted] []], [], []]"

lemmas demo_evals = scan_reactor_def scan_iteration_def scan.simps scan_body_def scan_conn_def open_conn_def
  service_def try_flush_def closing_done_def call_open_def call_data_def call_close_def new_conn_def
  history_cb_def react_def demo_echo_def io_default_def io_write_def io_close_def swap_remove_def

lemma demo_reactor:
  "scan_reactor (history_cb demo_echo) (Some []) demo_runs =
     ([\<lparr>handler = [Opened], conn_io = io_default, reads = [], writes = [], sent = []\<rparr>],
      [\<lparr>handler = [Opened, Got [7], Got [9], Shut], conn_io = \<lparr>out = [], close_flag = True\<rparr>,
        reads = [], writes = [], sent = [7, 9]\<rparr>], False)"
  by (simp add: demo_runs_def demo_evals)

lemma scan_reactor_lifecycle_witness:
  "written demo_echo [Opened, Got [7], Got [9], Shut] = [7, 9] \<and>
   (\<exists>rs ws. (rs, ws) \<in> scripts_of (concat demo_runs) \<and> chunks rs = [[7], [9]]) \<and> sum_list (map arrivals demo_runs) = 2"
proof -
  have "\<exists>rs ws. (rs @ [], ws @ []) \<in> scripts_of (concat demo_runs) \<and> [Opened, Got [7], Got [9], Shut] = Opened # map Got (chunks rs) @ [Shut]"
    using scan_reactor_lifecycle [OF demo_reactor] by simp
  then obtain rs ws where "(rs, ws) \<in> scripts_of (concat demo_runs)" "map Got (chunks rs) = map Got [[7], [9]]" by auto
  moreover have "inj Got" by (simp add: inj_on_def)
  ultimately show ?thesis using scan_reactor_lifecycle [OF demo_reactor] by (auto dest: map_injective)
qed

text \<open>
  Each iteration of the scan reactor that ends without a panic has given every open connection exactly
  one turn, whatever the turns did and however many connections were removed on the way: those that
  stay and those that leave are, as multisets, the results of one turn of each.
\<close>

theorem scan_reactor_fair:
  assumes "scan_accept cb fresh accepts (conns, gone, False) = (open_conns, gone0, dead)"
    and "scan_iteration cb fresh accepts (conns, gone, False) = (conns', gone', False)"
  shows "(\<forall>c\<in>set open_conns. scan_conn cb c \<noteq> None) \<and>
    mset conns' = {#snd (the (scan_conn cb c)). c \<in># {#c \<in># mset open_conns. \<not> fst (the (scan_conn cb c))#}#} \<and>
    mset gone' = mset gone0 + {#snd (the (scan_conn cb c)). c \<in># {#c \<in># mset open_conns. fst (the (scan_conn cb c))#}#}"
  using assms scan_all_turns [of "scan_conn cb" open_conns gone0 dead conns' gone']
  by (simp add: scan_iteration_def)

lemma scan_reactor_fair_witness:
  "\<exists>conns gone. scan_iteration (history_cb demo_echo) (Some []) (hd demo_runs) ([], [], False) = (conns, gone, False) \<and>
     size (mset conns) = 2"
proof -
  obtain oc g0 where a: "scan_accept (history_cb demo_echo) (Some []) (hd demo_runs) ([], [], False) = (oc, g0, False)"
      "size {#c \<in># mset oc. \<not> fst (the (scan_conn (history_cb demo_echo) c))#} = 2"
    by (simp add: demo_runs_def demo_evals)
  obtain cs gs where i: "scan_iteration (history_cb demo_echo) (Some []) (hd demo_runs) ([], [], False) = (cs, gs, False)"
    by (simp add: demo_runs_def demo_evals)
  have "size (mset cs) = 2"
    using scan_reactor_fair [OF a(1) i] a(2) by (simp del: size_mset)
  then show ?thesis using i by blast
qed

lemma scan_iteration_dead: "scan_iteration cb fresh accepts (conns, gone, True) = (conns, gone, True)"
  by (simp add: scan_iteration_def)

lemma fold_scan_dead: "fold (scan_iteration cb fresh) later (conns, gone, True) = (conns, gone, True)"
  by (induction later) (simp_all add: scan_iteration_dead)

lemma scan_iteration_panics:
  assumes "scan_accept cb fresh accepts (conns, gone, False) = (open_conns, gone0, dead)"
    and "dead \<or> (\<exists>c\<in>set open_conns. scan_conn cb c = None)"
  shows "\<exists>served panicked rest conns' gone'. mset open_conns = mset served + mset panicked + mset rest \<and>
    (if dead then served = [] \<and> panicked = [] else \<exists>p. panicked = [p] \<and> scan_conn cb p = None) \<and>
    (\<forall>c\<in>set served. scan_conn cb c \<noteq> None) \<and>
    mset conns' = {#snd (the (scan_conn cb c)). c \<in># {#c \<in># mset served. \<not> fst (the (scan_conn cb c))#}#} + mset rest \<and>
    mset gone' = mset gone0 + {#snd (the (scan_conn cb c)). c \<in># {#c \<in># mset served. fst (the (scan_conn cb c))#}#} \<and>
    scan_iteration cb fresh accepts (conns, gone, False) = (conns', gone', True)"
proof (cases dead)
  case True
  then show ?thesis
    using assms(1) scan_dead [of 0 open_conns "scan_conn cb" gone0]
    by (intro exI [of _ "[]"] exI [of _ open_conns] exI [of _ gone0]) (simp add: scan_iteration_def)
next
  case False
  obtain conns' gone' dead' where sc: "scan (scan_body (scan_conn cb)) 0 open_conns (gone0, False) = (conns', gone', dead')"
    by (metis prod_cases3)
  have "dead'" using scan_all_turns(1) [of "scan_conn cb" open_conns gone0 False conns' gone'] sc assms(2) False by (cases dead') auto
  then obtain served p rest where "mset open_conns = mset served + {#p#} + mset rest" "scan_conn cb p = None" "\<forall>c\<in>set served. scan_conn cb c \<noteq> None"
      "mset conns' = {#snd (the (scan_conn cb c)). c \<in># {#c \<in># mset served. \<not> fst (the (scan_conn cb c))#}#} + mset rest"
      "mset gone' = mset gone0 + {#snd (the (scan_conn cb c)). c \<in># {#c \<in># mset served. fst (the (scan_conn cb c))#}#}"
    using scan_panics [of 0 open_conns "scan_conn cb" gone0 conns' gone'] sc by auto
  then show ?thesis
    using assms(1) sc \<open>dead'\<close> False
    by (intro exI [of _ served] exI [of _ "[p]"] exI [of _ rest] exI [of _ conns'] exI [of _ gone']) (simp add: scan_iteration_def)
qed

text \<open>
  C35: a panic of one connection's handler ends the whole reactor, and the other connections are abandoned as they are. Say that in an iteration
  the listener's step leaves the connections \<open>open_conns\<close>, and that it panics (\<open>dead\<close>) or the turn of one of them does. Then
  the connections divide into those already \<open>served\<close>, which have had their one turn and are kept or dropped by it, the one that
  panicked, and the \<open>rest\<close>, which are left exactly as they were: they are neither read nor flushed, and none of the
  connections left over is ever told by \<open>on_close\<close>. However long the server is left running, nothing changes any more.
\<close>

theorem reactor_panic_ends_all:
  assumes "scan_reactor (history_cb f) (Some []) runs = (conns, gone, False)"
    and "scan_accept (history_cb f) (Some []) accepts (conns, gone, False) = (open_conns, gone0, dead)"
    and "dead \<or> (\<exists>c\<in>set open_conns. scan_conn (history_cb f) c = None)"
    and "turn = (\<lambda>c. the (scan_conn (history_cb f) c))"
  shows "\<exists>served panicked rest conns' gone'. mset open_conns = mset served + mset panicked + mset rest \<and>
    (if dead then served = [] \<and> panicked = [] else \<exists>p. panicked = [p] \<and> scan_conn (history_cb f) p = None) \<and>
    (\<forall>c\<in>set served. scan_conn (history_cb f) c \<noteq> None) \<and>
    mset conns' = {#snd (turn c). c \<in># {#c \<in># mset served. \<not> fst (turn c)#}#} + mset rest \<and>
    mset gone' = mset gone0 + {#snd (turn c). c \<in># {#c \<in># mset served. fst (turn c)#}#} \<and>
    (\<forall>c\<in>set conns'. Shut \<notin> set (handler c)) \<and>
    (\<forall>later. scan_reactor (history_cb f) (Some []) (runs @ [accepts] @ later) = (conns', gone', True))"
proof -
  obtain served panicked rest conns' gone' where p: "mset open_conns = mset served + mset panicked + mset rest"
      "if dead then served = [] \<and> panicked = [] else \<exists>p. panicked = [p] \<and> scan_conn (history_cb f) p = None"
      "\<forall>c\<in>set served. scan_conn (history_cb f) c \<noteq> None"
      "mset conns' = {#snd (turn c). c \<in># {#c \<in># mset served. \<not> fst (turn c)#}#} + mset rest"
      "mset gone' = mset gone0 + {#snd (turn c). c \<in># {#c \<in># mset served. fst (turn c)#}#}"
      "scan_iteration (history_cb f) (Some []) accepts (conns, gone, False) = (conns', gone', True)"
    using scan_iteration_panics [OF assms(2,3)] unfolding assms(4) by blast
  have run: "scan_reactor (history_cb f) (Some []) (runs @ [accepts] @ later) = (conns', gone', True)" for later
    using assms(1) p(6) by (simp add: scan_reactor_def fold_scan_dead)
  have "\<forall>c\<in>set conns'. Shut \<notin> set (handler c)"
    using scan_reactor_ok [of "runs @ [accepts]" f] run [of "[]"] by (fastforce simp: conns_ok_def live_ok_def)
  then show ?thesis using p(1-5) run by (intro exI conjI) (assumption | blast)+
qed

text \<open>The first connection panics, the second keeps its unread data.\<close>

definition demo_panic :: "accept_result list" where
  "demo_panic = [AConn 5 True [RData [13]] [], AConn 6 True [RData [7]] []]"

definition demo_rest :: "event list conn" where
  "demo_rest = \<lparr>handler = [Opened], conn_io = io_default, reads = [RData [7]], writes = [], sent = []\<rparr>"

lemma demo_accepted:
  "scan_accept (history_cb demo_echo) (Some []) demo_panic ([], [], False) = ([demo_rest\<lparr>reads := [RData [13]]\<rparr>, demo_rest], [], False)"
  "scan_conn (history_cb demo_echo) (demo_rest\<lparr>reads := [RData [13]]\<rparr>) = None"
  "scan_conn (history_cb demo_echo) demo_rest = Some (False, demo_rest\<lparr>reads := [], handler := [Opened, Got [7]], conn_io := \<lparr>out = [7], close_flag = False\<rparr>\<rparr>)"
  by (simp_all add: demo_panic_def demo_rest_def demo_evals)

lemma reactor_panic_ends_all_witness:
  "\<exists>conns gone. length conns = 1 \<and> (\<forall>c\<in>set conns. Shut \<notin> set (handler c)) \<and>
     (\<forall>later. scan_reactor (history_cb demo_echo) (Some []) (demo_panic # later) = (conns, gone, True))"
proof -
  have r: "scan_reactor (history_cb demo_echo) (Some []) [] = ([], [], False)" by (simp add: scan_reactor_def)
  let ?t = "\<lambda>c. the (scan_conn (history_cb demo_echo) c)"
  have hyp: "False \<or> (\<exists>c\<in>set [demo_rest\<lparr>reads := [RData [13]]\<rparr>, demo_rest]. scan_conn (history_cb demo_echo) c = None)"
    using demo_accepted(2) by simp
  obtain served panicked rest conns' gone' where p:
      "{#demo_rest\<lparr>reads := [RData [13]]\<rparr>, demo_rest#} = mset served + mset panicked + mset rest"
      "\<exists>p. panicked = [p] \<and> scan_conn (history_cb demo_echo) p = None" "\<forall>c\<in>set served. scan_conn (history_cb demo_echo) c \<noteq> None"
      "mset conns' = {#snd (?t c). c \<in># {#c \<in># mset served. \<not> fst (?t c)#}#} + mset rest"
      "\<forall>c\<in>set conns'. Shut \<notin> set (handler c)"
      "\<forall>later. scan_reactor (history_cb demo_echo) (Some []) (demo_panic # later) = (conns', gone', True)"
    using reactor_panic_ends_all [OF r demo_accepted(1) hyp refl] by (simp only: if_False mset.simps append.simps) blast
  have sub: "set served \<subseteq> {demo_rest}"
  proof
    fix c assume c: "c \<in> set served"
    then have "c \<in># {#demo_rest\<lparr>reads := [RData [13]]\<rparr>, demo_rest#}" using p(1) by simp
    then show "c \<in> {demo_rest}" using c p(3) demo_accepted(2) by auto
  qed
  have "filter_mset (\<lambda>c. \<not> fst (?t c)) (mset served) = mset served"
    using sub demo_accepted(3) by (intro filter_mset_eq_conv [THEN iffD2]) auto
  then have "size (mset conns') = size (mset served) + size (mset rest)" unfolding p(4) by (simp del: size_mset)
  also have "\<dots> = 1" using arg_cong [OF p(1), of size] p(2) by auto
  finally show ?thesis using p(5,6) by (intro exI [of _ conns'] exI [of _ gone']) simp
qed

text \<open>
  C36: the epoll reactor, for any handler, any order of events and any behaviour of the network. Its table never forgets what the kernel
  watches: until a panic ends it, only the listener and open connections are registered. As long as no \<open>epoll_ctl\<close> call
  fails, the kernel's interest list is exactly in step: the listener and all the open connections are registered, and \<open>EPOLLOUT\<close> is
  requested for precisely those with bytes still to send, so no output waits unwatched. Whether or not calls fail, each open handler was opened once,
  was given exactly the data read, and was not closed; each dropped one was closed once, last, for a reason: a read that ended or failed, a write that failed, a close
  request with all bytes sent, or a hang-up that the kernel reported; and no bytes are lost or reordered. The operating system must not hand
  out the listener's own descriptor for a new connection.
\<close>

theorem epoll_reactor_consistent:
  assumes "\<forall>(ev, accepts)\<in>set evs. fresh_fds listen_fd accepts"
    and "e = epoll_reactor (history_cb f) (Some []) listen_fd results evs"
  shows "(\<not> edead e \<longrightarrow> dom (interest e) \<subseteq> insert listen_fd (dom (econns e))) \<and>
    (False \<notin> set results \<longrightarrow>
       (\<not> edead e \<longrightarrow> dom (interest e) = insert listen_fd (dom (econns e))) \<and>
       (\<forall>fd c. econns e fd = Some c \<longrightarrow> interest e fd = Some (out (conn_io c) \<noteq> []))) \<and>
    (\<forall>fd c. econns e fd = Some c \<longrightarrow> sent c @ out (conn_io c) = written f (handler c) \<and>
       (\<exists>rs ws. (rs @ reads c, ws @ writes c) \<in> scripts_of (concat (map snd evs)) \<and> RData [] \<notin> set rs \<and> RFail \<notin> set rs \<and>
          handler c = Opened # map Got (chunks rs))) \<and>
    (\<forall>c\<in>set (egone e). sent c @ out (conn_io c) = written f (handler c) \<and>
       (\<exists>rs ws. (rs @ reads c, ws @ writes c) \<in> scripts_of (concat (map snd evs)) \<and> handler c = Opened # map Got (chunks rs) @ [Shut] \<and>
          (rs \<noteq> [] \<and> last rs \<in> {RData [], RFail} \<or> ws \<noteq> [] \<and> last ws = WFail \<or>
           close_flag (conn_io c) \<and> out (conn_io c) = [] \<or> (\<exists>(ev, accepts)\<in>set evs. ev_hangup ev))))"
proof (intro conjI)
  note ok = epoll_reactor_ok [where f = f and results = results, OF assms(1) refl refl, folded assms(2)]
  show sub: "\<not> edead e \<longrightarrow> dom (interest e) \<subseteq> insert listen_fd (dom (econns e))"
    using ok(1) by (simp add: epoll_ok_def)
  show "False \<notin> set results \<longrightarrow> (\<not> edead e \<longrightarrow> dom (interest e) = insert listen_fd (dom (econns e))) \<and>
       (\<forall>fd c. econns e fd = Some c \<longrightarrow> interest e fd = Some (out (conn_io c) \<noteq> []))"
  proof (intro impI)
    assume "False \<notin> set results"
    from ok(2) [OF this] show "(\<not> edead e \<longrightarrow> dom (interest e) = insert listen_fd (dom (econns e))) \<and>
        (\<forall>fd c. econns e fd = Some c \<longrightarrow> interest e fd = Some (out (conn_io c) \<noteq> []))"
      using sub unfolding watched_def want_out_def by fastforce
  qed
  show "\<forall>fd c. econns e fd = Some c \<longrightarrow> sent c @ out (conn_io c) = written f (handler c) \<and>
       (\<exists>rs ws. (rs @ reads c, ws @ writes c) \<in> scripts_of (concat (map snd evs)) \<and> RData [] \<notin> set rs \<and> RFail \<notin> set rs \<and>
          handler c = Opened # map Got (chunks rs))"
    using ok(1) unfolding epoll_ok_def live_ok_def bytes_ok_def by blast
  show "\<forall>c\<in>set (egone e). sent c @ out (conn_io c) = written f (handler c) \<and>
       (\<exists>rs ws. (rs @ reads c, ws @ writes c) \<in> scripts_of (concat (map snd evs)) \<and> handler c = Opened # map Got (chunks rs) @ [Shut] \<and>
          (rs \<noteq> [] \<and> last rs \<in> {RData [], RFail} \<or> ws \<noteq> [] \<and> last ws = WFail \<or>
           close_flag (conn_io c) \<and> out (conn_io c) = [] \<or> (\<exists>(ev, accepts)\<in>set evs. ev_hangup ev)))"
  proof
    fix c assume "c \<in> set (egone e)"
    then have "gone_ok (\<exists>(ev, accepts)\<in>set evs. ev_hangup ev) (scripts_of (concat (map snd evs))) f c" using ok(1) unfolding epoll_ok_def by blast
    then show "sent c @ out (conn_io c) = written f (handler c) \<and>
       (\<exists>rs ws. (rs @ reads c, ws @ writes c) \<in> scripts_of (concat (map snd evs)) \<and> handler c = Opened # map Got (chunks rs) @ [Shut] \<and>
          (rs \<noteq> [] \<and> last rs \<in> {RData [], RFail} \<or> ws \<noteq> [] \<and> last ws = WFail \<or>
           close_flag (conn_io c) \<and> out (conn_io c) = [] \<or> (\<exists>(ev, accepts)\<in>set evs. ev_hangup ev)))"
      unfolding gone_ok_def bytes_ok_def ended_def by (elim conjE exE) (intro conjI exI; assumption | blast)
  qed
qed

definition demo_events :: "(ep_event \<times> accept_result list) list" where
  "demo_events =
     [(\<lparr>ev_fd = 3, ev_hangup = False, ev_in = True\<rparr>, hd demo_runs), (\<lparr>ev_fd = 5, ev_hangup = True, ev_in = False\<rparr>, [])]"

lemmas epoll_evals = epoll_reactor_def epoll_event_def epoll_new_def epoll_conn_def ctl_set_def Let_def demo_evals

lemma epoll_reactor_consistent_witness:
  "dom (interest (epoll_reactor (history_cb demo_echo) (Some []) 3 [True, True] demo_events)) = {3, 6}"
  using epoll_reactor_consistent [of demo_events 3 _ demo_echo "[True, True]", OF _ refl]
  by (simp add: demo_runs_def demo_events_def epoll_evals insert_commute)

text \<open>
  The result of \<open>epoll_ctl\<close> is ignored. If the kernel refuses to register a new connection (say, for want of memory or
  because of the limit on watches), the connection is kept open in the table but not watched, so nothing it sends is ever reported. If the
  listener is refused, the server accepts nothing and its start reports no error.
\<close>

theorem epoll_ctl_ignored:
  assumes "f [Opened] = Some (bs, False)"
    and "e = epoll_reactor (history_cb f) (Some []) 3 [True, False] [(\<lparr>ev_fd = 3, ev_hangup = False, ev_in = True\<rparr>, [AConn 5 True rs []])]"
  shows "(\<exists>c. econns e 5 = Some c \<and> reads c = rs) \<and> \<not> edead e \<and> interest e = [3 \<mapsto> False] \<and>
    interest (epoll_reactor (history_cb f) (Some []) 3 [False] []) = Map.empty"
proof -
  have "flush_loop [] xs [] = (True, [], xs, [])" for xs by (cases xs) simp_all
  then show ?thesis using assms by (simp add: epoll_evals)
qed

end
