(* ===== verification/Metrics.thy ===== *)
theory Metrics
  imports Prelude
begin

text \<open>
  The latency histogram of \<open>core/src/metrics.rs\<close>: 64 buckets by the position of the highest set bit.
  The counters are machine words that wrap. Percentiles go through \<open>f64\<close>; conversion, product and
  truncation are modelled exactly, with rounding to nearest, ties to even, at 53 significant bits.
\<close>

subsection \<open>Bits and floating point\<close>

fun bitlen :: "nat \<Rightarrow> nat" where
  "bitlen n = (if n = 0 then 0 else Suc (bitlen (n div 2)))"

declare bitlen.simps [simp del]

definition leading_zeros :: "u64 \<Rightarrow> nat" where
  "leading_zeros w = 64 - bitlen (unat w)"

text \<open>\<open>n\<close> rounded to 53 significant bits.\<close>

definition rn53 :: "nat \<Rightarrow> nat" where
  "rn53 n =
     (let s = bitlen n - 53; m = n div 2 ^ s; r = n mod 2 ^ s
      in if 2 * r > 2 ^ s \<or> 2 * r = 2 ^ s \<and> 0 < s \<and> odd m then (m + 1) * 2 ^ s else m * 2 ^ s)"

text \<open>
  \<open>(count as f64 * q) as u64\<close> for a \<open>q\<close> whose \<open>f64\<close> is \<open>m / 2 ^ 53\<close>: the literals 0.50, 0.99 and 0.999.
\<close>

definition f64_target :: "nat \<Rightarrow> u64 \<Rightarrow> u64" where
  "f64_target m n = of_nat (rn53 (rn53 (unat n) * m) div 2 ^ 53)"

definition q50 :: nat where "q50 = 4503599627370496"
definition q99 :: nat where "q99 = 8917127262193582"
definition q999 :: nat where "q999 = 8998192055486251"

subsection \<open>LatencyHistogram\<close>

record histogram =
  buckets :: "u64 list"
  hcount :: u64
  sum_ns :: u64
  max_ns :: u64

definition histogram_new :: histogram where
  "histogram_new = \<lparr>buckets = replicate 64 0, hcount = 0, sum_ns = 0, max_ns = 0\<rparr>"

definition bucket_of :: "u64 \<Rightarrow> nat" where
  "bucket_of ns = (if ns = 0 then 0 else 63 - leading_zeros ns)"

definition record_sample :: "u64 \<Rightarrow> histogram \<Rightarrow> histogram" where
  "record_sample ns h =
     h\<lparr>buckets := (buckets h)[bucket_of ns := buckets h ! bucket_of ns + 1],
       hcount := hcount h + 1, sum_ns := sum_ns h + ns,
       max_ns := (if max_ns h < ns then ns else max_ns h)\<rparr>"

record snapshot =
  snap_count :: u64
  mean_ns :: u64
  p50_ns :: u64
  p99_ns :: u64
  p999_ns :: u64
  snap_max :: u64

definition midpoint :: "nat \<Rightarrow> u64" where
  "midpoint i = saturating_add (2 ^ i) (2 ^ (i - 1))"

fun pct_scan :: "u64 \<Rightarrow> u64 \<Rightarrow> nat \<Rightarrow> u64 list \<Rightarrow> u64 option" where
  "pct_scan target acc i [] = None"
| "pct_scan target acc i (c # cs) =
     (if target \<le> acc + c then Some (midpoint i) else pct_scan target (acc + c) (Suc i) cs)"

definition pct :: "histogram \<Rightarrow> nat \<Rightarrow> u64" where
  "pct h q =
     (if hcount h = 0 then 0
      else case pct_scan (f64_target q (hcount h)) 0 0 (buckets h) of Some v \<Rightarrow> v | None \<Rightarrow> max_ns h)"

definition take_snapshot :: "histogram \<Rightarrow> snapshot" where
  "take_snapshot h =
     \<lparr>snap_count = hcount h, mean_ns = (if hcount h = 0 then 0 else sum_ns h div hcount h),
      p50_ns = pct h q50, p99_ns = pct h q99, p999_ns = pct h q999, snap_max = max_ns h\<rparr>"

subsection \<open>Bits\<close>

lemma bitlen_bounds: "0 < n \<Longrightarrow> 2 ^ (bitlen n - 1) \<le> n \<and> n < 2 ^ bitlen n \<and> 0 < bitlen n"
proof (induction n rule: less_induct)
  case (less n)
  show ?case
  proof (cases "n = 1")
    case False
    then have h: "0 < n div 2" "n div 2 < n" using less.prems by auto
    note IH = less.IH [OF h(2) h(1)]
    obtain k where k: "bitlen (n div 2) = Suc k" using IH by (metis gr0_implies_Suc)
    have "bitlen n = Suc (Suc k)" using less.prems k by (simp add: bitlen.simps [of n])
    then show ?thesis using IH k by auto
  qed (simp add: bitlen.simps [of "Suc 0"] bitlen.simps [of 0])
qed

lemma bitlen_le: "n < 2 ^ k \<Longrightarrow> bitlen n \<le> k"
proof (cases "n = 0")
  case False
  assume "n < 2 ^ k"
  then have "(2::nat) ^ (bitlen n - 1) < 2 ^ k"
    using bitlen_bounds [of n] False by (meson le_less_trans neq0_conv)
  then have "bitlen n - 1 < k" by (rule power_less_imp_less_exp [rotated]) simp
  then show ?thesis by simp
qed (simp add: bitlen.simps)

lemma bitlen_mono: "m \<le> n \<Longrightarrow> bitlen m \<le> bitlen n"
proof (cases "n = 0")
  case False
  assume "m \<le> n"
  then have "m < 2 ^ bitlen n" using bitlen_bounds [of n] False by (meson le_less_trans neq0_conv)
  then show ?thesis by (rule bitlen_le)
qed simp

lemma u64_bound: "unat (w :: u64) < 2 ^ 64"
  by (rule order_less_le_trans [OF unsigned_less]) simp

lemma bucket_of_bounds:
  "bucket_of ns < 64" "ns \<noteq> 0 \<Longrightarrow> 2 ^ bucket_of ns \<le> unat ns \<and> unat ns < 2 ^ Suc (bucket_of ns)"
proof -
  have le: "bitlen (unat ns) \<le> 64"
    using bitlen_le u64_bound by blast
  have "63 - leading_zeros ns < 64" by linarith
  then show "bucket_of ns < 64" by (simp add: bucket_of_def)
  assume "ns \<noteq> 0"
  then have n: "0 < unat ns" by (simp add: unat_gt_0)
  have "bucket_of ns = bitlen (unat ns) - 1" "Suc (bitlen (unat ns) - 1) = bitlen (unat ns)"
    using le bitlen_bounds [OF n] \<open>ns \<noteq> 0\<close> by (simp_all add: bucket_of_def leading_zeros_def)
  then show "2 ^ bucket_of ns \<le> unat ns \<and> unat ns < 2 ^ Suc (bucket_of ns)"
    using bitlen_bounds [OF n] by simp
qed

lemma bucket_of_mono: "a \<le> b \<Longrightarrow> bucket_of a \<le> bucket_of b"
  using bitlen_mono [of "unat a" "unat b"] bitlen_le [OF u64_bound, of a] bitlen_le [OF u64_bound, of b]
  by (auto simp: bucket_of_def leading_zeros_def word_le_nat_alt bitlen.simps [of 0])

subsection \<open>Rounding\<close>

lemma rn53_bounds:
  assumes "s = bitlen n - 53"
  shows "n div 2 ^ s * 2 ^ s \<le> rn53 n" "rn53 n \<le> (n div 2 ^ s + 1) * 2 ^ s"
  unfolding rn53_def Let_def assms by auto

lemma rn53_mono: "m \<le> n \<Longrightarrow> rn53 m \<le> rn53 n"
proof (cases "bitlen m = bitlen n")
  case True
  assume "m \<le> n"
  define s where "s = bitlen n - 53"
  have d: "m div 2 ^ s \<le> n div 2 ^ s"
    using \<open>m \<le> n\<close> by (rule div_le_mono)
  show ?thesis
  proof (cases "m div 2 ^ s = n div 2 ^ s")
    case same: True
    have "m mod 2 ^ s \<le> n mod 2 ^ s"
      using \<open>m \<le> n\<close> same by (metis add_le_cancel_left div_mult_mod_eq)
    then show ?thesis
      using same unfolding rn53_def Let_def True s_def [symmetric] by auto
  next
    case False
    then have "m div 2 ^ s + 1 \<le> n div 2 ^ s" using d by simp
    then have "(m div 2 ^ s + 1) * 2 ^ s \<le> n div 2 ^ s * 2 ^ s" by (rule mult_le_mono1)
    then show ?thesis
      using rn53_bounds(2) [of s m] rn53_bounds(1) [of s n] True by (simp add: s_def)
  qed
next
  case False
  assume "m \<le> n"
  then have lt: "bitlen m < bitlen n"
    using False bitlen_mono [of m n] by simp
  then have n: "0 < n" by (cases "n = 0") (simp_all add: bitlen.simps [of 0])
  have up: "rn53 m \<le> 2 ^ bitlen m"
  proof -
    define s where "s = bitlen m - 53"
    have "s \<le> bitlen m" by (simp add: s_def)
    then have p: "(2::nat) ^ bitlen m = 2 ^ (bitlen m - s) * 2 ^ s"
      by (simp flip: power_add)
    have "m < 2 ^ (bitlen m - s) * 2 ^ s"
      using bitlen_bounds [of m] p by (cases "m = 0") auto
    then have "m div 2 ^ s < 2 ^ (bitlen m - s)"
      by (simp add: div_less_iff_less_mult)
    then have "(m div 2 ^ s + 1) * 2 ^ s \<le> 2 ^ (bitlen m - s) * 2 ^ s"
      by (intro mult_le_mono1) simp
    then show ?thesis using rn53_bounds(2) [of s m] p s_def by simp
  qed
  have low: "2 ^ (bitlen n - 1) \<le> rn53 n"
  proof -
    define s where "s = bitlen n - 53"
    have le: "s \<le> bitlen n - 1" using bitlen_bounds [OF n] by (auto simp: s_def)
    then have "(2::nat) ^ (bitlen n - 1) = 2 ^ (bitlen n - 1 - s) * 2 ^ s"
      by (simp flip: power_add)
    moreover have "2 ^ (bitlen n - 1 - s) \<le> n div 2 ^ s"
      using bitlen_bounds [OF n] calculation by (simp add: less_eq_div_iff_mult_less_eq)
    ultimately show ?thesis
      using rn53_bounds(1) [of s n] s_def by (metis le_trans mult_le_mono1)
  qed
  have "(2::nat) ^ bitlen m \<le> 2 ^ (bitlen n - 1)"
    using lt by (intro power_increasing) auto
  with up low show ?thesis by linarith
qed

lemma rn53_exact: "n < 2 ^ 53 \<Longrightarrow> rn53 (n * 2 ^ k) = n * 2 ^ k"
proof -
  assume n: "n < 2 ^ 53"
  define s where "s = bitlen (n * 2 ^ k) - 53"
  have "bitlen (n * 2 ^ k) \<le> 53 + k"
    by (rule bitlen_le) (use n in \<open>simp add: power_add\<close>)
  then have "s \<le> k" by (simp add: s_def)
  then have "(2::nat) ^ s dvd n * 2 ^ k" by (simp add: le_imp_power_dvd)
  then have "n * 2 ^ k mod 2 ^ s = 0" "n * 2 ^ k div 2 ^ s * 2 ^ s = n * 2 ^ k" by simp_all
  then show ?thesis unfolding rn53_def Let_def s_def [symmetric] by simp
qed

lemma target_bound:
  assumes "n < 2 ^ 53" "m \<le> 2 ^ 53"
  shows "unat (f64_target m (of_nat n)) = rn53 (n * m) div 2 ^ 53" "unat (f64_target m (of_nat n)) \<le> n"
proof -
  have u: "unat (of_nat n :: u64) = n"
    using assms(1) by (simp add: unat_of_nat)
  have "rn53 (n * m) \<le> rn53 (n * 2 ^ 53)"
    using assms(2) by (intro rn53_mono) simp
  then have b: "rn53 (n * m) div 2 ^ 53 \<le> n"
    using rn53_exact [OF assms(1), of 53] by (metis div_le_mono div_mult_self_is_m zero_less_numeral zero_less_power)
  have "rn53 n = n"
    using rn53_exact [OF assms(1), of 0] by simp
  then show "unat (f64_target m (of_nat n)) = rn53 (n * m) div 2 ^ 53"
    using b assms(1) by (simp add: f64_target_def u unat_of_nat)
  with b show "unat (f64_target m (of_nat n)) \<le> n" by simp
qed

subsection \<open>Samples\<close>

definition histogram_of :: "u64 list \<Rightarrow> histogram" where
  "histogram_of xs = fold record_sample xs histogram_new"

lemma histogram_of_snoc: "histogram_of (xs @ [x]) = record_sample x (histogram_of xs)"
  by (simp add: histogram_of_def)

definition bucket_count :: "nat \<Rightarrow> u64 list \<Rightarrow> nat" where
  "bucket_count i xs = length (filter (\<lambda>x. bucket_of x = i) xs)"

lemma histogram_of_fields:
  "length (buckets (histogram_of xs)) = 64 \<and> hcount (histogram_of xs) = of_nat (length xs) \<and>
   sum_ns (histogram_of xs) = sum_list xs \<and>
   max_ns (histogram_of xs) = (if xs = [] then 0 else Max (set xs)) \<and>
   (\<forall>i<64. buckets (histogram_of xs) ! i = of_nat (bucket_count i xs))"
proof (induction xs rule: rev_induct)
  case Nil
  then show ?case by (simp add: histogram_of_def histogram_new_def bucket_count_def)
next
  case (snoc x xs)
  have if_max: "max a b = (if b < a then a else b)" for a b :: u64
    by (auto simp: max_def)
  have "Max (insert x (set xs)) = (if Max (set xs) < x then x else Max (set xs))" if "xs \<noteq> []"
    unfolding if_max [symmetric] using that by simp
  moreover have "Max {x} = (if 0 < x then x else 0)"
    by (simp add: word_gt_0)
  ultimately show ?case
    using snoc by (auto simp: histogram_of_snoc record_sample_def bucket_count_def nth_list_update bucket_of_bounds(1) add.commute)
qed

definition upto_bucket :: "nat \<Rightarrow> u64 list \<Rightarrow> nat" where
  "upto_bucket i xs = length (filter (\<lambda>x. bucket_of x < i) xs)"

lemma upto_bucket_Suc: "upto_bucket (Suc i) xs = upto_bucket i xs + bucket_count i xs"
  by (induction xs) (auto simp: upto_bucket_def bucket_count_def less_Suc_eq)

lemma upto_bucket_le: "upto_bucket i xs \<le> length xs"
  by (simp add: upto_bucket_def)

text \<open>The \<open>t\<close>-th smallest sample lies below bucket \<open>i\<close> exactly if \<open>t\<close> samples do.\<close>

lemma kth_bucket:
  assumes "sorted ys" "t < length ys"
  shows "bucket_of (ys ! t) < i \<longleftrightarrow> t < upto_bucket i ys"
  using assms
proof (induction ys arbitrary: t)
  case (Cons y ys)
  show ?case
  proof (cases "bucket_of y < i")
    case True
    then show ?thesis using Cons by (cases t) (auto simp: upto_bucket_def)
  next
    case False
    have "\<not> bucket_of z < i" if "z \<in> set (y # ys)" for z
      using that False bucket_of_mono [of y z] Cons.prems(1) by auto
    moreover from this have "filter (\<lambda>x. bucket_of x < i) (y # ys) = []"
      by (auto simp: filter_empty_conv)
    ultimately show ?thesis
      using Cons.prems(2) by (metis less_nat_zero_code list.size(3) nth_mem upto_bucket_def)
  qed
qed simp

lemma upto_bucket_sort: "upto_bucket i (sort xs) = upto_bucket i xs"
  unfolding upto_bucket_def by (metis filter_sort length_sort)

lemma pct_scan_finds:
  assumes "length xs < 2 ^ 53" "0 < t" "t \<le> length xs" "i \<le> 64"
    and "upto_bucket i xs < t"
    and "cs = map (\<lambda>j. of_nat (bucket_count j xs)) [i..<64]"
  shows "pct_scan (of_nat t) (of_nat (upto_bucket i xs)) i cs = Some (midpoint (bucket_of (sort xs ! (t - 1))))"
  using assms(4-6)
proof (induction "64 - i" arbitrary: i cs)
  case 0
  then have "upto_bucket 64 xs < t" by simp
  moreover have "upto_bucket 64 xs = length xs"
    by (simp add: upto_bucket_def bucket_of_bounds(1))
  ultimately show ?case using assms(3) by simp
next
  case (Suc n)
  then have i: "i < 64" by simp
  let ?b = "bucket_of (sort xs ! (t - 1))"
  have cs: "cs = of_nat (bucket_count i xs) # map (\<lambda>j. of_nat (bucket_count j xs)) [Suc i..<64]"
    using Suc.prems(3) i by (simp add: upt_conv_Cons)
  have acc: "of_nat (upto_bucket i xs) + of_nat (bucket_count i xs) = (of_nat (upto_bucket (Suc i) xs) :: u64)"
    by (simp add: upto_bucket_Suc)
  have small: "unat (of_nat k :: u64) = k" if "k \<le> length xs" for k
    using that assms(1) by (simp add: unat_of_nat)
  have le: "(of_nat t :: u64) \<le> of_nat (upto_bucket (Suc i) xs) \<longleftrightarrow> t \<le> upto_bucket (Suc i) xs"
    using small assms(3) upto_bucket_le by (simp add: word_le_nat_alt)
  have kth: "?b < j \<longleftrightarrow> t - 1 < upto_bucket j xs" for j
    using kth_bucket [of "sort xs" "t - 1" j] assms(2,3) by (simp add: upto_bucket_sort)
  show ?case
  proof (cases "t \<le> upto_bucket (Suc i) xs")
    case True
    then have "?b < Suc i" "\<not> ?b < i"
      using kth [of "Suc i"] kth [of i] Suc.prems(2) assms(2) by auto
    then have "?b = i" by simp
    then show ?thesis using True le acc cs by simp
  next
    case False
    then show ?thesis
      using Suc.hyps(1) [of "Suc i"] Suc.hyps(2) i le acc cs by simp
  qed
qed

lemma percentile_values:
  assumes "xs \<noteq> []" "length xs < 2 ^ 53" "q \<in> {q50, q99, q999}"
  shows "pct (histogram_of xs) q =
      (if rn53 (length xs * q) div 2 ^ 53 = 0 then 2
       else midpoint (bucket_of (sort xs ! (rn53 (length xs * q) div 2 ^ 53 - 1)))) \<and>
    rn53 (length xs * q) div 2 ^ 53 \<le> length xs"
proof -
  let ?h = "histogram_of xs"
  define t where "t = rn53 (length xs * q) div 2 ^ 53"
  have q: "q \<le> 2 ^ 53"
    using assms(3) by (auto simp: q50_def q99_def q999_def)
  have h: "hcount ?h = of_nat (length xs)" "buckets ?h = map (\<lambda>j. of_nat (bucket_count j xs)) [0..<64]"
    using histogram_of_fields [of xs] by (auto intro!: nth_equalityI)
  have target: "f64_target q (hcount ?h) = of_nat t" and t: "t \<le> length xs"
    using target_bound [OF assms(2) q] t_def h(1) by (metis of_nat_unat ucast_id)+
  have "unat (hcount ?h) = length xs"
    using h(1) assms(2) by (simp add: unat_of_nat)
  then have n: "hcount ?h \<noteq> 0"
    using assms(1) by auto
  show ?thesis
  proof (cases "t = 0")
    case True
    obtain c cs where "buckets ?h = c # cs"
      using histogram_of_fields [of xs] by (cases "buckets ?h") auto
    then show ?thesis
      using n target True unfolding t_def [symmetric] by (simp add: pct_def midpoint_def saturating_add_def)
  next
    case False
    then have "pct_scan (of_nat t) (of_nat (upto_bucket 0 xs)) 0 (buckets ?h) =
        Some (midpoint (bucket_of (sort xs ! (t - 1))))"
      using pct_scan_finds [OF assms(2) _ t, of 0] h(2) by (simp add: upto_bucket_def)
    then show ?thesis
      using n target False t unfolding t_def [symmetric] by (simp add: pct_def upto_bucket_def)
  qed
qed

subsection \<open>Properties\<close>

text \<open>
  After recording any samples the histogram is exact where it claims to be: the bucket of \<open>i\<close>
  holds the number of samples from \<open>2 ^ i\<close> up to below \<open>2 ^ (i + 1)\<close> nanoseconds (bucket 0 also those
  of 0), and count, sum and maximum are those of the samples, counters modulo \<open>2 ^ 64\<close>.
\<close>

theorem histogram_exact:
  "buckets (histogram_of xs) =
     map (\<lambda>i. of_nat (length (filter (\<lambda>x. 2 ^ i \<le> max (unat x) 1 \<and> max (unat x) 1 < 2 ^ Suc i) xs))) [0..<64] \<and>
   hcount (histogram_of xs) = of_nat (length xs) \<and> sum_ns (histogram_of xs) = sum_list xs \<and>
   max_ns (histogram_of xs) = (if xs = [] then 0 else Max (set xs))"
proof -
  have "bucket_of x = i \<longleftrightarrow> 2 ^ i \<le> max (unat x) 1 \<and> max (unat x) 1 < 2 ^ Suc i" for x i
  proof -
    have b: "2 ^ bucket_of x \<le> max (unat x) 1 \<and> max (unat x) 1 < 2 ^ Suc (bucket_of x)"
      using bucket_of_bounds(2) [of x] by (cases "x = 0") (simp_all add: bucket_of_def max_def unat_gt_0)
    have "i = bucket_of x" if "2 ^ i \<le> max (unat x) 1" "max (unat x) 1 < 2 ^ Suc i"
    proof -
      have "(2::nat) ^ i < 2 ^ Suc (bucket_of x)" "(2::nat) ^ bucket_of x < 2 ^ Suc i"
        using b that by linarith+
      then have "i < Suc (bucket_of x)" "bucket_of x < Suc i"
        by (meson one_less_numeral_iff power_less_imp_less_exp semiring_norm(76))+
      then show ?thesis by simp
    qed
    with b show ?thesis by auto
  qed
  then show ?thesis
    using histogram_of_fields [of xs] by (auto simp: bucket_count_def intro!: nth_equalityI)
qed

text \<open>
  C40: with fewer than \<open>2 ^ 53\<close> samples, each reported percentile is the midpoint of the bucket that
  contains the \<open>t\<close>-th smallest sample, where \<open>t\<close> is the truncated floating-point product of the count
  and the quantile. The exception is \<open>t = 0\<close>, where the answer is always 2 ns.
\<close>

theorem percentile_of_samples:
  assumes "xs \<noteq> []" "length xs < 2 ^ 53" "q \<in> {q50, q99, q999}"
    and "t = rn53 (length xs * q) div 2 ^ 53"
  shows "pct (histogram_of xs) q = (if t = 0 then 2 else midpoint (bucket_of (sort xs ! (t - 1)))) \<and> t \<le> length xs"
  using percentile_values [OF assms(1-3)] assms(4) by simp

lemma percentile_of_samples_witness:
  "pct (histogram_of [5, 900, 7]) q50 = midpoint (bucket_of 5)"
proof -
  have "bitlen (3 * q50) = 54"
    by (simp add: q50_def bitlen.simps)
  then have "rn53 (3 * q50) div 2 ^ 53 = 1"
    by (simp add: rn53_def q50_def)
  moreover have "length [5, 900, 7 :: u64] = 3" "sort [5, 900, 7 :: u64] = [5, 7, 900]"
    by simp_all
  ultimately have "pct (histogram_of [5, 900, 7]) q50 = (if (1::nat) = 0 then 2 else midpoint (bucket_of ([5, 7, 900] ! (1 - 1))))"
    using percentile_of_samples [of "[5, 900, 7]" q50 1] by (simp only: ) simp
  then show ?thesis by simp
qed

lemma midpoint_value: "i < 64 \<Longrightarrow> unat (midpoint i) = 2 ^ i + 2 ^ (i - 1)"
proof -
  assume i: "i < 64"
  have p: "unat (2 ^ k :: u64) = 2 ^ k" if "k < 64" for k
    using unat_of_nat [where ?'a = 64, of "2 ^ k"] power_strict_increasing [OF that, of "2 :: nat"]
    by (simp del: power_strict_increasing_iff)
  have "(2::nat) ^ i \<le> 2 ^ 63" "(2::nat) ^ (i - 1) \<le> 2 ^ 62"
    using i by (intro power_increasing; simp)+
  then have "unat (2 ^ i :: u64) + unat (2 ^ (i - 1) :: u64) < 2 ^ 64"
    using i by (simp add: p)
  then show ?thesis
    using i by (simp add: midpoint_def saturating_add_def unat_word_ariths p)
qed

lemma midpoint_ge_2: "j < 64 \<Longrightarrow> 2 \<le> midpoint j"
proof -
  assume j: "j < 64"
  have "(2::nat) ^ 0 \<le> 2 ^ j" "(2::nat) ^ 0 \<le> 2 ^ (j - 1)"
    by (intro power_increasing; simp)+
  then have "2 \<le> unat (midpoint j)"
    unfolding midpoint_value [OF j] by (simp only: power_0)
  then show ?thesis by (simp add: word_le_nat_alt)
qed

lemma midpoint_mono:
  assumes "i \<le> j" "j < 64"
  shows "midpoint i \<le> midpoint j"
proof -
  have "i < 64" using assms by simp
  moreover have "(2::nat) ^ i \<le> 2 ^ j" "(2::nat) ^ (i - 1) \<le> 2 ^ (j - 1)"
    using assms by (intro power_increasing; simp)+
  ultimately show ?thesis
    unfolding word_le_nat_alt using assms(2) by (simp only: midpoint_value add_mono)
qed

lemma pct_mono:
  assumes "xs \<noteq> []" "length xs < 2 ^ 53" "p \<in> {q50, q99, q999}" "q \<in> {q50, q99, q999}" "p \<le> q"
    and "\<And>r. r \<in> {q50, q99, q999} \<Longrightarrow> pct (histogram_of xs) r =
      (if rn53 (length xs * r) div 2 ^ 53 = 0 then 2
       else midpoint (bucket_of (sort xs ! (rn53 (length xs * r) div 2 ^ 53 - 1)))) \<and>
      rn53 (length xs * r) div 2 ^ 53 \<le> length xs"
  shows "pct (histogram_of xs) p \<le> pct (histogram_of xs) q"
proof -
  define s t where "s = rn53 (length xs * p) div 2 ^ 53" and "t = rn53 (length xs * q) div 2 ^ 53"
  have st: "s \<le> t"
    unfolding s_def t_def using assms(5) by (intro div_le_mono rn53_mono) simp
  have t: "t \<le> length xs"
    using assms(6) [OF assms(4)] by (simp add: t_def)
  have pq: "pct (histogram_of xs) p = (if s = 0 then 2 else midpoint (bucket_of (sort xs ! (s - 1))))"
      "pct (histogram_of xs) q = (if t = 0 then 2 else midpoint (bucket_of (sort xs ! (t - 1))))"
    using assms(6) [OF assms(3)] assms(6) [OF assms(4)] by (simp_all add: s_def t_def)
  show ?thesis
  proof (cases "s = 0")
    case True
    then show ?thesis using pq midpoint_ge_2 [OF bucket_of_bounds(1)] by simp
  next
    case False
    then have "sort xs ! (s - 1) \<le> sort xs ! (t - 1)"
      using st t by (intro sorted_nth_mono) auto
    then show ?thesis
      using pq False st midpoint_mono [OF bucket_of_mono bucket_of_bounds(1)] by auto
  qed
qed

text \<open>
  The reported percentiles are ordered: the median is at most the 99th, and that at most the
  99.9th percentile.
\<close>

theorem percentiles_ordered:
  assumes "xs \<noteq> []" "length xs < 2 ^ 53"
  shows "p50_ns (take_snapshot (histogram_of xs)) \<le> p99_ns (take_snapshot (histogram_of xs)) \<and>
    p99_ns (take_snapshot (histogram_of xs)) \<le> p999_ns (take_snapshot (histogram_of xs))"
  using pct_mono [OF assms, of q50 q99] pct_mono [OF assms, of q99 q999] percentile_values [OF assms]
  by (simp add: take_snapshot_def q50_def q99_def q999_def)

lemma percentiles_ordered_witness:
  "p50_ns (take_snapshot (histogram_of [5, 900, 7])) \<le> p99_ns (take_snapshot (histogram_of [5, 900, 7]))"
  using percentiles_ordered [of "[5, 900, 7]"] by simp

text \<open>
  A histogram with one sample reports 2 ns for every percentile, whatever the sample was, because
  the product of 1 and a quantile truncates to 0. Only the mean and the maximum show the sample.
\<close>

theorem single_sample_percentiles:
  "take_snapshot (histogram_of [ns]) =
     \<lparr>snap_count = 1, mean_ns = ns, p50_ns = 2, p99_ns = 2, p999_ns = 2, snap_max = ns\<rparr>"
proof -
  have "bitlen q50 = 53" "bitlen q99 = 53" "bitlen q999 = 53"
    by (simp_all add: q50_def q99_def q999_def bitlen.simps)
  then have "rn53 q50 div 2 ^ 53 = 0" "rn53 q99 div 2 ^ 53 = 0" "rn53 q999 div 2 ^ 53 = 0"
    by (simp_all add: rn53_def) (simp_all add: q50_def q99_def q999_def)
  then show ?thesis
    using percentile_values [of "[ns]"] histogram_of_fields [of "[ns]"]
    by (simp add: take_snapshot_def word_div_def)
qed

end
