(* ===== verification/Scheduler.thy ===== *)
theory Scheduler
  imports Mailbox Metrics
begin

text \<open>
  The core scheduler of \<open>core/src/system.rs\<close>: policies, the cell that drives one actor, and the loop
  of a core thread. What user code does is a parameter. A user's hook maps the actor's state and the
  world to the new state, or \<open>None\<close> if it panics, and the new world; the world has the mailboxes, the
  clock, and for each mailbox a trace of what its actor's cell did and the list of all messages it ever accepted. Nothing in the
  program depends on the trace and the list; they are there to be spoken of. \<open>env\<close> is what other threads do to
  the world; it runs before every look at a mailbox. Mailboxes are those of theory \<open>Mailbox\<close>, which
  theory \<open>Mpsc\<close> implements.
\<close>

subsection \<open>Idle strategy and scheduling policy\<close>

datatype idle_strategy = BusySpin | Backoff u32 u32 nat

datatype idle_action = SpinLoop | YieldNow | Sleep nat

definition idle_default :: idle_strategy where
  "idle_default = BusySpin"

definition backoff :: idle_strategy where
  "backoff = Backoff 128 128 50000"

text \<open>\<open>None\<close> is the panic of \<open>spins + yields\<close> in a build with overflow checks; without, the sum wraps.\<close>

fun idle :: "bool \<Rightarrow> idle_strategy \<Rightarrow> u32 \<Rightarrow> idle_action option" where
  "idle checked BusySpin n = Some SpinLoop"
| "idle checked (Backoff spins yields park) n =
     (if n < spins then Some SpinLoop
      else if checked \<and> 2 ^ 32 \<le> unat spins + unat yields then None
      else if n < spins + yields then Some YieldNow
      else Some (Sleep park))"

record policy =
  pol_idle :: idle_strategy
  pol_batch :: usize

definition policy_default :: policy where
  "policy_default = \<lparr>pol_idle = idle_default, pol_batch = 128\<rparr>"

definition with_idle :: "idle_strategy \<Rightarrow> policy \<Rightarrow> policy" where
  "with_idle i p = p\<lparr>pol_idle := i\<rparr>"

text \<open>\<open>None\<close> is the panic of the assertion.\<close>

definition batch_drain :: "usize \<Rightarrow> policy \<Rightarrow> policy option" where
  "batch_drain n p = (if 1 \<le> n then Some (p\<lparr>pol_batch := n\<rparr>) else None)"

subsection \<open>Restart policy\<close>

datatype restart_policy = Never | Limited u32 nat | Always

definition default_supervised :: restart_policy where
  "default_supervised = Limited 5 10000000000"

record restart_state =
  window_start :: "nat option"
  rcount :: u32

definition restart_state_default :: restart_state where
  "restart_state_default = \<lparr>window_start = None, rcount = 0\<rparr>"

definition allow_restart :: "restart_policy \<Rightarrow> nat \<Rightarrow> restart_state \<Rightarrow> bool \<times> restart_state" where
  "allow_restart p now rs =
     (case p of
        Never \<Rightarrow> (False, rs)
      | Always \<Rightarrow> (True, rs)
      | Limited max_restarts within \<Rightarrow>
          let rs' =
            (case window_start rs of
               Some start \<Rightarrow>
                 if now - start \<le> within then rs\<lparr>rcount := rcount rs + 1\<rparr>
                 else \<lparr>window_start = Some now, rcount = 1\<rparr>
             | None \<Rightarrow> \<lparr>window_start = Some now, rcount = 1\<rparr>)
          in (rcount rs' \<le> max_restarts, rs'))"

subsection \<open>World and cells\<close>

datatype 'm entry = EvStart bool | EvHandle 'm bool | EvRebuild bool | EvStop bool | EvDrop

record 'm world =
  mail :: "nat \<Rightarrow> 'm mailbox"
  now :: nat
  trace :: "nat \<Rightarrow> 'm entry list"
  posted :: "nat \<Rightarrow> 'm list"

text \<open>A \<open>try_send\<close> by way of the world; an accepted message is written down.\<close>

definition post :: "nat \<Rightarrow> 'm \<Rightarrow> 'm world \<Rightarrow> 'm send_result \<times> 'm world" where
  "post i m w =
     (case mb_try_send (mail w i) m of
        (Ok u, mb) \<Rightarrow> (Ok u, w\<lparr>mail := (mail w)(i := mb), posted := (posted w)(i := posted w i @ [m])\<rparr>)
      | (Err e, mb) \<Rightarrow> (Err e, w\<lparr>mail := (mail w)(i := mb)\<rparr>))"

text \<open>The same for a channel without bound.\<close>

definition deposit :: "nat \<Rightarrow> 'm \<Rightarrow> 'm world \<Rightarrow> 'm world" where
  "deposit i m w = w\<lparr>mail := (mail w)(i := (mail w i)\<lparr>items := items (mail w i) @ [m]\<rparr>),
     posted := (posted w)(i := posted w i @ [m])\<rparr>"

type_synonym ('s, 'm) hook = "'s \<Rightarrow> 'm world \<Rightarrow> 's option \<times> 'm world"

record ('s, 'm) actor_ops =
  op_handle :: "'m \<Rightarrow> ('s, 'm) hook"
  op_start :: "('s, 'm) hook"
  op_restart :: "('s, 'm) hook"
  op_stop :: "('s, 'm) hook"

record ('s, 'm) cell =
  actor :: 's
  rx :: nat
  factory :: "('m world \<Rightarrow> 's option \<times> 'm world) option"
  cell_policy :: restart_policy
  restarts :: restart_state
  metrics :: "histogram option"

definition log_ev :: "nat \<Rightarrow> 'm entry \<Rightarrow> 'm world \<Rightarrow> 'm world" where
  "log_ev i e w = w\<lparr>trace := (trace w)(i := trace w i @ [e])\<rparr>"

definition cell_start :: "('s, 'm) actor_ops \<Rightarrow> ('s, 'm) cell \<Rightarrow> 'm world \<Rightarrow> bool \<times> ('s, 'm) cell \<times> 'm world" where
  "cell_start ops c w =
     (case op_start ops (actor c) w of
        (Some s, w') \<Rightarrow> (True, c\<lparr>actor := s\<rparr>, log_ev (rx c) (EvStart True) w')
      | (None, w') \<Rightarrow> (False, c, log_ev (rx c) (EvStart False) w'))"

datatype poll_outcome = Worked | Empty | Panicked

text \<open>The rebuild of a supervised actor: the factory, then \<open>on_restart\<close>, both inside the panic boundary.\<close>

definition rebuild :: "('s, 'm) actor_ops \<Rightarrow> ('m world \<Rightarrow> 's option \<times> 'm world) \<Rightarrow> 'm world \<Rightarrow> 's option \<times> 'm world" where
  "rebuild ops mk w =
     (case mk w of
        (None, w') \<Rightarrow> (None, w')
      | (Some a, w') \<Rightarrow> op_restart ops a w')"

definition after_panic ::
  "('s, 'm) actor_ops \<Rightarrow> ('s, 'm) cell \<Rightarrow> 'm world \<Rightarrow> poll_outcome \<times> ('s, 'm) cell \<times> 'm world" where
  "after_panic ops c w =
     (case factory c of
        None \<Rightarrow> (Panicked, c, w)
      | Some mk \<Rightarrow>
          (case allow_restart (cell_policy c) (now w) (restarts c) of
             (ok, rs) \<Rightarrow>
               let c = c\<lparr>restarts := rs\<rparr>
               in if \<not> ok then (Panicked, c, w)
                  else
                    (case rebuild ops mk w of
                       (Some a, w') \<Rightarrow> (Worked, c\<lparr>actor := a\<rparr>, log_ev (rx c) (EvRebuild True) w')
                     | (None, w') \<Rightarrow> (Panicked, c, log_ev (rx c) (EvRebuild False) w'))))"

definition poll_one ::
  "('m world \<Rightarrow> 'm world) \<Rightarrow> ('s, 'm) actor_ops \<Rightarrow> ('s, 'm) cell \<Rightarrow> 'm world \<Rightarrow>
   poll_outcome \<times> ('s, 'm) cell \<times> 'm world" where
  "poll_one env ops c w0 =
     (let w = env w0
      in case mb_try_recv (mail w (rx c)) of
           (None, _) \<Rightarrow> (Empty, c, w)
         | (Some msg, mb) \<Rightarrow>
             (case op_handle ops msg (actor c) (w\<lparr>mail := (mail w)(rx c := mb)\<rparr>) of
                (result, w') \<Rightarrow>
                  let c = c\<lparr>metrics := map_option (record_sample (of_nat (now w' - now w))) (metrics c)\<rparr>;
                      w' = log_ev (rx c) (EvHandle msg (result \<noteq> None)) w'
                  in case result of
                       Some s \<Rightarrow> (Worked, c\<lparr>actor := s\<rparr>, w')
                     | None \<Rightarrow> after_panic ops c w'))"

definition closed_and_empty :: "('s, 'm) cell \<Rightarrow> 'm world \<Rightarrow> bool" where
  "closed_and_empty c w \<longleftrightarrow> \<not> mb_producers_alive (mail w (rx c)) \<and> mb_is_empty (mail w (rx c))"

definition cell_stop :: "('s, 'm) actor_ops \<Rightarrow> ('s, 'm) cell \<Rightarrow> 'm world \<Rightarrow> 'm world" where
  "cell_stop ops c w =
     (case op_stop ops (actor c) w of (r, w') \<Rightarrow> log_ev (rx c) (EvStop (r \<noteq> None)) w')"

text \<open>Dropping a cell drops its \<open>Receiver\<close>.\<close>

definition cell_drop :: "('s, 'm) cell \<Rightarrow> 'm world \<Rightarrow> 'm world" where
  "cell_drop c w = log_ev (rx c) EvDrop (w\<lparr>mail := (mail w)(rx c := mb_drop_receiver (mail w (rx c)))\<rparr>)"

subsection \<open>The core loop\<close>

datatype ('s, 'm) control = Add "('s, 'm) cell" | Shutdown

record ('s, 'm) core =
  actors :: "('s, 'm) cell list"
  shutting_down :: bool
  idle_count :: u32

definition core_new :: "('s, 'm) core" where
  "core_new = \<lparr>actors = [], shutting_down = False, idle_count = 0\<rparr>"

text \<open>
  Step 1: the control messages that are waiting; the flag says whether the channel was found
  disconnected after them. The answer's flag is \<open>ctrl_activity\<close>.
\<close>

fun do_control ::
  "('s, 'm) actor_ops \<Rightarrow> ('s, 'm) control list \<Rightarrow> bool \<Rightarrow> ('s, 'm) core \<Rightarrow> 'm world \<Rightarrow> bool \<times> ('s, 'm) core \<times> 'm world" where
  "do_control ops [] disconnected k w = (False, (if disconnected then k\<lparr>shutting_down := True\<rparr> else k), w)"
| "do_control ops (Add c # cs) disconnected k w =
     (case cell_start ops c w of
        (ok, c', w') \<Rightarrow>
          (case do_control ops cs disconnected
             (if ok then k\<lparr>actors := actors k @ [c']\<rparr> else k) (if ok then w' else cell_drop c' w') of
             (_, k', w'') \<Rightarrow> (True, k', w'')))"
| "do_control ops (Shutdown # cs) disconnected k w =
     do_control ops cs disconnected (k\<lparr>shutting_down := True\<rparr>) w"

text \<open>The batch: up to \<open>n\<close> further messages of the same actor; the flag says that it panicked.\<close>

fun drain_batch ::
  "('m world \<Rightarrow> 'm world) \<Rightarrow> ('s, 'm) actor_ops \<Rightarrow> nat \<Rightarrow> ('s, 'm) cell \<Rightarrow> 'm world \<Rightarrow>
   bool \<times> ('s, 'm) cell \<times> 'm world" where
  "drain_batch env ops 0 c w = (False, c, w)"
| "drain_batch env ops (Suc n) c w =
     (case poll_one env ops c w of
        (Worked, c', w') \<Rightarrow> drain_batch env ops n c' w'
      | (Empty, c', w') \<Rightarrow> (False, c', w')
      | (Panicked, c', w') \<Rightarrow> (True, c', w'))"

text \<open>One actor's visit, as the body of the scan: whether it is removed, and \<open>did_work\<close> with the world.\<close>

definition visit ::
  "('m world \<Rightarrow> 'm world) \<Rightarrow> ('s, 'm) actor_ops \<Rightarrow> usize \<Rightarrow> ('s, 'm) cell \<Rightarrow> 'm world \<times> bool \<Rightarrow>
   bool \<times> ('s, 'm) cell \<times> 'm world \<times> bool" where
  "visit env ops batch c st =
     (case st of
        (w, did_work) \<Rightarrow>
          (case poll_one env ops c w of
             (Worked, c1, w1) \<Rightarrow>
               (case drain_batch env ops (unat batch - 1) c1 w1 of
                  (panicked, c2, w2) \<Rightarrow>
                    if panicked then (True, c2, cell_drop c2 w2, True) else (False, c2, w2, True))
           | (Panicked, c1, w1) \<Rightarrow> (True, c1, cell_drop c1 w1, True)
           | (Empty, c1, w1) \<Rightarrow>
               let w2 = env w1
               in if closed_and_empty c1 w2
                  then (True, c1, cell_drop c1 (cell_stop ops c1 w2), did_work)
                  else (False, c1, w2, did_work)))"

definition run_pass ::
  "('m world \<Rightarrow> 'm world) \<Rightarrow> ('s, 'm) actor_ops \<Rightarrow> usize \<Rightarrow> ('s, 'm) cell list \<Rightarrow> 'm world \<Rightarrow>
   ('s, 'm) cell list \<times> 'm world \<times> bool" where
  "run_pass env ops batch cells w = scan (visit env ops batch) 0 cells (w, False)"

text \<open>Step 3: a drain that never comes to an end is \<open>None\<close>.\<close>

partial_function (option) drain_all ::
  "('m world \<Rightarrow> 'm world) \<Rightarrow> ('s, 'm) actor_ops \<Rightarrow> ('s, 'm) cell \<Rightarrow> 'm world \<Rightarrow>
   (bool \<times> ('s, 'm) cell \<times> 'm world) option" where
  "drain_all env ops c w =
     (case poll_one env ops c w of
        (Worked, c', w') \<Rightarrow> drain_all env ops c' w'
      | (Empty, c', w') \<Rightarrow> Some (False, c', w')
      | (Panicked, c', w') \<Rightarrow> Some (True, c', w'))"

fun shut_down :: "('m world \<Rightarrow> 'm world) \<Rightarrow> ('s, 'm) actor_ops \<Rightarrow> ('s, 'm) cell list \<Rightarrow> 'm world \<Rightarrow> 'm world option" where
  "shut_down env ops [] w = Some w"
| "shut_down env ops (c # cs) w =
     (case drain_all env ops c w of
        None \<Rightarrow> None
      | Some (panicked, c', w') \<Rightarrow>
          shut_down env ops cs (cell_drop c' (if panicked then w' else cell_stop ops c' w')))"

text \<open>
  One iteration of the loop, given what the control channel holds. \<open>Inr\<close>: the thread ends. Step 4's
  idle action is answered where there is one.
\<close>

definition core_iteration ::
  "('m world \<Rightarrow> 'm world) \<Rightarrow> ('s, 'm) actor_ops \<Rightarrow> policy \<Rightarrow> ('s, 'm) control list \<Rightarrow> bool \<Rightarrow>
   ('s, 'm) core \<Rightarrow> 'm world \<Rightarrow> ((('s, 'm) core \<times> 'm world \<times> idle_action option) + 'm world) option" where
  "core_iteration env ops pol ctrls disconnected k w =
     (case do_control ops ctrls disconnected k w of
        (ctrl_activity, k1, w1) \<Rightarrow>
          (case run_pass env ops (pol_batch pol) (actors k1) w1 of
             (cells, w2, did_work) \<Rightarrow>
               if shutting_down k1
               then map_option Inr (shut_down env ops cells w2)
               else if did_work \<or> ctrl_activity
               then Some (Inl (k1\<lparr>actors := cells, idle_count := 0\<rparr>, w2, None))
               else
                 (case idle False (pol_idle pol) (idle_count k1) of
                    None \<Rightarrow> None
                  | Some a \<Rightarrow>
                      Some (Inl (k1\<lparr>actors := cells, idle_count := saturating_add (idle_count k1) 1\<rparr>,
                                 w2, Some a)))))"

fun core_loop ::
  "('m world \<Rightarrow> 'm world) \<Rightarrow> ('s, 'm) actor_ops \<Rightarrow> policy \<Rightarrow> (('s, 'm) control list \<times> bool) list \<Rightarrow>
   ('s, 'm) core \<Rightarrow> 'm world \<Rightarrow> (('s, 'm) core \<times> 'm world + 'm world) option" where
  "core_loop env ops pol [] k w = Some (Inl (k, w))"
| "core_loop env ops pol ((ctrls, disconnected) # rest) k w =
     (case core_iteration env ops pol ctrls disconnected k w of
        None \<Rightarrow> None
      | Some (Inr w') \<Rightarrow> Some (Inr w')
      | Some (Inl (k', w', _)) \<Rightarrow> core_loop env ops pol rest k' w')"

subsection \<open>What user code and other threads may do\<close>

text \<open>
  Rust's ownership leaves code outside a cell only the sending ends of mailboxes: it can append
  messages, clone and drop handles, and time passes. Nothing else may take messages out, and no receiver
  comes back once it is dropped.
\<close>

definition sends :: "'m world \<Rightarrow> 'm world \<Rightarrow> bool" where
  "sends w w' \<longleftrightarrow>
     (\<forall>i. \<exists>new. items (mail w' i) = items (mail w i) @ new \<and> posted w' i = posted w i @ new) \<and>
     (\<forall>i. receiver_alive (mail w' i) \<longrightarrow> receiver_alive (mail w i)) \<and> trace w' = trace w \<and> now w \<le> now w'"

definition user_ok :: "('m world \<Rightarrow> 'm world) \<Rightarrow> ('s, 'm) actor_ops \<Rightarrow> bool" where
  "user_ok env ops \<longleftrightarrow>
     (\<forall>w. sends w (env w)) \<and> (\<forall>m s w. sends w (snd (op_handle ops m s w))) \<and>
     (\<forall>s w. sends w (snd (op_start ops s w))) \<and> (\<forall>s w. sends w (snd (op_restart ops s w))) \<and>
     (\<forall>s w. sends w (snd (op_stop ops s w)))"

definition cell_ok :: "('s, 'm) cell \<Rightarrow> bool" where
  "cell_ok c \<longleftrightarrow> (case factory c of None \<Rightarrow> True | Some mk \<Rightarrow> (\<forall>w. sends w (snd (mk w))))"

lemma mail_log_ev [simp]: "mail (log_ev i e w) = mail w"
  by (simp add: log_ev_def)

lemma sends_refl [simp]: "sends w w"
  by (simp add: sends_def)

lemma sends_trans: "sends w w' \<Longrightarrow> sends w' w'' \<Longrightarrow> sends w w''"
  unfolding sends_def by (metis append.assoc le_trans)

lemma sends_items: "sends w w' \<Longrightarrow> \<exists>new. items (mail w' i) = items (mail w i) @ new"
  by (auto simp: sends_def)

lemma post_simps [simp]:
  "mail (snd (post i m w)) = (mail w)(i := snd (mb_try_send (mail w i) m))" "trace (snd (post i m w)) = trace w"
  "now (snd (post i m w)) = now w" "fst (post i m w) = fst (mb_try_send (mail w i) m)"
  by (simp_all add: post_def split: prod.split result.split)

lemma deposit_simps [simp]:
  "mail (deposit i m w) = (mail w)(i := (mail w i)\<lparr>items := items (mail w i) @ [m]\<rparr>)"
  "trace (deposit i m w) = trace w" "now (deposit i m w) = now w"
  by (simp_all add: deposit_def)

lemma deposit_sends: "sends w (deposit i m w)"
  by (auto simp: sends_def deposit_def)

lemma post_sends: "sends w (snd (post i m w))"
  by (auto simp: sends_def post_def mb_try_send_def)

subsection \<open>Progress of one actor\<close>

definition msgs :: "'m entry list \<Rightarrow> 'm list" where
  "msgs es = concat (map (\<lambda>e. case e of EvHandle m _ \<Rightarrow> [m] | _ \<Rightarrow> []) es)"

lemma msgs_simps [simp]:
  "msgs [] = []" "msgs (es @ fs) = msgs es @ msgs fs" "msgs (EvHandle m b # es) = m # msgs es"
  "msgs (EvStart b # es) = msgs es" "msgs (EvRebuild b # es) = msgs es" "msgs (EvStop b # es) = msgs es"
  "msgs (EvDrop # es) = msgs es"
  by (simp_all add: msgs_def)

definition handled :: "'m world \<Rightarrow> nat \<Rightarrow> 'm list" where
  "handled w i = msgs (trace w i)"

text \<open>
  Between two worlds the cell of mailbox \<open>i\<close> has done \<open>es\<close> and no other cell has done anything; what
  it handled came from the front of its mailbox, and all mailboxes have otherwise only grown.
\<close>

definition extends :: "nat \<Rightarrow> 'm entry list \<Rightarrow> 'm world \<Rightarrow> 'm world \<Rightarrow> bool" where
  "extends i es w w' \<longleftrightarrow>
     trace w' = (trace w)(i := trace w i @ es) \<and> now w \<le> now w' \<and>
     (\<forall>j. \<exists>new. msgs (if j = i then es else []) @ items (mail w' j) = items (mail w j) @ new)"

lemma extends_trans:
  assumes "extends i es w w'" "extends i fs w' w''"
  shows "extends i (es @ fs) w w''"
proof -
  have "\<exists>new. msgs (if j = i then es @ fs else []) @ items (mail w'' j) = items (mail w j) @ new" for j
  proof -
    obtain a b where "msgs (if j = i then es else []) @ items (mail w' j) = items (mail w j) @ a"
        "msgs (if j = i then fs else []) @ items (mail w'' j) = items (mail w' j) @ b"
      using assms unfolding extends_def by blast
    then have "msgs (if j = i then es @ fs else []) @ items (mail w'' j) = items (mail w j) @ a @ b"
      by (cases "j = i") auto
    then show ?thesis by blast
  qed
  then show ?thesis
    using assms by (auto simp: extends_def)
qed

lemma extends_sends: "sends w w' \<Longrightarrow> extends i [] w w'"
  by (simp add: extends_def sends_items) (simp add: sends_def)

lemma extends_log: "extends i es w w' \<Longrightarrow> msgs [e] = [] \<Longrightarrow> extends i (es @ [e]) w (log_ev i e w')"
proof -
  assume a: "extends i es w w'" "msgs [e] = []"
  then have "msgs (if j = i then es @ [e] else []) = msgs (if j = i then es else [])" for j
    by simp
  then show ?thesis using a(1) by (simp add: extends_def log_ev_def)
qed

lemma extends_drop: "extends (rx c) [EvDrop] w (cell_drop c w)"
  by (auto simp: extends_def cell_drop_def log_ev_def mb_drop_receiver_def)

lemma extends_handle:
  assumes "items (mail w i) = m # ms" "sends (w\<lparr>mail := (mail w)(i := (mail w i)\<lparr>items := ms\<rparr>)\<rparr>) w'"
  shows "extends i [EvHandle m b] w (log_ev i (EvHandle m b) w')"
proof -
  have grow: "\<exists>new. items (mail w' j) = (if j = i then ms else items (mail w j)) @ new" for j
    using sends_items [OF assms(2), of j] by auto
  have "\<exists>new. msgs (if j = i then [EvHandle m b] else []) @ items (mail (log_ev i (EvHandle m b) w') j) =
      items (mail w j) @ new" for j
    using assms(1) grow [of j] by (cases "j = i") (auto simp: log_ev_def)
  then show ?thesis
    using assms(2) by (auto simp: extends_def log_ev_def sends_def)
qed

text \<open>What a poll adds to the trace.\<close>

fun poll_trace :: "poll_outcome \<Rightarrow> 'm entry list \<Rightarrow> bool" where
  "poll_trace Empty es = (es = [])"
| "poll_trace Worked es = (\<exists>m. es = [EvHandle m True] \<or> es = [EvHandle m False, EvRebuild True])"
| "poll_trace Panicked es = (\<exists>m. es = [EvHandle m False] \<or> es = [EvHandle m False, EvRebuild False])"

definition same_cell :: "('s, 'm) cell \<Rightarrow> ('s, 'm) cell \<Rightarrow> bool" where
  "same_cell c c' \<longleftrightarrow> rx c' = rx c \<and> factory c' = factory c \<and> cell_policy c' = cell_policy c"

lemma same_cell_trans: "same_cell a b \<Longrightarrow> same_cell b c \<Longrightarrow> same_cell a c"
  by (simp add: same_cell_def)

lemma same_cell_ok: "same_cell c c' \<Longrightarrow> cell_ok c \<Longrightarrow> cell_ok c'"
  by (simp add: same_cell_def cell_ok_def)

lemma rebuild_sends:
  assumes "user_ok env ops" "\<And>w. sends w (snd (mk w))"
  shows "sends w (snd (rebuild ops mk w))"
proof (cases "mk w")
  case (Pair r w')
  have "sends w w'" using assms(2) [of w] Pair by simp
  moreover have "sends w' (snd (op_restart ops a w'))" for a
    using assms(1) by (simp add: user_ok_def)
  ultimately show ?thesis
    using Pair sends_trans by (cases r) (auto simp: rebuild_def intro: sends_trans)
qed

lemma after_panic_spec:
  assumes "user_ok env ops" "cell_ok c" "after_panic ops c w = (r, c', w')"
  shows "same_cell c c' \<and> (\<exists>es. extends (rx c) es w w' \<and>
    (r = Panicked \<and> (es = [] \<or> es = [EvRebuild False]) \<or> r = Worked \<and> es = [EvRebuild True]))"
proof (cases "factory c")
  case None
  then show ?thesis
    using assms(3) extends_sends [OF sends_refl, of "rx c" w] by (auto simp: after_panic_def same_cell_def)
next
  case (Some mk)
  obtain ok rs where al: "allow_restart (cell_policy c) (now w) (restarts c) = (ok, rs)"
    by fastforce
  obtain a w1 where rb: "rebuild ops mk w = (a, w1)"
    by fastforce
  have "sends w w1"
    using rebuild_sends [OF assms(1), of mk w] assms(2) Some rb by (simp add: cell_ok_def)
  then have "extends (rx c) [EvRebuild b] w (log_ev (rx c) (EvRebuild b) w1)" for b
    using extends_log [OF extends_sends, of w w1 "EvRebuild b" "rx c"] by simp
  then show ?thesis
    using assms(3) Some al rb extends_sends [OF sends_refl, of "rx c" w]
    by (cases a) (auto simp: after_panic_def same_cell_def Let_def split: if_splits)
qed

lemma poll_one_spec:
  assumes "user_ok env ops" "cell_ok c" "poll_one env ops c w = (r, c', w')"
  shows "same_cell c c'" "\<exists>es. poll_trace r es \<and> extends (rx c) es w w'" "r = Empty \<Longrightarrow> items (mail w (rx c)) = []"
proof -
  let ?w = "env w" and ?i = "rx c"
  have env: "sends w ?w"
    using assms(1) by (simp add: user_ok_def)
  have "same_cell c c' \<and> (\<exists>es. poll_trace r es \<and> extends ?i es w w') \<and> (r = Empty \<longrightarrow> items (mail w ?i) = [])"
  proof (cases "items (mail ?w ?i)")
    case Nil
    then have "items (mail w ?i) = []"
      using sends_items [OF env, of ?i] by auto
    then show ?thesis
      using Nil assms(3) extends_sends [OF env, of ?i]
      by (auto simp: poll_one_def mb_try_recv_def Let_def same_cell_def)
  next
    case (Cons m ms)
    let ?w1 = "?w\<lparr>mail := (mail ?w)(?i := (mail ?w ?i)\<lparr>items := ms\<rparr>)\<rparr>"
    obtain a w2 where h: "op_handle ops m (actor c) ?w1 = (a, w2)"
      by fastforce
    have "sends ?w1 w2"
      using assms(1) h by (metis snd_conv user_ok_def)
    then have ext: "extends ?i [EvHandle m b] w (log_ev ?i (EvHandle m b) w2)" for b
      using extends_trans [OF extends_sends [OF env] extends_handle [OF Cons]] by simp
    define c1 where "c1 = c\<lparr>metrics := map_option (record_sample (of_nat (now w2 - now ?w))) (metrics c)\<rparr>"
    have c1: "same_cell c c1" "rx c1 = ?i"
      by (simp_all add: c1_def same_cell_def)
    show ?thesis
    proof (cases a)
      case (Some s)
      then have "r = Worked" "c' = c1\<lparr>actor := s\<rparr>" "w' = log_ev ?i (EvHandle m True) w2"
        using assms(3) Cons h by (auto simp: poll_one_def mb_try_recv_def Let_def c1_def)
      then show ?thesis
        using ext [of True] c1 by (auto simp: same_cell_def)
    next
      case None
      then have "after_panic ops c1 (log_ev ?i (EvHandle m False) w2) = (r, c', w')"
        using assms(3) Cons h by (auto simp: poll_one_def mb_try_recv_def Let_def c1_def)
      from after_panic_spec [OF assms(1) same_cell_ok [OF c1(1) assms(2)] this] c1
      obtain es where "same_cell c1 c'" "extends ?i es (log_ev ?i (EvHandle m False) w2) w'"
          "r = Panicked \<and> (es = [] \<or> es = [EvRebuild False]) \<or> r = Worked \<and> es = [EvRebuild True]"
        by auto
      moreover from this(2) have "extends ?i (EvHandle m False # es) w w'"
        using extends_trans [OF ext [of False]] by fastforce
      ultimately show ?thesis
        using same_cell_trans [OF c1(1)] by fastforce
    qed
  qed
  then show "same_cell c c'" "\<exists>es. poll_trace r es \<and> extends ?i es w w'" "r = Empty \<Longrightarrow> items (mail w ?i) = []"
    by simp_all
qed

subsection \<open>Life cycle\<close>

text \<open>
  The phases an actor goes through. \<open>Broken\<close>: \<open>handle\<close> has panicked. \<open>Failed\<close>: \<open>on_start\<close> or a
  rebuild has. \<open>Stopped\<close>: \<open>on_stop\<close> has run. \<open>Wrong\<close>: a hook was called where it must not be, such as
  \<open>on_stop\<close> on a broken actor or anything after the drop.
\<close>

datatype phase = Fresh | Running | Broken | Failed | Stopped | Dropped | Wrong

fun phase_step :: "phase \<Rightarrow> 'm entry \<Rightarrow> phase" where
  "phase_step Fresh (EvStart b) = (if b then Running else Failed)"
| "phase_step Running (EvHandle m b) = (if b then Running else Broken)"
| "phase_step Broken (EvRebuild b) = (if b then Running else Failed)"
| "phase_step Running (EvStop b) = Stopped"
| "phase_step Broken EvDrop = Dropped"
| "phase_step Failed EvDrop = Dropped"
| "phase_step Stopped EvDrop = Dropped"
| "phase_step p e = Wrong"

definition phase_of :: "'m entry list \<Rightarrow> phase" where
  "phase_of es = foldl phase_step Fresh es"

lemma phase_of_append: "phase_of (es @ fs) = foldl phase_step (phase_of es) fs"
  by (simp add: phase_of_def)

lemma poll_trace_phase:
  "poll_trace r es \<Longrightarrow> foldl phase_step Running es \<in> (if r = Panicked then {Broken, Failed} else {Running})"
  by (cases r) auto

lemma poll_trace_msgs: "poll_trace r es \<Longrightarrow> length (msgs es) = (if r = Empty then 0 else 1)"
  by (cases r) auto

lemma drain_batch_spec:
  assumes "user_ok env ops" "cell_ok c" "drain_batch env ops n c w = (panicked, c', w')"
  shows "same_cell c c' \<and> (\<exists>es. extends (rx c) es w w' \<and> length (msgs es) \<le> n \<and>
    foldl phase_step Running es \<in> (if panicked then {Broken, Failed} else {Running}))"
  using assms(2,3)
proof (induction n arbitrary: c w)
  case 0
  then show ?case
    using extends_sends [OF sends_refl, of "rx c" w] by (auto simp: same_cell_def intro!: exI [of _ "[]"])
next
  case (Suc n)
  obtain r c1 w1 where p: "poll_one env ops c w = (r, c1, w1)"
    by (metis prod_cases3)
  note spec = poll_one_spec [OF assms(1) Suc.prems(1) p]
  obtain es where es: "poll_trace r es" "extends (rx c) es w w1"
    using spec(2) by blast
  show ?case
  proof (cases "r = Worked")
    case True
    then have d: "drain_batch env ops n c1 w1 = (panicked, c', w')"
      using Suc.prems(2) p by simp
    have rx1: "rx c1 = rx c" using spec(1) by (simp add: same_cell_def)
    obtain fs where fs: "same_cell c1 c'" "extends (rx c) fs w1 w'" "length (msgs fs) \<le> n"
        "foldl phase_step Running fs \<in> (if panicked then {Broken, Failed} else {Running})"
      using Suc.IH [OF same_cell_ok [OF spec(1) Suc.prems(1)] d] rx1 by auto
    have "foldl phase_step Running (es @ fs) = foldl phase_step Running fs"
      using poll_trace_phase [OF es(1)] True by simp
    then show ?thesis
      using same_cell_trans [OF spec(1) fs(1)] extends_trans [OF es(2) fs(2)] poll_trace_msgs [OF es(1)] True fs
      by (intro conjI exI [of _ "es @ fs"]) auto
  next
    case False
    then have "c' = c1" "w' = w1" "panicked = (r = Panicked)"
      using Suc.prems(2) p by (cases r; simp)+
    then show ?thesis
      using spec(1) es poll_trace_msgs [OF es(1)] poll_trace_phase [OF es(1)] by auto
  qed
qed

lemma cell_stop_spec: "user_ok env ops \<Longrightarrow> \<exists>b. extends (rx c) [EvStop b] w (cell_stop ops c w)"
proof -
  assume u: "user_ok env ops"
  obtain r w' where s: "op_stop ops (actor c) w = (r, w')" by fastforce
  then have "sends w w'" using u by (metis snd_conv user_ok_def)
  then show ?thesis
    using extends_log [OF extends_sends, of w w' "EvStop (r \<noteq> None)" "rx c"] s by (auto simp: cell_stop_def)
qed

definition visited :: "nat \<Rightarrow> bool \<Rightarrow> bool \<Rightarrow> 'm entry list \<Rightarrow> bool" where
  "visited batch kept waiting es \<longleftrightarrow>
     length (msgs es) \<le> batch \<and> (waiting \<longrightarrow> msgs es \<noteq> []) \<and>
     foldl phase_step Running es = (if kept then Running else Dropped)"

lemma visit_spec:
  assumes "user_ok env ops" "cell_ok c" "1 \<le> batch" "visit env ops batch c (w, d) = (remove, c', w', d')"
  shows "same_cell c c' \<and> (\<exists>es. extends (rx c) es w w' \<and>
    visited (unat batch) (\<not> remove) (items (mail w (rx c)) \<noteq> []) es)"
proof -
  let ?i = "rx c"
  obtain r c1 w1 where p: "poll_one env ops c w = (r, c1, w1)"
    by (metis prod_cases3)
  note spec = poll_one_spec [OF assms(1,2) p]
  obtain es where es: "poll_trace r es" "extends ?i es w w1"
    using spec(2) by blast
  have rx1: "rx c1 = ?i" using spec(1) by (simp add: same_cell_def)
  have b: "1 \<le> unat batch" using assms(3) by (simp add: word_le_nat_alt)
  show ?thesis
  proof (cases r)
    case Worked
    obtain pn c2 w2 where d: "drain_batch env ops (unat batch - 1) c1 w1 = (pn, c2, w2)"
      by (metis prod_cases3)
    obtain fs where fs: "same_cell c1 c2" "extends ?i fs w1 w2" "length (msgs fs) \<le> unat batch - 1"
        "foldl phase_step Running fs \<in> (if pn then {Broken, Failed} else {Running})"
      using drain_batch_spec [OF assms(1) same_cell_ok [OF spec(1) assms(2)] d] rx1 by auto
    have rx2: "rx c2 = ?i" using fs(1) rx1 by (simp add: same_cell_def)
    note ext = extends_trans [OF es(2) fs(2)]
    note drop = extends_trans [OF ext extends_drop [of c2 w2, unfolded rx2]]
    have "foldl phase_step Running (es @ fs) = foldl phase_step Running fs"
      using poll_trace_phase [OF es(1)] Worked by simp
    moreover have "length (msgs es) = 1" "msgs es \<noteq> []"
      using poll_trace_msgs [OF es(1)] Worked by auto
    moreover have "remove = pn" "c' = c2" "w' = (if pn then cell_drop c2 w2 else w2)"
      using assms(4) p d Worked by (auto simp: visit_def split: if_splits)
    ultimately show ?thesis
      using same_cell_trans [OF spec(1) fs(1)] ext drop fs(3,4) b
      by (intro conjI exI [of _ "if pn then (es @ fs) @ [EvDrop] else es @ fs"]) (auto simp: visited_def)
  next
    case Panicked
    have "remove" "c' = c1" "w' = cell_drop c1 w1"
      using assms(4) p Panicked by (auto simp: visit_def)
    then show ?thesis
      using spec(1) extends_trans [OF es(2) extends_drop [of c1 w1, unfolded rx1]] es(1) Panicked b
      by (intro conjI exI [of _ "es @ [EvDrop]"]) (auto simp: visited_def)
  next
    case Empty
    then have nil: "es = []" "items (mail w ?i) = []"
      using es(1) spec(3) by auto
    have env: "sends w1 (env w1)" using assms(1) by (simp add: user_ok_def)
    note ext = extends_trans [OF es(2) extends_sends [OF env], unfolded nil]
    obtain bo where st: "extends ?i [EvStop bo] (env w1) (cell_stop ops c1 (env w1))"
      using cell_stop_spec [OF assms(1), of c1 "env w1"] rx1 by auto
    note stop = extends_trans [OF extends_trans [OF ext st] extends_drop [of c1 "cell_stop ops c1 (env w1)", unfolded rx1]]
    have cs: "c' = c1" "remove = closed_and_empty c1 (env w1)"
        "w' = (if closed_and_empty c1 (env w1) then cell_drop c1 (cell_stop ops c1 (env w1)) else env w1)"
      using assms(4) p Empty by (auto simp: visit_def Let_def split: if_splits)
    show ?thesis
    proof (cases remove)
      case True
      then show ?thesis
        using cs stop spec(1) nil(2) by (intro conjI exI [of _ "[EvStop bo, EvDrop]"]) (auto simp: visited_def)
    next
      case False
      then show ?thesis
        using cs ext spec(1) nil(2) by (intro conjI exI [of _ "[]"]) (auto simp: visited_def)
    qed
  qed
qed

subsection \<open>A pass over the actors\<close>

lemma set_drop_swap_remove:
  assumes "distinct ys" "i < length ys"
  shows "set (drop i (swap_remove ys i)) = set (drop i ys) - {ys ! i}" "distinct (swap_remove ys i)"
    "set (take i (swap_remove ys i)) = set (take i ys)"
proof -
  have m: "mset (drop i ys) = add_mset (ys ! i) (mset (drop i (swap_remove ys i)))"
    using mset_drop_swap_remove [OF assms(2)] .
  have "ys ! i \<notin> set (drop (Suc i) ys)"
    using assms by (metis Cons_nth_drop_Suc distinct.simps(2) distinct_drop)
  moreover have "mset (drop (Suc i) ys) = mset (drop i (swap_remove ys i))"
    using m by (metis Cons_nth_drop_Suc add_mset_add_single add_right_imp_eq assms(2) mset.simps(2))
  moreover have "set (drop i ys) = insert (ys ! i) (set (drop (Suc i) ys))"
    using assms(2) by (metis Cons_nth_drop_Suc list.simps(15))
  ultimately show "set (drop i (swap_remove ys i)) = set (drop i ys) - {ys ! i}"
    using mset_eq_setD by (metis Diff_insert_absorb)
  have "mset ys = add_mset (ys ! i) (mset (swap_remove ys i))"
    using mset_swap_remove [OF assms(2)] assms(2) by simp
  then have "mset ys = mset (ys ! i # swap_remove ys i)" by simp
  then show "distinct (swap_remove ys i)"
    using assms(1) mset_eq_imp_distinct_iff by (metis distinct.simps(2))
  show "set (take i (swap_remove ys i)) = set (take i ys)"
    using take_swap_remove [OF assms(2)] by simp
qed

lemma map_swap_remove: "i < length xs \<Longrightarrow> map g (swap_remove xs i) = swap_remove (map g xs) i"
  by (cases xs rule: rev_cases) (auto simp: swap_remove_def map_butlast map_update list_update_append)

definition passed ::
  "nat \<Rightarrow> nat set \<Rightarrow> 'm world \<Rightarrow> nat \<Rightarrow> ('s, 'm) cell list \<Rightarrow> 'm world \<Rightarrow> (nat \<Rightarrow> 'm entry list) \<Rightarrow> bool" where
  "passed batch K w i xs w' ess \<longleftrightarrow>
     now w \<le> now w' \<and>
     (\<forall>j. trace w' j = trace w j @ ess j) \<and>
     (\<forall>j. \<exists>new. msgs (ess j) @ items (mail w' j) = items (mail w j) @ new) \<and>
     (\<forall>j. if j \<in> set (drop i (map rx xs)) \<or> j \<notin> K then ess j = []
          else visited batch (j \<in> set (take i (map rx xs))) (items (mail w j) \<noteq> []) (ess j))"

definition pass_inv :: "nat \<Rightarrow> nat set \<Rightarrow> 'm world \<Rightarrow> nat \<Rightarrow> ('s, 'm) cell list \<Rightarrow> 'm world \<times> bool \<Rightarrow> bool" where
  "pass_inv batch K w i xs st \<longleftrightarrow>
     distinct (map rx xs) \<and> rx ` set xs \<subseteq> K \<and> (\<forall>c\<in>set xs. cell_ok c) \<and>
     (\<exists>ess. passed batch K w i xs (fst st) ess)"

lemma extends_ess:
  assumes "passed batch K w i xs w1 ess" "extends x es w1 w2" "x \<in> set (drop i (map rx xs))"
  shows "now w \<le> now w2 \<and> (\<forall>j. trace w2 j = trace w j @ (ess(x := es)) j) \<and>
    (\<forall>j. \<exists>new. msgs ((ess(x := es)) j) @ items (mail w2 j) = items (mail w j) @ new)"
proof -
  have nil: "ess x = []" using assms(1,3) by (auto simp: passed_def)
  have "\<exists>new. msgs ((ess(x := es)) j) @ items (mail w2 j) = items (mail w j) @ new" for j
  proof -
    obtain a where a: "msgs (ess j) @ items (mail w1 j) = items (mail w j) @ a"
      using assms(1) unfolding passed_def by blast
    obtain b where b: "msgs (if j = x then es else []) @ items (mail w2 j) = items (mail w1 j) @ b"
      using assms(2) unfolding extends_def by blast
    have "msgs ((ess(x := es)) j) @ items (mail w2 j) = items (mail w j) @ a @ b"
    proof (cases "j = x")
      case True
      then show ?thesis using a b nil by simp
    next
      case False
      then have "msgs (ess j) @ items (mail w2 j) = (msgs (ess j) @ items (mail w1 j)) @ b" using b by simp
      then show ?thesis using a False by simp
    qed
    then show ?thesis by blast
  qed
  moreover have "trace w2 j = trace w j @ (ess(x := es)) j" for j
    using assms(1,2) nil by (simp add: passed_def extends_def)
  ultimately show ?thesis
    using assms(1,2) by (auto simp: passed_def extends_def)
qed

lemma pass_inv_visit:
  assumes "user_ok env ops" "1 \<le> batch" "i < length xs" "pass_inv (unat batch) K w i xs (w1, d)"
    and "visit env ops batch (xs ! i) (w1, d) = (remove, c', w2, d')"
  shows "pass_inv (unat batch) K w (if remove then i else Suc i)
    (if remove then swap_remove xs i else xs[i := c']) (w2, d')"
proof -
  let ?x = "rx (xs ! i)" and ?ids = "map rx xs" and ?ys = "if remove then swap_remove xs i else xs[i := c']"
  obtain ess where dist: "distinct ?ids" and sub: "rx ` set xs \<subseteq> K" and oks: "\<forall>c\<in>set xs. cell_ok c"
    and ess: "passed (unat batch) K w i xs w1 ess"
    using assms(4) by (auto simp: pass_inv_def)
  have ok: "cell_ok (xs ! i)" and xK: "?x \<in> K"
    using oks sub assms(3) by (auto simp: image_subset_iff)
  obtain es where same: "same_cell (xs ! i) c'" and ext: "extends ?x es w1 w2"
    and vis: "visited (unat batch) (\<not> remove) (items (mail w1 ?x) \<noteq> []) es"
    using visit_spec [OF assms(1) ok assms(2,5)] by blast
  have here: "?x \<in> set (drop i ?ids)"
    using assms(3) by (metis Cons_nth_drop_Suc length_map list.set_intros(1) nth_map)
  then have nil: "ess ?x = []"
    using ess by (auto simp: passed_def)
  then have wait: "items (mail w1 ?x) \<noteq> []" if "items (mail w ?x) \<noteq> []"
    using ess that unfolding passed_def by (metis append_is_Nil_conv append_self_conv2 msgs_simps(1))
  have "?ids[i := ?x] = ?ids"
    using assms(3) by (metis list_update_id nth_map)
  then have ids: "map rx ?ys = (if remove then swap_remove ?ids i else ?ids)"
    using same assms(3) by (simp add: map_swap_remove map_update same_cell_def)
  have x_take: "?x \<notin> set (take i ?ids)"
    using dist here by (metis append_take_drop_id disjoint_iff distinct_append)
  have drops: "set (drop (if remove then i else Suc i) (map rx ?ys)) = set (drop i ?ids) - {?x}"
      "set (take (if remove then i else Suc i) (map rx ?ys)) = (if remove then set (take i ?ids) else insert ?x (set (take i ?ids)))"
  proof -
    have "set (drop i ?ids) = insert ?x (set (drop (Suc i) ?ids))" "?x \<notin> set (drop (Suc i) ?ids)"
      using assms(3) dist by (metis Cons_nth_drop_Suc distinct.simps(2) distinct_drop length_map list.simps(15) nth_map)+
    then show "set (drop (if remove then i else Suc i) (map rx ?ys)) = set (drop i ?ids) - {?x}"
      using set_drop_swap_remove(1) [OF dist] assms(3) unfolding ids by simp
    show "set (take (if remove then i else Suc i) (map rx ?ys)) = (if remove then set (take i ?ids) else insert ?x (set (take i ?ids)))"
      using set_drop_swap_remove(3) [OF dist] assms(3) unfolding ids by (simp add: take_Suc_conv_app_nth)
  qed
  have "passed (unat batch) K w (if remove then i else Suc i) ?ys w2 (ess(?x := es))"
  proof -
    have "if j \<in> set (drop i ?ids) - {?x} \<or> j \<notin> K then (ess(?x := es)) j = []
        else visited (unat batch) (j \<in> (if remove then set (take i ?ids) else insert ?x (set (take i ?ids))))
               (items (mail w j) \<noteq> []) ((ess(?x := es)) j)" for j
    proof (cases "j = ?x")
      case True
      then show ?thesis using vis wait xK x_take by (auto simp: visited_def)
    next
      case False
      then show ?thesis using ess unfolding passed_def by (auto split: if_splits)
    qed
    then show ?thesis
      using extends_ess [OF ess ext here] unfolding passed_def drops by blast
  qed
  moreover have "distinct (map rx ?ys)"
    using dist set_drop_swap_remove(2) [OF dist] assms(3) by (simp add: ids)
  moreover have "rx ` set ?ys \<subseteq> K \<and> (\<forall>c\<in>set ?ys. cell_ok c)"
  proof -
    have "set (swap_remove xs i) \<subseteq> set xs"
      using mset_swap_remove [OF assms(3)] by (metis diff_subset_eq_self set_mset_mono set_mset_mset)
    moreover have "set (xs[i := c']) \<subseteq> insert c' (set xs)"
      by (rule set_update_subset_insert)
    ultimately show ?thesis
      using sub oks xK same same_cell_ok [OF same ok] by (auto simp: same_cell_def image_subset_iff)
  qed
  ultimately show ?thesis unfolding pass_inv_def by auto
qed

lemma run_pass_spec:
  assumes "user_ok env ops" "1 \<le> batch" "distinct (map rx cells)" "\<forall>c\<in>set cells. cell_ok c"
    and "run_pass env ops batch cells w = (cells', w', did_work)"
  shows "pass_inv (unat batch) (rx ` set cells) w (length cells') cells' (w', did_work)"
proof (rule scan_invariant [where f = "visit env ops batch" and i = 0 and xs = cells and s = "(w, False)"])
  show "scan (visit env ops batch) 0 cells (w, False) = (cells', w', did_work)"
    using assms(5) by (simp add: run_pass_def)
  show "pass_inv (unat batch) (rx ` set cells) w 0 cells (w, False)"
    using assms(3,4) by (auto simp: pass_inv_def passed_def intro!: exI [of _ "\<lambda>_. []"])
next
  fix i xs s x s'
  assume "i < length xs" "pass_inv (unat batch) (rx ` set cells) w i xs s"
    "visit env ops batch (xs ! i) s = (True, x, s')"
  then show "pass_inv (unat batch) (rx ` set cells) w i (swap_remove xs i) s'"
    using pass_inv_visit [OF assms(1,2), of i xs _ w "fst s" "snd s" True x "fst s'" "snd s'"] by simp
next
  fix i xs s x s'
  assume "i < length xs" "pass_inv (unat batch) (rx ` set cells) w i xs s"
    "visit env ops batch (xs ! i) s = (False, x, s')"
  then show "pass_inv (unat batch) (rx ` set cells) w (Suc i) (xs[i := x]) s'"
    using pass_inv_visit [OF assms(1,2), of i xs _ w "fst s" "snd s" False x "fst s'" "snd s'"] by simp
qed simp

lemma run_pass_traces:
  assumes "user_ok env ops" "1 \<le> batch" "distinct (map rx cells)" "\<forall>c\<in>set cells. cell_ok c"
    and "run_pass env ops batch cells w = (cells', w', did_work)"
  obtains ess where "distinct (map rx cells')" "rx ` set cells' \<subseteq> rx ` set cells" "\<forall>c\<in>set cells'. cell_ok c"
    "\<And>j. trace w' j = trace w j @ ess j"
    "\<And>j. \<exists>new. msgs (ess j) @ items (mail w' j) = items (mail w j) @ new"
    "\<And>j. j \<notin> rx ` set cells \<Longrightarrow> ess j = []"
    "\<And>j. j \<in> rx ` set cells \<Longrightarrow> visited (unat batch) (j \<in> rx ` set cells') (items (mail w j) \<noteq> []) (ess j)"
    "now w \<le> now w'"
proof -
  have inv: "distinct (map rx cells')" "rx ` set cells' \<subseteq> rx ` set cells" "\<forall>c\<in>set cells'. cell_ok c"
    and ex: "\<exists>ess. passed (unat batch) (rx ` set cells) w (length cells') cells' w' ess"
    using run_pass_spec [OF assms] by (simp_all add: pass_inv_def)
  then obtain ess where ess: "passed (unat batch) (rx ` set cells) w (length cells') cells' w' ess"
    by blast
  have "visited (unat batch) (j \<in> rx ` set cells') (items (mail w j) \<noteq> []) (ess j)" if "j \<in> rx ` set cells" for j
    using ess that unfolding passed_def by (auto dest: spec [of _ j])
  then show thesis
    by (intro that [of ess]) (use inv ess in \<open>auto simp: passed_def\<close>)
qed

subsection \<open>Whole runs of a core\<close>

definition evolves :: "'m world \<Rightarrow> 'm world \<Rightarrow> bool" where
  "evolves w w' \<longleftrightarrow> now w \<le> now w' \<and>
     (\<forall>j. \<exists>es new. trace w' j = trace w j @ es \<and> msgs es @ items (mail w' j) = items (mail w j) @ new)"

lemma evolves_refl [simp]: "evolves w w"
  by (auto simp: evolves_def intro: exI [of _ "[]"])

lemma evolves_trans:
  assumes "evolves u v" "evolves v w"
  shows "evolves u w"
proof -
  have "\<exists>es new. trace w j = trace u j @ es \<and> msgs es @ items (mail w j) = items (mail u j) @ new" for j
  proof -
    obtain es a fs b where e: "trace v j = trace u j @ es" "msgs es @ items (mail v j) = items (mail u j) @ a"
        "trace w j = trace v j @ fs" "msgs fs @ items (mail w j) = items (mail v j) @ b"
      using assms unfolding evolves_def by meson
    then have "msgs (es @ fs) @ items (mail w j) = items (mail u j) @ a @ b"
      by (metis append.assoc msgs_simps(2))
    then show ?thesis using e by (metis append.assoc)
  qed
  then show ?thesis using assms by (auto simp: evolves_def)
qed

lemma extends_evolves: "extends i es w w' \<Longrightarrow> evolves w w'"
proof -
  assume e: "extends i es w w'"
  have "\<exists>es' new. trace w' j = trace w j @ es' \<and> msgs es' @ items (mail w' j) = items (mail w j) @ new" for j
    using e unfolding extends_def by (intro exI [of _ "if j = i then es else []"]) auto
  then show ?thesis using e by (auto simp: evolves_def extends_def)
qed

lemma evolves_flow: "evolves w w' \<Longrightarrow> \<exists>new. handled w' j @ items (mail w' j) = handled w j @ items (mail w j) @ new"
  unfolding evolves_def handled_def by (metis append.assoc msgs_simps(2))

text \<open>
  The live actors run, all others are fresh or dropped, and mailboxes still to be added are unused.
\<close>

definition life_inv :: "('s, 'm) cell list \<Rightarrow> 'm world \<Rightarrow> nat list \<Rightarrow> bool" where
  "life_inv cells w fut \<longleftrightarrow>
     distinct (map rx cells) \<and> (\<forall>c\<in>set cells. cell_ok c) \<and>
     (\<forall>i. if i \<in> rx ` set cells then phase_of (trace w i) = Running
          else phase_of (trace w i) \<in> {Fresh, Dropped}) \<and>
     distinct fut \<and> (\<forall>i\<in>set fut. trace w i = [])"

lemma life_inv_live: "life_inv cells w fut \<Longrightarrow> i \<in> rx ` set cells \<Longrightarrow> phase_of (trace w i) = Running"
  unfolding life_inv_def by metis

lemma life_inv_fut: "life_inv cells w fut \<Longrightarrow> i \<in> set fut \<Longrightarrow> i \<notin> rx ` set cells"
proof
  assume "life_inv cells w fut" "i \<in> set fut" "i \<in> rx ` set cells"
  then have "phase_of (trace w i) = Running" "trace w i = []"
    unfolding life_inv_def by metis+
  then show False by (simp add: phase_of_def)
qed

fun adds :: "('s, 'm) control list \<Rightarrow> ('s, 'm) cell list" where
  "adds [] = []"
| "adds (Add c # cs) = c # adds cs"
| "adds (Shutdown # cs) = adds cs"

lemma extends_trace: "extends i es w w' \<Longrightarrow> trace w' j = (if j = i then trace w i @ es else trace w j)"
  by (simp add: extends_def)

lemma cell_start_spec:
  assumes "user_ok env ops" "cell_start ops c w = (ok, c', w')"
  shows "same_cell c c'" "extends (rx c) [EvStart ok] w w'"
proof -
  obtain r w1 where s: "op_start ops (actor c) w = (r, w1)" by fastforce
  have "sends w w1" using assms(1) s by (metis snd_conv user_ok_def)
  then have "extends (rx c) [EvStart b] w (log_ev (rx c) (EvStart b) w1)" for b
    using extends_log [OF extends_sends, of w w1 "EvStart b" "rx c"] by simp
  then show "same_cell c c'" "extends (rx c) [EvStart ok] w w'"
    using assms(2) s by (auto simp: cell_start_def same_cell_def split: option.splits)
qed

lemma do_control_spec:
  assumes "user_ok env ops" "\<forall>c\<in>set (adds cs). cell_ok c"
    and "life_inv (actors k) w (map rx (adds cs) @ fut)" "do_control ops cs disc k w = (act, k', w')"
  shows "life_inv (actors k') w' fut \<and> evolves w w' \<and>
    (shutting_down k' \<longleftrightarrow> shutting_down k \<or> Shutdown \<in> set cs \<or> disc) \<and> idle_count k' = idle_count k"
  using assms(2-4)
proof (induction cs arbitrary: k w act)
  case Nil
  then show ?case by auto
next
  case (Cons x cs)
  show ?case
  proof (cases x)
    case Shutdown
    then show ?thesis using Cons.IH [of "k\<lparr>shutting_down := True\<rparr>" w] Cons.prems by auto
  next
    case (Add c)
    obtain ok c1 w1 where st: "cell_start ops c w = (ok, c1, w1)"
      by (metis prod_cases3)
    note spec = cell_start_spec [OF assms(1) st]
    have rx1: "rx c1 = rx c" using spec(1) by (simp add: same_cell_def)
    have ok1: "cell_ok c1" using same_cell_ok [OF spec(1)] Cons.prems(1) Add by simp
    have inv: "life_inv (actors k) w (rx c # map rx (adds cs) @ fut)"
      using Cons.prems(2) Add by simp
    have new: "rx c \<notin> rx ` set (actors k)" "trace w (rx c) = []"
      using life_inv_fut [OF inv] inv by (auto simp: life_inv_def)
    let ?k = "if ok then k\<lparr>actors := actors k @ [c1]\<rparr> else k" and ?w = "if ok then w1 else cell_drop c1 w1"
    have drop: "extends (rx c) [EvStart False, EvDrop] w (cell_drop c1 w1)" if "\<not> ok"
      using extends_trans [OF spec(2) extends_drop [of c1 w1, unfolded rx1]] that by simp
    then have ext: "extends (rx c) (if ok then [EvStart True] else [EvStart False, EvDrop]) w ?w"
      using spec(2) by auto
    have tr: "trace ?w j = (if j = rx c then (if ok then [EvStart True] else [EvStart False, EvDrop]) else trace w j)" for j
      using extends_trace [OF ext, of j] new(2) by simp
    have "life_inv (actors ?k) ?w (map rx (adds cs) @ fut)"
      using inv new ok1 rx1 unfolding life_inv_def tr
      by (auto simp: phase_of_def split: if_splits)
    moreover obtain a where "do_control ops cs disc ?k ?w = (a, k', w')"
      using Cons.prems(3) Add st by (auto split: prod.splits)
    ultimately show ?thesis
      using Cons.IH [of ?k ?w a] Cons.prems(1) Add evolves_trans [OF extends_evolves [OF ext]] by auto
  qed
qed

lemma run_pass_life:
  assumes "user_ok env ops" "1 \<le> batch" "life_inv cells w fut"
    and "run_pass env ops batch cells w = (cells', w', did_work)" "set fut \<inter> rx ` set cells = {}"
  shows "life_inv cells' w' fut \<and> evolves w w'"
proof -
  have d: "distinct (map rx cells)" "\<forall>c\<in>set cells. cell_ok c"
    using assms(3) by (simp_all add: life_inv_def)
  obtain ess where e: "distinct (map rx cells')" "rx ` set cells' \<subseteq> rx ` set cells" "\<forall>c\<in>set cells'. cell_ok c"
      "\<And>j. trace w' j = trace w j @ ess j"
      "\<And>j. \<exists>new. msgs (ess j) @ items (mail w' j) = items (mail w j) @ new"
      "\<And>j. j \<notin> rx ` set cells \<Longrightarrow> ess j = []"
      "\<And>j. j \<in> rx ` set cells \<Longrightarrow> visited (unat batch) (j \<in> rx ` set cells') (items (mail w j) \<noteq> []) (ess j)"
      "now w \<le> now w'"
    using run_pass_traces [OF assms(1,2) d assms(4)] by blast
  have "if i \<in> rx ` set cells' then phase_of (trace w' i) = Running else phase_of (trace w' i) \<in> {Fresh, Dropped}" for i
  proof (cases "i \<in> rx ` set cells")
    case True
    then have "phase_of (trace w i) = Running"
      using life_inv_live [OF assms(3)] by blast
    then show ?thesis
      using e(7) [OF True] by (simp add: e(4) phase_of_append visited_def)
  next
    case False
    then have "i \<notin> rx ` set cells'" "phase_of (trace w i) \<in> {Fresh, Dropped}"
      using e(2) assms(3) unfolding life_inv_def by (auto split: if_splits)
    then show ?thesis using e(4,6) False by simp
  qed
  moreover have "trace w' i = []" if "i \<in> set fut" for i
    using that assms(3,5) e(4,6) [of i] by (auto simp: life_inv_def)
  moreover have "evolves w w'"
    using e(4,5,8) unfolding evolves_def by blast
  ultimately show ?thesis
    using e(1,3) assms(3) unfolding life_inv_def by blast
qed

definition drained :: "('s, 'm) cell \<Rightarrow> 'm world \<Rightarrow> bool \<times> ('s, 'm) cell \<times> 'm world \<Rightarrow> bool" where
  "drained c w r \<longleftrightarrow> same_cell c (fst (snd r)) \<and> (\<exists>es. extends (rx c) es w (snd (snd r)) \<and>
     foldl phase_step Running es \<in> (if fst r then {Broken, Failed} else {Running}))"

lemma drain_all_spec:
  assumes "drain_all env ops c w = Some r"
  shows "user_ok env ops \<longrightarrow> cell_ok c \<longrightarrow> drained c w r"
proof (rule drain_all.raw_induct [where P = "\<lambda>env ops c w r. user_ok env ops \<longrightarrow> cell_ok c \<longrightarrow> drained c w r", OF _ assms],
    intro impI)
  fix f :: "('b world \<Rightarrow> 'b world) \<Rightarrow> ('a, 'b) actor_ops \<Rightarrow> ('a, 'b) cell \<Rightarrow> 'b world \<Rightarrow> (bool \<times> ('a, 'b) cell \<times> 'b world) option"
    and env ops c w r
  assume IH: "\<And>env ops c w r. f env ops c w = Some r \<Longrightarrow> user_ok env ops \<longrightarrow> cell_ok c \<longrightarrow> drained c w r"
    and eq: "(case poll_one env ops c w of
        (Worked, c', w') \<Rightarrow> f env ops c' w' | (Empty, c', w') \<Rightarrow> Some (False, c', w')
      | (Panicked, c', w') \<Rightarrow> Some (True, c', w')) = Some r"
    and u: "user_ok env ops" and c: "cell_ok c"
  obtain o1 c1 w1 where p: "poll_one env ops c w = (o1, c1, w1)"
    by (metis prod_cases3)
  note spec = poll_one_spec [OF u c p]
  obtain es where es: "poll_trace o1 es" "extends (rx c) es w w1"
    using spec(2) by blast
  have rx1: "rx c1 = rx c" using spec(1) by (simp add: same_cell_def)
  show "drained c w r"
    unfolding drained_def
  proof (cases "o1 = Worked")
    case True
    then have "f env ops c1 w1 = Some r" using eq p by simp
    from IH [OF this] u same_cell_ok [OF spec(1) c] rx1
    obtain fs where fs: "same_cell c1 (fst (snd r))" "extends (rx c) fs w1 (snd (snd r))"
        "foldl phase_step Running fs \<in> (if fst r then {Broken, Failed} else {Running})"
      by (auto simp: drained_def)
    have "foldl phase_step Running (es @ fs) = foldl phase_step Running fs"
      using poll_trace_phase [OF es(1)] True by simp
    then show "same_cell c (fst (snd r)) \<and> (\<exists>es. extends (rx c) es w (snd (snd r)) \<and>
        foldl phase_step Running es \<in> (if fst r then {Broken, Failed} else {Running}))"
      using same_cell_trans [OF spec(1) fs(1)] extends_trans [OF es(2) fs(2)] fs(3) by metis
  next
    case False
    then have "r = (o1 = Panicked, c1, w1)"
      using eq p by (cases o1) auto
    then show "same_cell c (fst (snd r)) \<and> (\<exists>es. extends (rx c) es w (snd (snd r)) \<and>
        foldl phase_step Running es \<in> (if fst r then {Broken, Failed} else {Running}))"
      using spec(1) es poll_trace_phase [OF es(1)] by auto
  qed
qed

lemma shut_down_spec:
  assumes "user_ok env ops" "life_inv (cells :: ('s, 'm) cell list) w fut" "shut_down env ops cells w = Some w'"
  shows "life_inv ([] :: ('s, 'm) cell list) w' fut \<and> evolves w w'"
  using assms(2,3)
proof (induction cells arbitrary: w)
  case Nil
  then show ?case by simp
next
  case (Cons c cs)
  obtain pn c1 w1 where d: "drain_all env ops c w = Some (pn, c1, w1)"
    using Cons.prems(2) by (auto split: option.splits)
  have ok: "cell_ok c" using Cons.prems(1) by (simp add: life_inv_def)
  obtain es where es: "same_cell c c1" "extends (rx c) es w w1"
      "foldl phase_step Running es \<in> (if pn then {Broken, Failed} else {Running})"
    using drain_all_spec [OF d] assms(1) ok by (auto simp: drained_def)
  have rx1: "rx c1 = rx c" using es(1) by (simp add: same_cell_def)
  let ?w = "cell_drop c1 (if pn then w1 else cell_stop ops c1 w1)"
  have "\<exists>fs. extends (rx c) fs w ?w \<and> foldl phase_step Running fs = Dropped"
  proof (cases pn)
    case True
    then show ?thesis
      using extends_trans [OF es(2) extends_drop [of c1 w1, unfolded rx1]] es(3)
      by (intro exI [of _ "es @ [EvDrop]"]) auto
  next
    case False
    obtain b where "extends (rx c) [EvStop b] w1 (cell_stop ops c1 w1)"
      using cell_stop_spec [OF assms(1), of c1 w1] rx1 by auto
    from extends_trans [OF extends_trans [OF es(2) this] extends_drop [of c1 "cell_stop ops c1 w1", unfolded rx1]]
    show ?thesis
      using False es(3) by (intro exI [of _ "(es @ [EvStop b]) @ [EvDrop]"]) auto
  qed
  then obtain fs where fs: "extends (rx c) fs w ?w" "foldl phase_step Running fs = Dropped"
    by blast
  have run: "phase_of (trace w (rx c)) = Running"
    using life_inv_live [OF Cons.prems(1)] by simp
  have "rx c \<notin> set fut"
    using life_inv_fut [OF Cons.prems(1)] by auto
  then have "life_inv cs ?w fut"
    using Cons.prems(1) run fs(2) unfolding life_inv_def extends_trace [OF fs(1)]
    by (auto simp: phase_of_append split: if_splits)
  moreover have "shut_down env ops cs ?w = Some w'"
    using Cons.prems(2) d by simp
  ultimately show ?case
    using Cons.IH [of ?w] evolves_trans [OF extends_evolves [OF fs(1)]] by blast
qed

definition all_adds :: "(('s, 'm) control list \<times> bool) list \<Rightarrow> ('s, 'm) cell list" where
  "all_adds runs = concat (map (adds \<circ> fst) runs)"

text \<open>What holds of the actors and the world when the loop is left, or after the given iterations.\<close>

definition run_ok :: "'m world \<Rightarrow> nat list \<Rightarrow> ('s, 'm) core \<times> 'm world + 'm world \<Rightarrow> bool" where
  "run_ok w fut r \<longleftrightarrow>
     (case r of
        Inl (k, w') \<Rightarrow> life_inv (actors k) w' fut \<and> evolves w w'
      | Inr w' \<Rightarrow> life_inv ([] :: ('s, 'm) cell list) w' fut \<and> evolves w w')"

lemma run_ok_evolves: "evolves u w \<Longrightarrow> run_ok w fut r \<Longrightarrow> run_ok u fut r"
  using evolves_trans by (auto simp: run_ok_def split: sum.splits prod.splits)

lemma core_iteration_spec:
  assumes "user_ok env ops" "1 \<le> pol_batch pol" "\<forall>c\<in>set (adds cs). cell_ok c"
    and "life_inv (actors k) w (map rx (adds cs) @ fut)"
    and "core_iteration env ops pol cs disc k w = Some r"
  shows "run_ok w fut (case r of Inl (k', w', _) \<Rightarrow> Inl (k', w') | Inr w' \<Rightarrow> Inr w')"
proof -
  obtain ca k1 w1 where c: "do_control ops cs disc k w = (ca, k1, w1)"
    by (metis prod_cases3)
  have l1: "life_inv (actors k1) w1 fut" "evolves w w1"
    using do_control_spec [OF assms(1,3,4) c] by auto
  obtain cells w2 dw where p: "run_pass env ops (pol_batch pol) (actors k1) w1 = (cells, w2, dw)"
    by (metis prod_cases3)
  have "set fut \<inter> rx ` set (actors k1) = {}"
    using life_inv_fut [OF l1(1)] by blast
  then have l2: "life_inv cells w2 fut" "evolves w w2"
    using run_pass_life [OF assms(1,2) l1(1) p] evolves_trans [OF l1(2)] by auto
  show ?thesis
  proof (cases "shutting_down k1")
    case True
    then obtain w3 where "shut_down env ops cells w2 = Some w3" "r = Inr w3"
      using assms(5) c p by (auto simp: core_iteration_def)
    then show ?thesis
      using shut_down_spec [OF assms(1) l2(1)] evolves_trans [OF l2(2)] by (auto simp: run_ok_def)
  next
    case False
    then show ?thesis
      using assms(5) c p l2 by (auto simp: core_iteration_def run_ok_def split: if_splits option.splits)
  qed
qed

lemma core_loop_spec:
  assumes "user_ok env ops" "1 \<le> pol_batch pol" "\<forall>c\<in>set (all_adds runs). cell_ok c"
    and "life_inv (actors k) w (map rx (all_adds runs))" "core_loop env ops pol runs k w = Some r"
  shows "run_ok w [] r"
  using assms(3-5)
proof (induction runs arbitrary: k w)
  case Nil
  then show ?case by (auto simp: all_adds_def run_ok_def)
next
  case (Cons x runs)
  obtain cs disc where x: "x = (cs, disc)" by fastforce
  obtain r1 where it: "core_iteration env ops pol cs disc k w = Some r1"
    using Cons.prems(3) x by (auto split: option.splits)
  have "life_inv (actors k) w (map rx (adds cs) @ map rx (all_adds runs))"
    using Cons.prems(2) x by (simp add: all_adds_def)
  from core_iteration_spec [OF assms(1,2) _ this it] Cons.prems(1) x
  have ok: "run_ok w (map rx (all_adds runs)) (case r1 of Inl (k', w', _) \<Rightarrow> Inl (k', w') | Inr w' \<Rightarrow> Inr w')"
    by (simp add: all_adds_def)
  show ?case
  proof (cases r1)
    case (Inr w')
    then have "r = Inr w'" using Cons.prems(3) x it by simp
    then show ?thesis using ok Inr by (simp add: run_ok_def life_inv_def)
  next
    case (Inl y)
    obtain k' w' a where y: "y = (k', w', a)" by (metis prod_cases3)
    have l: "life_inv (actors k') w' (map rx (all_adds runs))" "evolves w w'"
      using ok Inl y by (simp_all add: run_ok_def)
    have "core_loop env ops pol runs k' w' = Some r"
      using Cons.prems(3) x it Inl y by simp
    from run_ok_evolves [OF l(2) Cons.IH [OF _ l(1) this]] Cons.prems(1) show ?thesis
      by (simp add: all_adds_def)
  qed
qed

subsection \<open>Shutdown without new messages\<close>

definition quiet :: "'m world \<Rightarrow> 'm world \<Rightarrow> bool" where
  "quiet w w' \<longleftrightarrow> (\<forall>i. items (mail w' i) = items (mail w i)) \<and> trace w' = trace w"

definition user_quiet :: "('m world \<Rightarrow> 'm world) \<Rightarrow> ('s, 'm) actor_ops \<Rightarrow> bool" where
  "user_quiet env ops \<longleftrightarrow>
     (\<forall>w. quiet w (env w)) \<and> (\<forall>m s w. quiet w (snd (op_handle ops m s w))) \<and>
     (\<forall>s w. quiet w (snd (op_restart ops s w))) \<and> (\<forall>s w. quiet w (snd (op_stop ops s w)))"

definition factory_quiet :: "('s, 'm) cell \<Rightarrow> bool" where
  "factory_quiet c \<longleftrightarrow> (case factory c of None \<Rightarrow> True | Some mk \<Rightarrow> (\<forall>w. quiet w (snd (mk w))))"

text \<open>The last thing the actor did was to panic for good.\<close>

definition gave_up :: "'m entry list \<Rightarrow> bool" where
  "gave_up es \<longleftrightarrow> (\<exists>fs m. es = fs @ [EvHandle m False] \<or> es = fs @ [EvHandle m False, EvRebuild False])"

lemma after_panic_quiet:
  assumes "user_quiet env ops" "factory_quiet c" "after_panic ops c w = (r, c', w')"
  shows "items (mail w' i) = items (mail w i) \<and> handled w' i = handled w i \<and> same_cell c c' \<and> r \<noteq> Empty \<and>
    (i \<noteq> rx c \<longrightarrow> trace w' i = trace w i) \<and>
    (r = Panicked \<longrightarrow> trace w' (rx c) \<in> {trace w (rx c), trace w (rx c) @ [EvRebuild False]})"
proof (cases "factory c")
  case None
  then show ?thesis using assms(3) by (auto simp: after_panic_def same_cell_def)
next
  case (Some mk)
  have "quiet w (snd (mk w))" "\<And>a. quiet (snd (mk w)) (snd (op_restart ops a (snd (mk w))))"
    using assms(1,2) Some by (auto simp: factory_quiet_def user_quiet_def)
  then have "quiet w (snd (rebuild ops mk w))"
    by (auto simp: rebuild_def quiet_def split: prod.split option.split)
  then show ?thesis
    using assms(3) Some
    by (auto simp: after_panic_def same_cell_def quiet_def handled_def log_ev_def Let_def split: prod.splits if_splits option.splits)
qed

lemma poll_one_quiet:
  assumes "user_quiet env ops" "factory_quiet c" "poll_one env ops c w = (r, c', w')"
  shows "same_cell c c'" "\<And>j. j \<noteq> rx c \<Longrightarrow> items (mail w' j) = items (mail w j) \<and> trace w' j = trace w j"
    "items (mail w (rx c)) = [] \<Longrightarrow> r = Empty \<and> items (mail w' (rx c)) = [] \<and> handled w' (rx c) = handled w (rx c)"
    "items (mail w (rx c)) = m # ms \<Longrightarrow> r \<noteq> Empty \<and> items (mail w' (rx c)) = ms \<and>
      handled w' (rx c) = handled w (rx c) @ [m]"
    "r = Panicked \<Longrightarrow> gave_up (trace w' (rx c))"
proof -
  let ?w = "env w" and ?i = "rx c"
  have env: "items (mail ?w j) = items (mail w j)" "trace ?w = trace w" for j
    using assms(1) by (auto simp: user_quiet_def quiet_def)
  have "same_cell c c' \<and> (\<forall>j. j \<noteq> ?i \<longrightarrow> items (mail w' j) = items (mail w j) \<and> trace w' j = trace w j) \<and>
    (items (mail w ?i) = [] \<longrightarrow> r = Empty \<and> items (mail w' ?i) = [] \<and> handled w' ?i = handled w ?i) \<and>
    (\<forall>m ms. items (mail w ?i) = m # ms \<longrightarrow> r \<noteq> Empty \<and> items (mail w' ?i) = ms \<and> handled w' ?i = handled w ?i @ [m]) \<and>
    (r = Panicked \<longrightarrow> gave_up (trace w' ?i))"
  proof (cases "items (mail w ?i)")
    case Nil
    then show ?thesis
      using assms(3) env by (auto simp: poll_one_def mb_try_recv_def Let_def same_cell_def handled_def)
  next
    case (Cons m ms)
    let ?w1 = "?w\<lparr>mail := (mail ?w)(?i := (mail ?w ?i)\<lparr>items := ms\<rparr>)\<rparr>"
    obtain a w2 where h: "op_handle ops m (actor c) ?w1 = (a, w2)"
      by fastforce
    have "quiet ?w1 w2"
      using assms(1) h unfolding user_quiet_def by (metis snd_conv)
    then have w2: "items (mail w2 j) = (if j = ?i then ms else items (mail w j))" "trace w2 j = trace w j"
        "handled (log_ev ?i (EvHandle m b) w2) ?i = handled w ?i @ [m]" for j b
      using env by (auto simp: quiet_def handled_def log_ev_def)
    define c1 where "c1 = c\<lparr>metrics := map_option (record_sample (of_nat (now w2 - now ?w))) (metrics c)\<rparr>"
    have c1: "same_cell c c1" "factory_quiet c1" "rx c1 = ?i"
      using assms(2) by (simp_all add: c1_def same_cell_def factory_quiet_def)
    show ?thesis
    proof (cases a)
      case (Some s)
      then have "r = Worked" "c' = c1\<lparr>actor := s\<rparr>" "w' = log_ev ?i (EvHandle m True) w2"
        using assms(3) Cons env h by (auto simp: poll_one_def mb_try_recv_def Let_def c1_def)
      then show ?thesis
        using w2 c1 Cons by (auto simp: same_cell_def log_ev_def)
    next
      case None
      let ?v = "log_ev ?i (EvHandle m False) w2"
      have ap: "after_panic ops c1 ?v = (r, c', w')"
        using None assms(3) Cons env h by (auto simp: poll_one_def mb_try_recv_def Let_def c1_def)
      note q = after_panic_quiet [OF assms(1) c1(2) ap, unfolded c1(3)]
      have t: "trace ?v ?i = trace w ?i @ [EvHandle m False]" "\<And>j. j \<noteq> ?i \<Longrightarrow> trace ?v j = trace w j" by (simp_all add: log_ev_def w2(2))
      have "gave_up (trace w' ?i)" if "r = Panicked"
        using q [of ?i] that unfolding gave_up_def t(1) by auto
      then show ?thesis
        using q w2 t(2) Cons same_cell_trans [OF c1(1)] by auto
    qed
  qed
  then show "same_cell c c'" "\<And>j. j \<noteq> ?i \<Longrightarrow> items (mail w' j) = items (mail w j) \<and> trace w' j = trace w j"
    "items (mail w ?i) = [] \<Longrightarrow> r = Empty \<and> items (mail w' ?i) = [] \<and> handled w' ?i = handled w ?i"
    "items (mail w ?i) = m # ms \<Longrightarrow> r \<noteq> Empty \<and> items (mail w' ?i) = ms \<and> handled w' ?i = handled w ?i @ [m]"
    "r = Panicked \<Longrightarrow> gave_up (trace w' ?i)"
    by blast+
qed

lemma drain_all_quiet:
  assumes "user_quiet env ops" "factory_quiet c"
  shows "\<exists>pn c' w'. drain_all env ops c w = Some (pn, c', w') \<and> same_cell c c' \<and>
    (\<forall>j. j \<noteq> rx c \<longrightarrow> items (mail w' j) = items (mail w j) \<and> trace w' j = trace w j) \<and>
    handled w' (rx c) @ items (mail w' (rx c)) = handled w (rx c) @ items (mail w (rx c)) \<and>
    (if pn then gave_up (trace w' (rx c)) else items (mail w' (rx c)) = [])"
  using assms(2)
proof (induction "items (mail w (rx c))" arbitrary: c w)
  case Nil
  obtain r c1 w1 where p: "poll_one env ops c w = (r, c1, w1)"
    by (metis prod_cases3)
  note q = poll_one_quiet [OF assms(1) Nil.prems p]
  show ?case
    using p q(1,2) q(3) Nil.hyps [symmetric]
    by (intro exI [of _ False] exI [of _ c1] exI [of _ w1]) (simp add: drain_all.simps [of env ops c w])
next
  case (Cons m ms)
  obtain r c1 w1 where p: "poll_one env ops c w = (r, c1, w1)"
    by (metis prod_cases3)
  note q = poll_one_quiet [OF assms(1) Cons.prems p]
  note q4 = q(4) [OF Cons.hyps(2) [symmetric]]
  have rx1: "rx c1 = rx c" and fq: "factory_quiet c1"
    using q(1) Cons.prems by (simp_all add: same_cell_def factory_quiet_def)
  show ?case
  proof (cases r)
    case Worked
    have "ms = items (mail w1 (rx c1))" using q4 rx1 by simp
    from Cons.hyps(1) [OF this fq]
    obtain pn c' w' where d: "drain_all env ops c1 w1 = Some (pn, c', w')" "same_cell c1 c'"
        "\<forall>j. j \<noteq> rx c \<longrightarrow> items (mail w' j) = items (mail w1 j) \<and> trace w' j = trace w1 j"
        "handled w' (rx c) @ items (mail w' (rx c)) = handled w1 (rx c) @ items (mail w1 (rx c))"
        "if pn then gave_up (trace w' (rx c)) else items (mail w' (rx c)) = []"
      unfolding rx1 by blast
    have "drain_all env ops c w = Some (pn, c', w')"
      using p d(1) Worked by (simp add: drain_all.simps [of env ops c w])
    then show ?thesis
      using same_cell_trans [OF q(1) d(2)] d(3-5) q(2) q4 Cons.hyps(2) [symmetric] by simp
  next
    case Panicked
    then show ?thesis
      using p q(1,2) q(5) [OF Panicked] q4 Cons.hyps(2) [symmetric]
      by (intro exI [of _ True] exI [of _ c1] exI [of _ w1]) (simp add: drain_all.simps [of env ops c w])
  qed (use q4 in simp)
qed

text \<open>What stopping and dropping a cell adds.\<close>

lemma cell_stop_quiet:
  assumes "user_quiet env ops"
  shows "items (mail (cell_stop ops c w) i) = items (mail w i)"
    "\<exists>b. trace (cell_stop ops c w) = (trace w)(rx c := trace w (rx c) @ [EvStop b])"
proof -
  obtain r w' where s: "op_stop ops (actor c) w = (r, w')" by fastforce
  then have "quiet w w'" using assms unfolding user_quiet_def by (metis snd_conv)
  then show "items (mail (cell_stop ops c w) i) = items (mail w i)"
      "\<exists>b. trace (cell_stop ops c w) = (trace w)(rx c := trace w (rx c) @ [EvStop b])"
    using s by (auto simp: cell_stop_def quiet_def log_ev_def)
qed

lemma cell_drop_items [simp]: "items (mail (cell_drop c w) i) = items (mail w i)"
  "trace (cell_drop c w) = (trace w)(rx c := trace w (rx c) @ [EvDrop])"
  by (simp_all add: cell_drop_def mb_drop_receiver_def log_ev_def)

text \<open>
  How the final drain leaves the actor of mailbox \<open>j\<close>: with nothing lost, either empty and stopped, or broken off
  by a panic of its own.
\<close>

definition shut :: "'m world \<Rightarrow> 'm world \<Rightarrow> nat \<Rightarrow> bool" where
  "shut w w' j \<longleftrightarrow> handled w' j @ items (mail w' j) = handled w j @ items (mail w j) \<and>
     (items (mail w' j) = [] \<and> (\<exists>es b. trace w' j = es @ [EvStop b, EvDrop]) \<or>
      (\<exists>es m. trace w' j = es @ [EvHandle m False, EvDrop] \<or> trace w' j = es @ [EvHandle m False, EvRebuild False, EvDrop]))"

lemma shut_down_quiet:
  assumes "user_quiet env ops" "\<forall>c\<in>set cells. factory_quiet c" "distinct (map rx cells)"
  shows "\<exists>w'. shut_down env ops cells w = Some w' \<and>
    (\<forall>j. if j \<in> rx ` set cells then shut w w' j
         else items (mail w' j) = items (mail w j) \<and> trace w' j = trace w j)"
  using assms(2,3)
proof (induction cells arbitrary: w)
  case (Cons c cs)
  obtain pn c' w1 where d: "drain_all env ops c w = Some (pn, c', w1)" "rx c' = rx c"
      "\<forall>j. j \<noteq> rx c \<longrightarrow> items (mail w1 j) = items (mail w j) \<and> trace w1 j = trace w j"
      "handled w1 (rx c) @ items (mail w1 (rx c)) = handled w (rx c) @ items (mail w (rx c))"
      "if pn then gave_up (trace w1 (rx c)) else items (mail w1 (rx c)) = []"
    using drain_all_quiet [OF assms(1), of c w] Cons.prems(1) by (auto simp: same_cell_def)
  let ?w = "cell_drop c' (if pn then w1 else cell_stop ops c' w1)"
  have w: "items (mail ?w j) = items (mail w1 j)" for j by (simp add: cell_stop_quiet(1) [OF assms(1)])
  obtain b where "trace (cell_stop ops c' w1) = (trace w1)(rx c := trace w1 (rx c) @ [EvStop b])"
    using cell_stop_quiet(2) [OF assms(1), of c' w1] d(2) by auto
  then have b: "trace ?w = (trace w1)(rx c := trace w1 (rx c) @ (if pn then [EvDrop] else [EvStop b, EvDrop]))"
    using d(2) by simp
  then have h: "handled ?w (rx c) = handled w1 (rx c)" by (simp add: handled_def)
  have now: "shut w ?w (rx c)"
    using d(4,5) b unfolding shut_def w h gave_up_def by (cases pn) auto
  obtain w' where IH: "shut_down env ops cs ?w = Some w'"
      "\<forall>j. if j \<in> rx ` set cs then shut ?w w' j else items (mail w' j) = items (mail ?w j) \<and> trace w' j = trace ?w j"
    using Cons.IH [of ?w] Cons.prems by auto
  have "if j \<in> rx ` set (c # cs) then shut w w' j else items (mail w' j) = items (mail w j) \<and> trace w' j = trace w j" for j
  proof (cases "j = rx c")
    case True
    then have "items (mail w' j) = items (mail ?w j)" "trace w' j = trace ?w j"
      using IH(2) [rule_format, of j] Cons.prems(2) by auto
    then show ?thesis using now True by (simp add: shut_def handled_def)
  next
    case False
    then have "items (mail ?w j) = items (mail w j)" "trace ?w j = trace w j" using d(3) b w by simp_all
    then show ?thesis using IH(2) [rule_format, of j] False by (auto simp: shut_def handled_def)
  qed
  then show ?case using d(1) IH(1) by auto
qed simp

subsection \<open>How often a supervised actor restarts\<close>

text \<open>The policy's answers to panics at the given times.\<close>

fun verdicts :: "restart_policy \<Rightarrow> restart_state \<Rightarrow> nat list \<Rightarrow> (nat \<times> bool) list" where
  "verdicts p rs [] = []"
| "verdicts p rs (t # ts) = (case allow_restart p t rs of (ok, rs') \<Rightarrow> (t, ok) # verdicts p rs' ts)"

definition granted :: "nat \<Rightarrow> nat \<Rightarrow> (nat \<times> bool) list \<Rightarrow> nat" where
  "granted a b vs = length (filter (\<lambda>(t, ok). ok \<and> a \<le> t \<and> t \<le> b) vs)"

lemma verdicts_times: "map fst (verdicts p rs ts) = ts"
  by (induction ts arbitrary: rs) (auto split: prod.split)

lemma granted_late:
  assumes "\<forall>t\<in>set ts. b < t"
  shows "granted a b (verdicts p rs ts) = 0"
proof -
  have "b < fst v" if "v \<in> set (verdicts p rs ts)" for v
    using assms that verdicts_times [of p rs ts] by (metis image_eqI list.set_map)
  then show ?thesis by (fastforce simp: granted_def filter_empty_conv)
qed

definition budget :: "nat \<Rightarrow> nat \<Rightarrow> restart_state \<Rightarrow> nat" where
  "budget mx a rs =
     (case window_start rs of
        None \<Rightarrow> mx
      | Some s \<Rightarrow> mx - unat (rcount rs) + (if a \<le> s then 0 else mx))"

lemma granted_budget:
  assumes "sorted ts" "\<forall>t\<in>set ts. a \<le> t" "unat (rcount rs) + length ts < 2 ^ 32"
  shows "granted a (a + within) (verdicts (Limited mx within) rs ts) \<le> budget (unat mx) a rs"
  using assms
proof (induction ts arbitrary: rs)
  case Nil
  then show ?case by (simp add: granted_def)
next
  case (Cons t ts)
  show ?case
  proof (cases "a + within < t")
    case True
    then have "\<forall>u\<in>set (t # ts). a + within < u" using Cons.prems(1) by auto
    then show ?thesis using granted_late by (metis le0)
  next
    case False
    have sz: "unat (rcount rs) + Suc (length ts) < 2 ^ 32" using Cons.prems(3) by simp
    have succ: "unat (rcount rs + 1) = Suc (unat (rcount rs))"
      using sz by (simp add: unat_word_ariths)
    show ?thesis
    proof (cases "\<exists>s. window_start rs = Some s \<and> t - s \<le> within")
      case True
      then obtain s where s: "window_start rs = Some s" "t - s \<le> within" by blast
      let ?rs = "rs\<lparr>rcount := rcount rs + 1\<rparr>"
      have v: "verdicts (Limited mx within) rs (t # ts) =
          (t, rcount rs + 1 \<le> mx) # verdicts (Limited mx within) ?rs ts"
        using s by (simp add: allow_restart_def Let_def)
      have "granted a (a + within) (verdicts (Limited mx within) ?rs ts) \<le> budget (unat mx) a ?rs"
        using Cons.IH [of ?rs] Cons.prems(1,2) sz succ by simp
      then show ?thesis
        unfolding v using s(1) succ by (auto simp: granted_def budget_def word_le_nat_alt split: if_splits)
    next
      case new: False
      let ?rs = "\<lparr>window_start = Some t, rcount = 1\<rparr> :: restart_state"
      have v: "verdicts (Limited mx within) rs (t # ts) = (t, 1 \<le> mx) # verdicts (Limited mx within) ?rs ts"
        using new by (auto simp: allow_restart_def Let_def split: option.splits)
      have "unat mx \<le> budget (unat mx) a rs"
        using new False Cons.prems(2) by (auto simp: budget_def split: option.splits)
      moreover have "granted a (a + within) (verdicts (Limited mx within) ?rs ts) \<le> unat mx - 1"
        using Cons.IH [of ?rs] Cons.prems(1,2) sz by (simp add: budget_def)
      ultimately show ?thesis
        unfolding v by (auto simp: granted_def word_le_nat_alt)
    qed
  qed
qed

lemma granted_twice:
  assumes "sorted ts" "unat (rcount rs) + length ts < 2 ^ 32"
  shows "granted a (a + within) (verdicts (Limited mx within) rs ts) \<le> 2 * unat mx"
  using assms
proof (induction ts arbitrary: rs)
  case (Cons t ts)
  show ?case
  proof (cases "a \<le> t")
    case True
    then have "\<forall>u\<in>set (t # ts). a \<le> u" using Cons.prems(1) by auto
    moreover have "budget (unat mx) a rs \<le> 2 * unat mx"
      by (auto simp: budget_def split: option.splits)
    ultimately show ?thesis
      using granted_budget [OF Cons.prems(1) _ Cons.prems(2), of a within mx] by (meson le_trans)
  next
    case False
    obtain ok rs' where al: "allow_restart (Limited mx within) t rs = (ok, rs')" by fastforce
    have "unat (rcount rs') \<le> Suc (unat (rcount rs))"
      using al Cons.prems(2) by (auto simp: allow_restart_def Let_def unat_word_ariths split: option.splits if_splits)
    then show ?thesis
      using Cons.IH [of rs'] Cons.prems al False by (simp add: granted_def)
  qed
qed (simp add: granted_def)

subsection \<open>Properties\<close>

text \<open>Actors, cells and a world for the witnesses: an actor that adds up and panics on 0.\<close>

definition demo_ops :: "(nat, nat) actor_ops" where
  "demo_ops = \<lparr>op_handle = \<lambda>m s w. (if m = 0 then None else Some (s + m), w),
     op_start = \<lambda>s w. (Some s, w), op_restart = \<lambda>s w. (Some s, w), op_stop = \<lambda>s w. (Some s, w)\<rparr>"

definition demo_world :: "nat world" where
  "demo_world = \<lparr>mail = (\<lambda>i. (mb_new 8)\<lparr>items := [i, 0, 5]\<rparr>), now = 0, trace = (\<lambda>_. []),
     posted = (\<lambda>i. [i, 0, 5])\<rparr>"

definition demo_cell :: "nat \<Rightarrow> (nat, nat) cell" where
  "demo_cell i = \<lparr>actor = 0, rx = i, factory = None, cell_policy = Never, restarts = restart_state_default,
     metrics = Some histogram_new\<rparr>"

lemma demo_ok:
  "user_ok id demo_ops" "user_quiet id demo_ops" "cell_ok (demo_cell i)" "factory_quiet (demo_cell i)" "rx (demo_cell i) = i"
  by (simp_all add: user_ok_def user_quiet_def quiet_def demo_ops_def demo_cell_def cell_ok_def factory_quiet_def)

definition demo_control :: "((nat, nat) control list \<times> bool) list" where
  "demo_control = [([Add (demo_cell 1), Add (demo_cell 2)], False)]"

lemma demo_control_ok:
  "\<forall>c\<in>set (all_adds demo_control). cell_ok c" "distinct (map rx (all_adds demo_control))"
  "\<forall>i. trace demo_world i = []" "items (mail demo_world i) = [i, 0, 5]"
  "1 \<le> pol_batch policy_default"
  by (simp_all add: all_adds_def demo_control_def demo_ok demo_world_def policy_default_def)

lemma core_iteration_returns:
  assumes "do_control ops cs disc k w = (ca, k1, w1)" "\<not> shutting_down k1"
  shows "\<exists>r. core_iteration env ops pol cs disc k w = Some (Inl r)"
proof -
  have "idle False (pol_idle pol) (idle_count k1) \<noteq> None"
    by (cases "pol_idle pol") auto
  then show ?thesis
    using assms by (auto simp: core_iteration_def split: prod.split option.split)
qed

lemma demo_core_run: "\<exists>r. core_loop id demo_ops policy_default demo_control core_new demo_world = Some r"
proof -
  obtain ca k1 w1 where c: "do_control demo_ops [Add (demo_cell 1), Add (demo_cell 2)] False core_new demo_world = (ca, k1, w1)"
    by (metis prod_cases3)
  have "\<not> shutting_down k1"
    using do_control_spec [OF demo_ok(1) _ _ c, of "[]"] demo_ok
    by (simp add: life_inv_def core_new_def phase_of_def demo_world_def)
  from core_iteration_returns [OF c this, of id policy_default] obtain k w a where
      "core_iteration id demo_ops policy_default [Add (demo_cell 1), Add (demo_cell 2)] False core_new demo_world =
        Some (Inl (k, w, a))"
    by (metis prod_cases3)
  then show ?thesis
    by (simp add: demo_control_def)
qed

text \<open>
  C7: hooks are called only where they may be. Along every run of a core each actor is started once,
  first; \<open>on_stop\<close> is called at most once and never on an actor that has panicked; an actor that was
  rebuilt runs on; one that was dropped is never called again. Exactly the actors the core still holds
  are running, and after the final drain none is.
\<close>

theorem core_lifecycle:
  assumes "user_ok env ops" "1 \<le> pol_batch pol" "\<forall>c\<in>set (all_adds runs). cell_ok c"
    and "distinct (map rx (all_adds runs))" "\<forall>i. trace w i = []"
    and "core_loop env ops pol runs core_new w = Some r"
  shows "case r of
      Inl (k, w') \<Rightarrow> distinct (map rx (actors k)) \<and>
        (\<forall>i. phase_of (trace w' i) \<in> (if i \<in> rx ` set (actors k) then {Running} else {Fresh, Dropped}))
    | Inr w' \<Rightarrow> (\<forall>i. phase_of (trace w' i) \<in> {Fresh, Dropped})"
proof -
  have "run_ok w [] r"
    by (rule core_loop_spec [OF assms(1-3) _ assms(6)])
      (use assms(4,5) in \<open>simp add: life_inv_def core_new_def phase_of_def\<close>)
  then show ?thesis
    by (cases r) (auto simp: run_ok_def life_inv_def split: if_splits)
qed

lemma core_lifecycle_witness:
  "\<exists>r. core_loop id demo_ops policy_default demo_control core_new demo_world = Some r \<and>
     phase_of (trace (case r of Inl (k, v) \<Rightarrow> v | Inr v \<Rightarrow> v) 1) \<in> {Running, Fresh, Dropped}"
proof -
  obtain r where r: "core_loop id demo_ops policy_default demo_control core_new demo_world = Some r"
    using demo_core_run by blast
  have "phase_of (trace (case r of Inl (k, v) \<Rightarrow> v | Inr v \<Rightarrow> v) 1) \<in> {Running, Fresh, Dropped}"
    using core_lifecycle [OF demo_ok(1) demo_control_ok(5,1-3) r] by (cases r) (auto split: if_splits)
  with r show ?thesis by blast
qed

text \<open>
  C14: a pass is fair. Every actor with a message waiting handles at least one, no actor handles more
  than the batch limit, however other actors behave and although panicking actors are removed with
  \<open>swap_remove\<close> during the pass; what an actor handles is the front of its mailbox, in order.
\<close>

theorem pass_fair:
  assumes "user_ok env ops" "1 \<le> batch" "distinct (map rx cells)" "\<forall>c\<in>set cells. cell_ok c"
    and "run_pass env ops batch cells w = (cells', w', did_work)" "i \<in> rx ` set cells"
  shows "\<exists>done new. handled w' i = handled w i @ done \<and> done @ items (mail w' i) = items (mail w i) @ new \<and>
    length done \<le> unat batch \<and> (items (mail w i) = [] \<or> done \<noteq> [])"
proof -
  obtain ess where tr: "\<And>j. trace w' j = trace w j @ ess j"
      and fl: "\<And>j. \<exists>new. msgs (ess j) @ items (mail w' j) = items (mail w j) @ new"
      and vi: "\<And>j. j \<in> rx ` set cells \<Longrightarrow> visited (unat batch) (j \<in> rx ` set cells') (items (mail w j) \<noteq> []) (ess j)"
    by (rule run_pass_traces [OF assms(1-5)]) (rule that; assumption)
  have "handled w' i = handled w i @ msgs (ess i)" "\<exists>new. msgs (ess i) @ items (mail w' i) = items (mail w i) @ new"
      "length (msgs (ess i)) \<le> unat batch" "items (mail w i) = [] \<or> msgs (ess i) \<noteq> []"
    using tr [of i] fl [of i] vi [OF assms(6)] by (auto simp: handled_def visited_def)
  then show ?thesis by blast
qed

lemma pass_fair_witness:
  "\<exists>cells' w' did_work. run_pass id demo_ops 2 [demo_cell 1, demo_cell 2] demo_world = (cells', w', did_work) \<and>
     handled w' 2 \<noteq> [] \<and> length (handled w' 2) \<le> 2"
proof -
  obtain cells' w' dw where r: "run_pass id demo_ops 2 [demo_cell 1, demo_cell 2] demo_world = (cells', w', dw)"
    by (metis prod_cases3)
  have pre: "1 \<le> (2 :: usize)" "distinct (map rx [demo_cell 1, demo_cell 2])" "\<forall>c\<in>set [demo_cell 1, demo_cell 2]. cell_ok c"
      "2 \<in> rx ` set [demo_cell 1, demo_cell 2]"
    by (simp_all add: demo_ok)
  have "handled demo_world 2 = []" by (simp add: handled_def demo_world_def)
  moreover obtain l where "handled w' 2 = handled demo_world 2 @ l" "length l \<le> unat (2 :: usize)"
      "items (mail demo_world 2) = [] \<or> l \<noteq> []"
    using pass_fair [OF demo_ok(1) pre(1-3) r pre(4)] by blast
  moreover have "items (mail demo_world 2) \<noteq> []" by (simp add: demo_world_def)
  ultimately show ?thesis using r by simp
qed

text \<open>
  C16: the restart limit bounds restarts in real time. However the panics of a supervised actor are
  spread, a policy of \<open>max_restarts\<close> within a window grants at most twice that number of restarts in
  any stretch of time as long as the window (the window is fixed, not sliding, so two of them can
  meet), and none after the policy \<open>Never\<close>. The counter must not overflow its 32 bits.
\<close>

theorem restart_rate_bounded:
  assumes "sorted ts" "length ts < 2 ^ 32"
  shows "length (filter (\<lambda>(t, ok). ok \<and> a \<le> t \<and> t \<le> a + within)
      (verdicts (Limited max_restarts within) restart_state_default ts)) \<le> 2 * unat max_restarts \<and>
    \<not> fst (allow_restart Never t rs)"
  using granted_twice [of ts restart_state_default] assms
  by (simp add: granted_def restart_state_default_def allow_restart_def)

lemma restart_rate_bounded_witness:
  "length (filter (\<lambda>(t, ok). ok \<and> 9 \<le> t \<and> t \<le> 19)
     (verdicts (Limited 1 10) restart_state_default [0, 9, 11, 12])) \<le> 2 \<and>
   verdicts (Limited 1 10) restart_state_default [0, 9, 11, 12] = [(0, True), (9, False), (11, True), (12, False)]"
  using restart_rate_bounded [of "[0, 9, 11, 12]" 9 10 1]
  by (simp add: restart_state_default_def allow_restart_def word_le_nat_alt)

text \<open>
  C15: a shutdown during which nothing new is sent always comes to an end. Every actor still held is then gone, with no
  message lost or out of order: unless it panicked on the way itself, it has handled all that was
  queued and then its \<open>on_stop\<close> was called; if it panicked and was not rebuilt, it was dropped right there, \<open>on_stop\<close> was not called
  and what was queued behind stays unhandled. A panic of one actor changes nothing for the others, and no
  other mailbox is touched.
\<close>

theorem shutdown_drains:
  assumes "user_quiet env ops" "\<forall>c\<in>set cells. factory_quiet c" "distinct (map rx cells)"
  shows "\<exists>w'. shut_down env ops cells w = Some w' \<and>
    (\<forall>c\<in>set cells.
       handled w' (rx c) @ items (mail w' (rx c)) = handled w (rx c) @ items (mail w (rx c)) \<and>
       (items (mail w' (rx c)) = [] \<and> (\<exists>es b. trace w' (rx c) = es @ [EvStop b, EvDrop]) \<or>
        (\<exists>es m. trace w' (rx c) = es @ [EvHandle m False, EvDrop] \<or>
                trace w' (rx c) = es @ [EvHandle m False, EvRebuild False, EvDrop]))) \<and>
    (\<forall>j. j \<notin> rx ` set cells \<longrightarrow> items (mail w' j) = items (mail w j) \<and> trace w' j = trace w j)"
proof -
  obtain w' where w': "shut_down env ops cells w = Some w'" "\<And>j. j \<in> rx ` set cells \<Longrightarrow> shut w w' j"
      "\<And>j. j \<notin> rx ` set cells \<Longrightarrow> items (mail w' j) = items (mail w j) \<and> trace w' j = trace w j"
    using shut_down_quiet [OF assms, of w] by (auto split: if_splits)
  then show ?thesis unfolding shut_def by (intro exI [of _ w'] conjI) auto
qed

text \<open>Of two actors the first panics on its second message; the other one is drained.\<close>

definition demo_end :: "nat world" where
  "demo_end = demo_world\<lparr>mail := (mail demo_world)(2 := (mb_new 8)\<lparr>items := [2, 4]\<rparr>)\<rparr>"

lemma shutdown_drains_witness:
  "\<exists>w'. shut_down id demo_ops [demo_cell 1, demo_cell 2] demo_end = Some w' \<and>
     handled w' 1 = [1, 0] \<and> items (mail w' 1) = [5] \<and> handled w' 2 = [2, 4] \<and> items (mail w' 2) = []"
proof -
  obtain w' where w': "shut_down id demo_ops [demo_cell 1, demo_cell 2] demo_end = Some w'"
      "handled w' 2 @ items (mail w' 2) = handled demo_end 2 @ items (mail demo_end 2)"
      "handled w' 1 @ items (mail w' 1) = handled demo_end 1 @ items (mail demo_end 1)"
    using shutdown_drains [OF demo_ok(2), of "[demo_cell 1, demo_cell 2]" demo_end] by (auto simp: demo_ok)
  moreover have "items (mail w' 2) = []" "items (mail w' 1) = [5]"
    using w'(1) by (auto simp: demo_end_def demo_world_def demo_cell_def demo_ops_def poll_one_def mb_try_recv_def drain_all.simps
        after_panic_def cell_stop_def cell_drop_def log_ev_def mb_drop_receiver_def mb_new_def Let_def)
  ultimately show ?thesis by (simp add: handled_def demo_end_def demo_world_def mb_new_def)
qed

end
