(* ===== verification/Ask.thy ===== *)
theory Ask
  imports Prelude
begin

text \<open>
  Request and reply, \<open>core/src/ask.rs\<close>: the caller and the holder of the \<open>Responder\<close> work on one reply
  cell at the same time. Every access to the cell is one step; an action lets one of the two make its
  next step, and a schedule is any sequence of actions. The cell lives on the caller's stack (\<open>ask\<close>)
  or is shared by counted references (\<open>ask_timeout\<close>). An access after the memory is gone sets \<open>uaf\<close>,
  a read of an uninitialised slot sets \<open>ub\<close>. Accesses interleave sequentially consistently.
\<close>

subsection \<open>State\<close>

datatype cell_holding = Borrowed | Owned

definition PENDING :: u8 where "PENDING = 0"
definition REPLIED :: u8 where "REPLIED = 1"
definition ABANDONED :: u8 where "ABANDONED = 2"
definition CONSUMED :: u8 where "CONSUMED = 3"

lemmas state_defs = PENDING_def REPLIED_def ABANDONED_def CONSUMED_def

datatype ask_error = NoReply | AskClosed | WouldBlockCallingCore | Timeout

type_synonym 'r ask_result = "('r, ask_error) result"

text \<open>
  Where the caller is: before \<open>send_blocking\<close> returns, dropping the message that could not be sent,
  in the waiting loop, between its accesses to a reply, about to give up its cell, back.
\<close>

datatype 'r caller_pc =
    KSend | KClosing | KWait | KTake | KConsume 'r | KLeave "'r ask_result" | KDone "'r ask_result"

datatype 'r resp_pc = RMsg | RHeld | RWrite 'r | RStore | RCas | RRelease | RGone

text \<open>\<open>answer\<close>, \<open>dropped\<close>: the value passed to \<open>reply\<close>, and the values whose destructor has run.\<close>

record 'r ask =
  cell_state :: u8
  cell_slot :: "'r option"
  refs :: nat
  freed :: bool
  caller :: "'r caller_pc"
  resp :: "'r resp_pc"
  answer :: "'r option"
  dropped :: "'r list"
  uaf :: bool
  ub :: bool

definition ask_new :: "cell_holding \<Rightarrow> 'r ask" where
  "ask_new h = \<lparr>cell_state = PENDING, cell_slot = None, refs = 2, freed = False, caller = KSend, resp = RMsg,
     answer = None, dropped = [], uaf = False, ub = False\<rparr>"

text \<open>The guard before anything is built: the current core, if any, against the actor's.\<close>

definition ask_guard :: "nat option \<Rightarrow> nat \<Rightarrow> cell_holding \<Rightarrow> 'r ask_result + 'r ask" where
  "ask_guard current core h =
     (if current = Some core then Inl (Err WouldBlockCallingCore) else Inr (ask_new h))"

subsection \<open>Steps\<close>

text \<open>\<open>Drop for ReplyCell\<close>, then the memory goes.\<close>

definition drop_cell :: "'r ask \<Rightarrow> 'r ask" where
  "drop_cell s =
     (if cell_state s = REPLIED
      then (case cell_slot s of
              Some v \<Rightarrow> s\<lparr>dropped := dropped s @ [v], cell_slot := None, freed := True\<rparr>
            | None \<Rightarrow> s\<lparr>ub := True, freed := True\<rparr>)
      else s\<lparr>freed := True\<rparr>)"

definition drop_ref :: "'r ask \<Rightarrow> 'r ask" where
  "drop_ref s = (let s' = s\<lparr>refs := refs s - 1\<rparr> in if refs s' = 0 then drop_cell s' else s')"

definition touch :: "'r ask \<Rightarrow> 'r ask" where
  "touch s = (if freed s then s\<lparr>uaf := True\<rparr> else s)"

text \<open>\<open>expired\<close>: whether the deadline has passed when the loop looks; only \<open>ask_timeout\<close> has one.\<close>

fun caller_step :: "cell_holding \<Rightarrow> bool \<Rightarrow> 'r ask \<Rightarrow> 'r ask option" where
  "caller_step h expired s =
     (case caller s of
        KWait \<Rightarrow>
          Some ((touch s)\<lparr>caller :=
            (if cell_state s = REPLIED then KTake
             else if cell_state s = ABANDONED then KLeave (Err NoReply)
             else if h = Owned \<and> expired then KLeave (Err Timeout)
             else KWait)\<rparr>)
      | KTake \<Rightarrow>
          (case cell_slot s of
             None \<Rightarrow> Some ((touch s)\<lparr>ub := True\<rparr>)
           | Some v \<Rightarrow> Some ((touch s)\<lparr>cell_slot := None, caller := KConsume v\<rparr>))
      | KConsume v \<Rightarrow> Some ((touch s)\<lparr>cell_state := CONSUMED, caller := KLeave (Ok v)\<rparr>)
      | KLeave r \<Rightarrow> Some ((case h of Borrowed \<Rightarrow> drop_cell s | Owned \<Rightarrow> drop_ref s)\<lparr>caller := KDone r\<rparr>)
      | KClosing \<Rightarrow> if resp s = RGone then Some (s\<lparr>caller := KLeave (Err AskClosed)\<rparr>) else None
      | _ \<Rightarrow> None)"

fun resp_step :: "cell_holding \<Rightarrow> 'r ask \<Rightarrow> 'r ask option" where
  "resp_step h s =
     (case resp s of
        RWrite v \<Rightarrow> Some ((touch s)\<lparr>cell_slot := Some v, resp := RStore\<rparr>)
      | RStore \<Rightarrow> Some ((touch s)\<lparr>cell_state := REPLIED, resp := RRelease\<rparr>)
      | RCas \<Rightarrow>
          Some ((touch s)\<lparr>cell_state := (if cell_state s = PENDING then ABANDONED else cell_state s),
                          resp := RRelease\<rparr>)
      | RRelease \<Rightarrow> Some ((case h of Borrowed \<Rightarrow> s | Owned \<Rightarrow> drop_ref s)\<lparr>resp := RGone\<rparr>)
      | _ \<Rightarrow> None)"

text \<open>
  The send either delivers the message with the responder in it, or finds the mailbox closed. Then
  the message is dropped before the caller leaves; if \<open>make_msg\<close> put the responder somewhere else
  (\<open>stashed\<close>), nothing is dropped with it.
\<close>

datatype 'r ask_action = SendOk | SendClosed bool | CallerStep bool | Reply 'r | DropResponder | RespStep

fun ask_act :: "cell_holding \<Rightarrow> 'r ask_action \<Rightarrow> 'r ask \<Rightarrow> 'r ask option" where
  "ask_act h SendOk s =
     (if caller s = KSend then Some (s\<lparr>caller := KWait, resp := RHeld\<rparr>) else None)"
| "ask_act h (SendClosed stashed) s =
     (if caller s = KSend
      then Some (if stashed then s\<lparr>caller := KLeave (Err AskClosed), resp := RHeld\<rparr>
                 else s\<lparr>caller := KClosing, resp := RCas\<rparr>)
      else None)"
| "ask_act h (CallerStep expired) s = caller_step h expired s"
| "ask_act h (Reply v) s =
     (if resp s = RHeld then Some (s\<lparr>resp := RWrite v, answer := Some v\<rparr>) else None)"
| "ask_act h DropResponder s = (if resp s = RHeld then Some (s\<lparr>resp := RCas\<rparr>) else None)"
| "ask_act h RespStep s = resp_step h s"

fun ask_run :: "cell_holding \<Rightarrow> 'r ask_action list \<Rightarrow> 'r ask \<Rightarrow> 'r ask option" where
  "ask_run h [] s = Some s"
| "ask_run h (a # as) s = (case ask_act h a s of None \<Rightarrow> None | Some t \<Rightarrow> ask_run h as t)"

inductive ask_reach :: "cell_holding \<Rightarrow> 'r ask \<Rightarrow> bool" for h where
  start: "ask_reach h (ask_new h)"
| step: "ask_reach h s \<Longrightarrow> ask_act h a s = Some t \<Longrightarrow> ask_reach h t"

text \<open>One round of waiting: what the thread does, and the saturating count of rounds.\<close>

datatype pause = SpinLoop | YieldNow | SleepMicros nat

definition ask_backoff :: "u32 \<Rightarrow> pause \<times> u32" where
  "ask_backoff waited =
     (if waited < 256 then SpinLoop else if waited < 512 then YieldNow else SleepMicros 20,
      if waited = - 1 then waited else waited + 1)"

subsection \<open>Invariant\<close>

fun live_caller :: "'r caller_pc \<Rightarrow> bool" where
  "live_caller (KDone _) = False"
| "live_caller _ = True"

definition memory_ok :: "cell_holding \<Rightarrow> 'r ask \<Rightarrow> bool" where
  "memory_ok h s \<longleftrightarrow> \<not> uaf s \<and> \<not> ub s \<and>
     (case h of
        Owned \<Rightarrow> refs s = (if live_caller (caller s) then 1 else 0) + (if resp s = RGone then 0 else 1) \<and>
                 (freed s \<longleftrightarrow> refs s = 0)
      | Borrowed \<Rightarrow> (freed s \<longleftrightarrow> \<not> live_caller (caller s)))"

text \<open>Which places the caller can be at, given what the cell says and, for \<open>ask\<close>, never without cause.\<close>

fun left_ok :: "cell_holding \<Rightarrow> u8 \<Rightarrow> 'r option \<Rightarrow> 'r resp_pc \<Rightarrow> 'r ask_result \<Rightarrow> bool" where
  "left_ok h st ans r (Ok v) = (st = CONSUMED \<and> ans = Some v)"
| "left_ok h st ans r (Err e) =
     (st \<noteq> CONSUMED \<and> r \<noteq> RMsg \<and>
      (e = NoReply \<and> st = ABANDONED \<or> 
       e = AskClosed \<and> (st = ABANDONED \<and> r = RGone \<or> h = Owned) \<or> e = Timeout \<and> h = Owned))"

fun caller_ok :: "cell_holding \<Rightarrow> u8 \<Rightarrow> 'r option \<Rightarrow> 'r resp_pc \<Rightarrow> 'r caller_pc \<Rightarrow> bool" where
  "caller_ok h st ans r KSend = (st = PENDING \<and> r = RMsg)"
| "caller_ok h st ans r KClosing = ((st = PENDING \<and> r = RCas \<or> st = ABANDONED \<and> r \<in> {RRelease, RGone}) \<and> ans = None)"
| "caller_ok h st ans r KWait = (st \<noteq> CONSUMED \<and> r \<noteq> RMsg)"
| "caller_ok h st ans r KTake = (st = REPLIED)"
| "caller_ok h st ans r (KConsume v) = (st = REPLIED \<and> ans = Some v)"
| "caller_ok h st ans r (KLeave res) = left_ok h st ans r res"
| "caller_ok h st ans r (KDone res) = left_ok h st ans r res"

fun resp_ok :: "u8 \<Rightarrow> 'r option \<Rightarrow> 'r resp_pc \<Rightarrow> bool" where
  "resp_ok st ans RMsg = (st = PENDING \<and> ans = None)"
| "resp_ok st ans RHeld = (st = PENDING \<and> ans = None)"
| "resp_ok st ans (RWrite v) = (st = PENDING \<and> ans = Some v)"
| "resp_ok st ans RStore = (st = PENDING \<and> ans \<noteq> None)"
| "resp_ok st ans RCas = (st = PENDING \<and> ans = None)"
| "resp_ok st ans RRelease = (if ans = None then st = ABANDONED else st \<in> {REPLIED, CONSUMED})"
| "resp_ok st ans RGone = (if ans = None then st = ABANDONED else st \<in> {REPLIED, CONSUMED})"

text \<open>Where the answer is: in the slot, with the caller, or dropped.\<close>

definition value_ok :: "'r ask \<Rightarrow> bool" where
  "value_ok s \<longleftrightarrow>
     (if resp s = RStore \<or> cell_state s = REPLIED \<and> \<not> (\<exists>v. caller s = KConsume v)
      then (if freed s then cell_slot s = None \<and> dropped s = (case answer s of None \<Rightarrow> [] | Some v \<Rightarrow> [v])
            else cell_slot s = answer s \<and> dropped s = [])
      else cell_slot s = None \<and> dropped s = [])"

definition ask_inv :: "cell_holding \<Rightarrow> 'r ask \<Rightarrow> bool" where
  "ask_inv h s \<longleftrightarrow> memory_ok h s \<and> caller_ok h (cell_state s) (answer s) (resp s) (caller s) \<and>
     resp_ok (cell_state s) (answer s) (resp s) \<and> value_ok s"

lemma ask_inv_new: "ask_inv h (ask_new h)"
  by (cases h) (simp_all add: ask_inv_def ask_new_def memory_ok_def value_ok_def state_defs)

lemma caller_ok_moves:
  "caller_ok h PENDING a RHeld k \<Longrightarrow> caller_ok h PENDING a' (RWrite v) k"
  "caller_ok h PENDING a RHeld k \<Longrightarrow> caller_ok h PENDING a RCas k"
  "caller_ok h PENDING a (RWrite v) k \<Longrightarrow> caller_ok h PENDING a RStore k"
  "caller_ok h PENDING a RStore k \<Longrightarrow> caller_ok h REPLIED a RRelease k"
  "caller_ok h PENDING a RCas k \<Longrightarrow> caller_ok h ABANDONED a RRelease k"
  "caller_ok h st a RRelease k \<Longrightarrow> caller_ok h st a RGone k"
  by (cases k; (simp add: state_defs; fail)?; rename_tac res, case_tac res; auto simp: state_defs)+

lemma caller_waits: "caller_ok Borrowed PENDING a r k \<Longrightarrow> live_caller k"
  by (cases k; (simp; fail)?; rename_tac res, case_tac res; simp add: state_defs)

lemma not_freed:
  assumes "ask_inv h s" "cell_state s = PENDING" "resp s \<noteq> RGone"
  shows "\<not> freed s"
  using assms caller_waits [of "answer s" "resp s" "caller s"]
  by (cases h) (auto simp: ask_inv_def memory_ok_def)

lemma caller_not_freed: "ask_inv h s \<Longrightarrow> live_caller (caller s) \<Longrightarrow> \<not> freed s"
  by (cases h) (auto simp: ask_inv_def memory_ok_def)

lemma inv_memory: "ask_inv h s \<Longrightarrow> memory_ok h s"
  and inv_caller: "ask_inv h s \<Longrightarrow> caller_ok h (cell_state s) (answer s) (resp s) (caller s)"
  and inv_resp: "ask_inv h s \<Longrightarrow> resp_ok (cell_state s) (answer s) (resp s)"
  and inv_value: "ask_inv h s \<Longrightarrow> value_ok s"
  by (simp_all add: ask_inv_def)

lemma ask_inv_resp:
  assumes "ask_inv h s" "resp_step h s = Some t"
  shows "ask_inv h t"
proof -
  note M = inv_memory [OF assms(1)] and K = inv_caller [OF assms(1)] and R = inv_resp [OF assms(1)]
    and V = inv_value [OF assms(1)]
  show ?thesis
  proof (cases "resp s")
    case (RWrite v)
    have st: "cell_state s = PENDING" "answer s = Some v" using R RWrite by simp_all
    have nf: "\<not> freed s" using not_freed [OF assms(1) st(1)] RWrite by simp
    have t: "t = s\<lparr>cell_slot := Some v, resp := RStore\<rparr>" using assms(2) RWrite nf by (simp add: touch_def)
    have "caller_ok h (cell_state s) (answer s) RStore (caller s)"
      using K RWrite caller_ok_moves(3) by (simp add: st)
    moreover have "dropped s = []" using V RWrite by (simp add: value_ok_def st state_defs)
    moreover have "memory_ok h t" using M RWrite by (cases h) (simp_all add: memory_ok_def t)
    ultimately show ?thesis
      using st nf unfolding ask_inv_def t by (simp add: value_ok_def)
  next
    case RStore
    have st: "cell_state s = PENDING" "answer s \<noteq> None" using R RStore by simp_all
    have nf: "\<not> freed s" using not_freed [OF assms(1) st(1)] RStore by simp
    have t: "t = s\<lparr>cell_state := REPLIED, resp := RRelease\<rparr>" using assms(2) RStore nf by (simp add: touch_def)
    have k: "caller_ok h REPLIED (answer s) RRelease (caller s)"
      using K RStore caller_ok_moves(4) by (simp add: st)
    have "caller s \<noteq> KConsume v" for v using K RStore st by (auto simp: state_defs)
    moreover have "cell_slot s = answer s" "dropped s = []" using V RStore nf by (simp_all add: value_ok_def)
    moreover have "memory_ok h t" using M RStore by (cases h) (simp_all add: memory_ok_def t)
    ultimately show ?thesis
      using st nf k unfolding ask_inv_def t by (auto simp: value_ok_def)
  next
    case RCas
    have st: "cell_state s = PENDING" "answer s = None" using R RCas by simp_all
    have nf: "\<not> freed s" using not_freed [OF assms(1) st(1)] RCas by simp
    have t: "t = s\<lparr>cell_state := ABANDONED, resp := RRelease\<rparr>" using assms(2) RCas nf st by (simp add: touch_def)
    have k: "caller_ok h ABANDONED (answer s) RRelease (caller s)"
      using K RCas caller_ok_moves(5) by (simp add: st)
    have "cell_slot s = None" "dropped s = []" using V RCas st by (simp_all add: value_ok_def state_defs)
    moreover have "memory_ok h t" using M RCas by (cases h) (simp_all add: memory_ok_def t)
    ultimately show ?thesis
      using st nf k unfolding ask_inv_def t by (simp add: value_ok_def state_defs)
  next
    case RRelease
    have k: "caller_ok h (cell_state s) (answer s) RGone (caller s)"
      using K RRelease caller_ok_moves(6) by simp
    show ?thesis
    proof (cases "h = Owned \<and> \<not> live_caller (caller s)")
      case False
      then have "t = s\<lparr>resp := RGone, refs := if h = Owned then 1 else refs s\<rparr>"
        using assms(2) RRelease M by (cases h) (auto simp: drop_ref_def memory_ok_def Let_def)
      then obtain r where t: "t = s\<lparr>resp := RGone, refs := r\<rparr>" "h = Owned \<longrightarrow> r = 1"
        by auto
      have "memory_ok h t" using M RRelease t(2) False by (cases h) (auto simp: memory_ok_def t(1))
      moreover have "value_ok t" using V RRelease by (simp add: value_ok_def t(1))
      ultimately show ?thesis
        using k R RRelease unfolding ask_inv_def t(1) by simp
    next
      case True
      then obtain res where res: "caller s = KDone res" by (cases "caller s") auto
      have "refs s = 1" "\<not> freed s" using M True RRelease by (simp_all add: memory_ok_def)
      then have t: "t = (drop_cell (s\<lparr>refs := 0\<rparr>))\<lparr>resp := RGone\<rparr>"
        using assms(2) RRelease True by (simp add: drop_ref_def)
      show ?thesis
        using k M R V RRelease True res \<open>\<not> freed s\<close> unfolding t ask_inv_def
        by (auto simp: state_defs drop_cell_def memory_ok_def value_ok_def split: option.split if_splits)
    qed
  qed (use assms(2) in auto)
qed

lemma ask_inv_caller:
  assumes "ask_inv h s" "caller_step h e s = Some t"
  shows "ask_inv h t"
proof -
  note M = inv_memory [OF assms(1)] and K = inv_caller [OF assms(1)] and R = inv_resp [OF assms(1)]
    and V = inv_value [OF assms(1)]
  have nf: "\<not> freed s" if "live_caller (caller s)"
    using caller_not_freed [OF assms(1) that] .
  show ?thesis
  proof (cases "caller s")
    case KWait
    then have f: "\<not> freed s" using nf by simp
    let ?k = "if cell_state s = REPLIED then KTake else if cell_state s = ABANDONED then KLeave (Err NoReply)
      else if h = Owned \<and> e then KLeave (Err Timeout) else KWait"
    have t: "t = s\<lparr>caller := ?k\<rparr>" using assms(2) KWait f by (simp add: touch_def)
    have "caller_ok h (cell_state s) (answer s) (resp s) ?k"
      using K KWait by (auto simp: state_defs)
    moreover have "memory_ok h t" using M KWait by (cases h) (simp_all add: memory_ok_def t)
    moreover have "value_ok t" using V KWait f by (simp add: value_ok_def t)
    ultimately show ?thesis using R unfolding ask_inv_def t by simp
  next
    case KTake
    then have f: "\<not> freed s" and st: "cell_state s = REPLIED" using nf K by simp_all
    then have sl: "cell_slot s = answer s" "dropped s = []" using V KTake by (simp_all add: value_ok_def)
    have "resp s \<noteq> RStore" using R st by (auto simp: state_defs)
    have "answer s \<noteq> None" using R st by (cases "resp s") (auto simp: state_defs split: if_splits)
    then obtain v where v: "answer s = Some v" by blast
    then have t: "t = s\<lparr>cell_slot := None, caller := KConsume v\<rparr>"
      using assms(2) KTake f sl by (simp add: touch_def)
    have "memory_ok h t" using M KTake by (cases h) (simp_all add: memory_ok_def t)
    then show ?thesis
      using R st v sl \<open>resp s \<noteq> RStore\<close> unfolding ask_inv_def t by (simp add: value_ok_def)
  next
    case (KConsume v)
    then have f: "\<not> freed s" and st: "cell_state s = REPLIED" "answer s = Some v" using nf K by simp_all
    have rs: "resp s \<noteq> RStore" using R st by (auto simp: state_defs)
    then have sl: "cell_slot s = None" "dropped s = []" using V KConsume by (simp_all add: value_ok_def)
    have t: "t = s\<lparr>cell_state := CONSUMED, caller := KLeave (Ok v)\<rparr>"
      using assms(2) KConsume f by (simp add: touch_def)
    have "memory_ok h t" using M KConsume by (cases h) (simp_all add: memory_ok_def t)
    moreover have "resp_ok CONSUMED (answer s) (resp s)"
      using R st by (cases "resp s") (auto simp: state_defs)
    ultimately show ?thesis
      using st sl rs unfolding ask_inv_def t by (simp add: value_ok_def state_defs)
  next
    case KClosing
    then have rg: "resp s = RGone" and t: "t = s\<lparr>caller := KLeave (Err AskClosed)\<rparr>"
      using assms(2) by (auto split: if_splits)
    have "memory_ok h t" using M KClosing by (cases h) (simp_all add: memory_ok_def t)
    then show ?thesis
      using R K V KClosing rg unfolding ask_inv_def t by (auto simp: value_ok_def state_defs)
  next
    case (KLeave res)
    then have f: "\<not> freed s" using nf by simp
    have k: "left_ok h (cell_state s) (answer s) (resp s) res" using K KLeave by simp
    show ?thesis
    proof (cases "h = Owned \<and> resp s \<noteq> RGone")
      case True
      then have "refs s = 2" using M KLeave by (simp add: memory_ok_def)
      then have t: "t = s\<lparr>refs := 1, caller := KDone res\<rparr>"
        using assms(2) KLeave True by (simp add: drop_ref_def)
      have "memory_ok h t" using M KLeave True f by (simp add: memory_ok_def t)
      then show ?thesis
        using R V KLeave k unfolding ask_inv_def t by (simp add: value_ok_def)
    next
      case False
      then have "t = (drop_cell s)\<lparr>caller := KDone res, refs := if h = Owned then 0 else refs s\<rparr>"
        using assms(2) KLeave M
        by (cases h) (auto simp: drop_ref_def memory_ok_def Let_def drop_cell_def split: option.splits)
      then obtain r where r: "t = (drop_cell s)\<lparr>caller := KDone res, refs := r\<rparr>" "h = Owned \<longrightarrow> r = 0"
        by auto
      have ans: "answer s \<noteq> None \<and> resp s \<noteq> RStore" if "cell_state s = REPLIED"
        using R that by (cases "resp s") (auto simp: state_defs split: if_splits)
      have rst: "resp s \<noteq> RStore"
      proof
        assume "resp s = RStore"
        then show False
          using R k False by (cases h; cases res) (auto simp: state_defs)
      qed
      show ?thesis
        using R V M KLeave k f ans False rst unfolding r(1) ask_inv_def
        by (cases h) (auto simp: r(2) drop_cell_def memory_ok_def value_ok_def split: option.splits if_splits)
    qed
  qed (use assms(2) in auto)
qed

lemma ask_inv_step:
  assumes "ask_inv h s" "ask_act h a s = Some t" "a \<noteq> SendClosed True \<or> h = Owned"
  shows "ask_inv h t"
proof (cases a)
  case SendOk
  then have c: "caller s = KSend" and t: "t = s\<lparr>caller := KWait, resp := RHeld\<rparr>"
    using assms(2) by (auto split: if_splits)
  have "memory_ok h t" using inv_memory [OF assms(1)] inv_caller [OF assms(1)] c by (cases h) (auto simp: memory_ok_def t)
  then show ?thesis
    using inv_caller [OF assms(1)] inv_resp [OF assms(1)] inv_value [OF assms(1)] c unfolding ask_inv_def t
    by (auto simp: value_ok_def state_defs)
next
  case (SendClosed stashed)
  then obtain k r where c: "caller s = KSend" and t: "t = s\<lparr>caller := k, resp := r\<rparr>"
    and kr: "k = KClosing \<and> r = RCas \<or> h = Owned \<and> k = KLeave (Err AskClosed) \<and> r = RHeld"
    using assms(2,3) by (auto split: if_splits)
  have "memory_ok h t"
    using inv_memory [OF assms(1)] inv_caller [OF assms(1)] c kr by (cases h) (auto simp: memory_ok_def t)
  then show ?thesis
    using inv_caller [OF assms(1)] inv_resp [OF assms(1)] inv_value [OF assms(1)] c kr unfolding ask_inv_def t
    by (auto simp: value_ok_def state_defs)
next
  case (Reply v)
  then have r: "resp s = RHeld" and t: "t = s\<lparr>resp := RWrite v, answer := Some v\<rparr>"
    using assms(2) by (auto split: if_splits)
  then have st: "cell_state s = PENDING" using inv_resp [OF assms(1)] by simp
  have "caller_ok h PENDING (Some v) (RWrite v) (caller s)"
    using inv_caller [OF assms(1)] r st caller_ok_moves(1) by metis
  moreover have "memory_ok h t" using inv_memory [OF assms(1)] r by (cases h) (auto simp: memory_ok_def t)
  ultimately show ?thesis
    using inv_value [OF assms(1)] st r unfolding ask_inv_def t by (auto simp: value_ok_def state_defs)
next
  case DropResponder
  then have r: "resp s = RHeld" and t: "t = s\<lparr>resp := RCas\<rparr>"
    using assms(2) by (auto split: if_splits)
  then have st: "cell_state s = PENDING" "answer s = None" using inv_resp [OF assms(1)] by simp_all
  have "caller_ok h PENDING (answer s) RCas (caller s)"
    using inv_caller [OF assms(1)] r st(1) caller_ok_moves(2) by metis
  moreover have "memory_ok h t" using inv_memory [OF assms(1)] r by (cases h) (auto simp: memory_ok_def t)
  ultimately show ?thesis
    using inv_value [OF assms(1)] st r unfolding ask_inv_def t by (auto simp: value_ok_def state_defs)
qed (use assms ask_inv_caller ask_inv_resp in \<open>auto simp del: caller_step.simps resp_step.simps\<close>)

lemma ask_runs_inv: "ask_inv h s \<Longrightarrow> ask_run h as s = Some t \<Longrightarrow> SendClosed True \<notin> set as \<or> h = Owned \<Longrightarrow> ask_inv h t"
proof (induction as arbitrary: s)
  case (Cons a as)
  then obtain u where "ask_act h a s = Some u" "ask_run h as u = Some t" by (auto split: option.splits)
  with Cons show ?case using ask_inv_step [OF Cons.prems(1)] by fastforce
qed simp

lemmas ask_schedule_inv = ask_runs_inv [OF ask_inv_new]

text \<open>
  A schedule of \<open>ask\<close> in which the responder was kept out of a refused message leaves the invariant, and then the caller is
  past its waiting loop.
\<close>

definition strayed :: "cell_holding \<Rightarrow> 'r ask \<Rightarrow> bool" where
  "strayed h s \<longleftrightarrow> h = Borrowed \<and> caller s \<in> {KLeave (Err AskClosed), KDone (Err AskClosed)}"

lemma strayed_step:
  assumes "strayed h s" "ask_act h a s = Some t"
  shows "strayed h t"
proof (cases a)
  case RespStep
  then show ?thesis
    using assms by (auto simp: strayed_def touch_def split: resp_pc.splits if_splits)
next
  case (CallerStep e)
  then show ?thesis using assms by (auto simp: strayed_def)
qed (use assms in \<open>auto simp: strayed_def split: if_splits\<close>)

lemma ask_reach_cases: "ask_reach h s \<Longrightarrow> ask_inv h s \<or> strayed h s"
proof (induction rule: ask_reach.induct)
  case (step s a t)
  show ?case
  proof (cases "ask_inv h s \<and> (a \<noteq> SendClosed True \<or> h = Owned)")
    case True
    then show ?thesis using ask_inv_step step(2) by blast
  next
    case False
    moreover have "strayed h t" if "a = SendClosed True" "h = Borrowed"
      using step(2) that by (auto simp: strayed_def split: if_splits)
    ultimately show ?thesis using strayed_step step by (cases h) auto
  qed
qed (simp add: ask_inv_new)

lemma ask_reach_inv: "ask_reach h s \<Longrightarrow> caller s = KWait \<Longrightarrow> ask_inv h s"
  using ask_reach_cases by (fastforce simp: strayed_def)

subsection \<open>What the two sides can rely on\<close>

lemma left_result:
  assumes "ask_inv h s" "caller s = KDone res"
  shows "left_ok h (cell_state s) (answer s) (resp s) res"
  using inv_caller [OF assms(1)] assms(2) by simp

lemma resp_abandoned: "resp_ok ABANDONED a r \<Longrightarrow> a = None \<and> r \<in> {RRelease, RGone}"
  by (cases r) (simp_all add: state_defs split: if_splits)

text \<open>
  C22: In every schedule of \<open>ask_timeout\<close>, and in every schedule of \<open>ask\<close> except those in which the mailbox is closed and
  \<open>make_msg\<close> kept the responder out of the message (\<open>SendClosed True\<close>; \<open>ask_stash_uaf\<close> below shows that these are not
  safe), neither side touches the reply cell after its memory is gone and no uninitialised
  slot is read. A caller that is back with a value has the very value passed to \<open>reply\<close>; \<open>NoReply\<close>
  means the responder was dropped unanswered; \<open>Timeout\<close> only ever comes from \<open>ask_timeout\<close>, and
  \<open>WouldBlockCallingCore\<close> never after the send.
\<close>

theorem ask_safe:
  assumes "ask_run h as (ask_new h) = Some s" "h = Borrowed \<longrightarrow> SendClosed True \<notin> set as"
  shows "\<not> uaf s \<and> \<not> ub s \<and>
    (\<forall>res. caller s = KDone res \<longrightarrow>
      (case res of
         Ok v \<Rightarrow> answer s = Some v \<and> dropped s = []
       | Err NoReply \<Rightarrow> answer s = None \<and> resp s \<in> {RRelease, RGone}
       | Err AskClosed \<Rightarrow> h = Borrowed \<longrightarrow> answer s = None \<and> resp s = RGone
       | Err WouldBlockCallingCore \<Rightarrow> False
       | Err Timeout \<Rightarrow> h = Owned))"
proof (intro conjI allI impI)
  have I: "ask_inv h s" using ask_schedule_inv [OF assms(1)] assms(2) by (cases h) simp_all
  show "\<not> uaf s" "\<not> ub s" using inv_memory [OF I] by (simp_all add: memory_ok_def)
  fix res assume c: "caller s = KDone res"
  note L = left_result [OF I c] and R = inv_resp [OF I] and V = inv_value [OF I]
  show "case res of Ok v \<Rightarrow> answer s = Some v \<and> dropped s = []
       | Err NoReply \<Rightarrow> answer s = None \<and> resp s \<in> {RRelease, RGone}
       | Err AskClosed \<Rightarrow> h = Borrowed \<longrightarrow> answer s = None \<and> resp s = RGone
       | Err WouldBlockCallingCore \<Rightarrow> False
       | Err Timeout \<Rightarrow> h = Owned"
  proof (cases res)
    case (Ok v)
    then have "cell_state s = CONSUMED" "answer s = Some v" using L by simp_all
    moreover have "resp s \<noteq> RStore" using R calculation by (auto simp: state_defs)
    ultimately show ?thesis using Ok V by (simp add: value_ok_def state_defs)
  next
    case (Err e)
    have "answer s = None \<and> resp s \<in> {RRelease, RGone}" if "cell_state s = ABANDONED"
      using resp_abandoned R that by metis
    then show ?thesis using L Err by (cases e) auto
  qed
qed

lemma ask_reach_run: "ask_reach h s \<Longrightarrow> ask_run h as s = Some t \<Longrightarrow> ask_reach h t"
proof (induction as arbitrary: s)
  case (Cons a as)
  then show ?case using ask_reach.step by (fastforce split: option.splits)
qed simp

theorem ask_safe_witness:
  "\<exists>s. ask_run Borrowed [SendOk, CallerStep False, Reply (7::nat), RespStep, RespStep, CallerStep False,
        CallerStep False, RespStep, CallerStep False, CallerStep False] (ask_new Borrowed) = Some s \<and>
     \<not> uaf s \<and> \<not> ub s \<and> caller s = KDone (Ok 7) \<and> answer s = Some 7"
proof -
  let ?as = "[SendOk, CallerStep False, Reply (7::nat), RespStep, RespStep, CallerStep False,
        CallerStep False, RespStep, CallerStep False, CallerStep False]"
  obtain s where s: "ask_run Borrowed ?as (ask_new Borrowed) = Some s" "caller s = KDone (Ok 7)"
    by (simp add: ask_new_def touch_def drop_cell_def state_defs)
  from ask_safe [OF s(1)] s show ?thesis by auto
qed

text \<open>
  C23: In the same schedules, when both sides are done the cell's memory is released, and the value passed to \<open>reply\<close>, if any,
  has gone to exactly one place: the caller got it, or, after \<open>ask_timeout\<close> gave up or found the mailbox
  closed, it was dropped exactly once. Nothing is dropped when there was no reply. The caller of \<open>ask\<close>
  always gets it. (In the schedules left out, a reply to \<open>ask\<close> is written to the frame that is gone.)
\<close>

theorem ask_value_once:
  assumes "ask_run h as (ask_new h) = Some s" "h = Borrowed \<longrightarrow> SendClosed True \<notin> set as"
    and "caller s = KDone res" "resp s = RGone"
  shows "freed s \<and> cell_slot s = None \<and>
    (case answer s of
       None \<Rightarrow> dropped s = [] \<and> (\<exists>e. res = Err e)
     | Some v \<Rightarrow> res = Ok v \<and> dropped s = [] \<or> h = Owned \<and> (\<exists>e. res = Err e) \<and> dropped s = [v])"
proof -
  have I: "ask_inv h s" using ask_schedule_inv [OF assms(1)] assms(2) by (cases h) simp_all
  have f: "freed s" using inv_memory [OF I] assms(3,4) by (cases h) (simp_all add: memory_ok_def)
  note facts = left_result [OF I assms(3)] inv_resp [OF I] inv_value [OF I] assms(3,4) f
  show ?thesis
  proof (cases res)
    case (Ok v)
    then show ?thesis using facts by (simp add: value_ok_def state_defs)
  next
    case (Err e)
    then show ?thesis
      using facts by (cases "answer s"; cases h) (auto simp: value_ok_def state_defs split: if_splits)
  qed
qed

theorem ask_value_once_witness:
  "\<exists>s. ask_run Owned [SendOk, CallerStep True, CallerStep True, Reply (7::nat), RespStep, RespStep, RespStep]
        (ask_new Owned) = Some s \<and> caller s = KDone (Err Timeout) \<and> freed s \<and> dropped s = [7]"
proof -
  let ?as = "[SendOk, CallerStep True, CallerStep True, Reply (7::nat), RespStep, RespStep, RespStep]"
  obtain s where s: "ask_run Owned ?as (ask_new Owned) = Some s" "caller s = KDone (Err Timeout)"
      "resp s = RGone" "answer s = Some 7"
    by (simp add: ask_new_def touch_def drop_cell_def drop_ref_def state_defs)
  from ask_value_once [OF s(1) _ s(2,3)] s show ?thesis by auto
qed

subsection \<open>The caller comes back\<close>

fun resp_left :: "'r resp_pc \<Rightarrow> nat" where
  "resp_left (RWrite v) = 3"
| "resp_left RStore = 2"
| "resp_left RCas = 2"
| "resp_left RRelease = 1"
| "resp_left _ = 0"

lemma ask_run_append:
  "ask_run h (as @ bs) s = (case ask_run h as s of None \<Rightarrow> None | Some t \<Rightarrow> ask_run h bs t)"
  by (induction as arbitrary: s) (auto split: option.split)

lemma resp_finishes:
  "resp s \<notin> {RMsg, RHeld} \<Longrightarrow>
     \<exists>t. ask_run h (replicate (resp_left (resp s)) RespStep) s = Some t \<and>
       resp t = RGone \<and> caller t = caller s \<and> answer t = answer s"
  by (cases "resp s"; cases h)
    (auto simp: numeral_eq_Suc touch_def drop_ref_def drop_cell_def Let_def split: option.split)

lemma caller_finishes:
  assumes "ask_inv h s" "caller s = KWait" "resp s = RGone"
  shows "\<exists>t. ask_run h (replicate (if answer s = None then 2 else 4) (CallerStep e)) s = Some t \<and>
    caller t = KDone (case answer s of None \<Rightarrow> Err NoReply | Some v \<Rightarrow> Ok v)"
proof (cases "answer s")
  case None
  then have "cell_state s = ABANDONED" using inv_resp [OF assms(1)] assms(3) by simp
  then show ?thesis using None assms(2) by (auto simp: numeral_eq_Suc state_defs)
next
  case (Some v)
  then have st: "cell_state s = REPLIED"
    using inv_resp [OF assms(1)] inv_caller [OF assms(1)] assms(2,3) by auto
  then have "cell_slot s = Some v"
    using inv_value [OF assms(1)] caller_not_freed [OF assms(1)] assms(2) Some by (simp add: value_ok_def)
  then show ?thesis using Some st assms(2) by (auto simp: numeral_eq_Suc state_defs touch_def)
qed

text \<open>
  C24: A caller waiting in \<open>ask\<close> or \<open>ask_timeout\<close> comes back as soon as the responder is used: once the
  holder has called \<open>reply\<close> or has started to drop it, at most three steps of the holder and then at
  most four of the caller end the call, with the value replied, or with \<open>NoReply\<close> when there was none.
\<close>

theorem ask_returns:
  assumes "ask_reach h s" "caller s = KWait" "resp s \<notin> {RMsg, RHeld}"
  shows "\<exists>m \<le> 3. \<exists>n \<le> 4. \<exists>t. ask_run h (replicate m RespStep @ replicate n (CallerStep e)) s = Some t \<and>
    caller t = KDone (case answer s of None \<Rightarrow> Err NoReply | Some v \<Rightarrow> Ok v)"
proof -
  let ?m = "resp_left (resp s)" and ?n = "if answer s = None then 2 else 4"
  obtain t where t: "ask_run h (replicate ?m RespStep) s = Some t" "resp t = RGone"
      "caller t = KWait" "answer t = answer s"
    using resp_finishes [OF assms(3), of h] assms(2) by auto
  have "ask_inv h t" using ask_reach_inv [OF ask_reach_run [OF assms(1) t(1)] t(3)] .
  from caller_finishes [OF this t(3,2), of e] t(4) obtain u
    where "ask_run h (replicate ?n (CallerStep e)) t = Some u"
      "caller u = KDone (case answer s of None \<Rightarrow> Err NoReply | Some v \<Rightarrow> Ok v)" by auto
  then have "ask_run h (replicate ?m RespStep @ replicate ?n (CallerStep e)) s = Some u"
    using t(1) by (simp add: ask_run_append)
  moreover have "?m \<le> 3" by (cases "resp s") simp_all
  ultimately show ?thesis
    using \<open>caller u = _\<close> by (intro exI [of _ ?m] conjI exI [of _ ?n] exI [of _ u]) simp_all
qed

theorem ask_returns_witness:
  "\<exists>m \<le> 3. \<exists>n \<le> 4. \<exists>t. ask_run Borrowed ([SendOk, Reply (7::nat)] @ replicate m RespStep @
      replicate n (CallerStep False)) (ask_new Borrowed) = Some t \<and> caller t = KDone (Ok 7)"
proof -
  obtain s where s: "ask_run Borrowed [SendOk, Reply (7::nat)] (ask_new Borrowed) = Some s" "caller s = KWait"
      "resp s \<notin> {RMsg, RHeld}" "answer s = Some 7"
    by (simp add: ask_new_def)
  have "ask_reach Borrowed s" using ask_reach_run [OF ask_reach.start s(1)] .
  from ask_returns [OF this s(2,3), of False] s(1,4) show ?thesis
    by (simp only: ask_run_append) auto
qed

text \<open>
  C25: Past its deadline \<open>ask_timeout\<close> comes back whatever the holder of the responder does: from
  every reachable state in which the caller waits, at most four steps of the caller end the call, and
  while no reply is there the answer is \<open>Timeout\<close>. Under \<open>ask\<close> the same state is a fixed point of the
  loop: as long as the responder is held, the caller keeps waiting.
\<close>

theorem ask_timeout_returns:
  assumes "ask_reach h s" "caller s = KWait"
  shows "(h = Owned \<longrightarrow>
      (\<exists>n \<le> 4. \<exists>t r. ask_run h (replicate n (CallerStep True)) s = Some t \<and> caller t = KDone r \<and>
         (cell_state s = PENDING \<longrightarrow> r = Err Timeout))) \<and>
    (h = Borrowed \<longrightarrow> resp s = RHeld \<longrightarrow> ask_act h (CallerStep e) s = Some s)"
proof (intro conjI impI)
  have I: "ask_inv h s" using ask_reach_inv [OF assms] .
  note K = inv_caller [OF I] and R = inv_resp [OF I] and V = inv_value [OF I]
  have nf: "\<not> freed s" using caller_not_freed [OF I] assms(2) by simp
  { assume h: "h = Owned"
    have cs: "cell_state s = REPLIED \<and> (\<exists>v. cell_slot s = Some v) \<or> cell_state s = ABANDONED \<or> cell_state s = PENDING"
      using K R V nf assms(2)
      by (cases "resp s") (auto simp: value_ok_def state_defs split: if_splits)
    then consider v where "cell_state s = REPLIED" "cell_slot s = Some v" | "cell_state s = ABANDONED"
      | "cell_state s = PENDING" by blast
    then show "\<exists>n \<le> 4. \<exists>t r. ask_run h (replicate n (CallerStep True)) s = Some t \<and> caller t = KDone r \<and>
         (cell_state s = PENDING \<longrightarrow> r = Err Timeout)"
    proof cases
      case 1
      then show ?thesis
        using assms(2) nf by (intro exI [of _ 4]) (simp add: numeral_eq_Suc state_defs touch_def)
    next
      case 2
      then show ?thesis
        using assms(2) nf by (intro exI [of _ 2]) (simp add: numeral_eq_Suc state_defs touch_def)
    next
      case 3
      then show ?thesis
        using assms(2) nf h by (intro exI [of _ 2]) (simp add: numeral_eq_Suc state_defs touch_def)
    qed }
  assume "h = Borrowed" "resp s = RHeld"
  then show "ask_act h (CallerStep e) s = Some s"
    using R nf assms(2) by (simp add: touch_def state_defs)
qed

theorem ask_timeout_returns_witness:
  "\<exists>n \<le> 4. \<exists>t. ask_run Owned (SendOk # replicate n (CallerStep True)) (ask_new Owned :: nat ask) = Some t \<and>
     caller t = KDone (Err Timeout)"
proof -
  obtain s where s: "ask_act Owned SendOk (ask_new Owned :: nat ask) = Some s" "caller s = KWait"
      "cell_state s = PENDING"
    by (simp add: ask_new_def)
  have "ask_reach Owned s" using ask_reach.step [OF ask_reach.start s(1)] .
  from ask_timeout_returns [OF this s(2), of undefined] s(1,3) show ?thesis by auto
qed

text \<open>
  The excluded case of \<open>ask\<close> is real. \<open>make_msg\<close> may move the responder anywhere, so when the mailbox
  is closed the responder may outlive the call: then a reply, or just the drop of the responder, writes to the caller's stack
  after the call has returned. With \<open>ask_timeout\<close> the same schedules are safe.
\<close>

theorem ask_stash_uaf:
  "(\<exists>s. ask_run Borrowed [SendClosed True, CallerStep False, Reply v, RespStep] (ask_new Borrowed) = Some s \<and>
      caller s = KDone (Err AskClosed) \<and> uaf s) \<and>
   (\<exists>s. ask_run Borrowed [SendClosed True, CallerStep False, DropResponder, RespStep] (ask_new Borrowed :: 'r ask) = Some s \<and>
      caller s = KDone (Err AskClosed) \<and> uaf s) \<and>
   (\<exists>s. ask_run Owned [SendClosed True, CallerStep False, Reply v, RespStep, RespStep, RespStep] (ask_new Owned) = Some s \<and>
      caller s = KDone (Err AskClosed) \<and> \<not> uaf s \<and> dropped s = [v :: 'r])"
  by (simp add: ask_new_def touch_def drop_cell_def drop_ref_def state_defs)

end
