(* ===== verification/Spsc.thy ===== *)
theory Spsc
  imports Messages
begin

text \<open>
  The ring of \<open>core/src/spsc.rs\<close>: one producer and one consumer over a vector of slots. As in the
  MPSC queue every access to a shared atomic or to a slot is one step, and a schedule interleaves the
  steps of the two threads in any order. The sections below give the ring and its two operations, the
  two threads with their handles, the invariant, what it yields for every schedule, and the drop of
  the ring. Positions are machine words and wrap as in a build without overflow checks; a schedule
  shorter than \<open>2\<^sup>6\<^sup>4\<close> actions never gets there.
\<close>

subsection \<open>The ring\<close>

record 'a ring =
  slots :: "'a option list"
  cap :: usize
  head :: usize
  tail :: usize
  closed :: bool

text \<open>
  \<open>channel(capacity)\<close>: \<open>None\<close> is the failed assertion, or \<open>Vec::with_capacity\<close> refusing more than
  \<open>isize::MAX\<close> bytes, for slots of \<open>slot_bytes\<close> bytes each.
\<close>

definition spsc_channel :: "nat \<Rightarrow> usize \<Rightarrow> 'a ring option" where
  "spsc_channel slot_bytes capacity =
     (if 1 \<le> capacity \<and> unat capacity * slot_bytes < 2 ^ 63
      then Some \<lparr>slots = replicate (unat capacity) None, cap = capacity, head = 0, tail = 0, closed = False\<rparr>
      else None)"

definition ring_index :: "'a ring \<Rightarrow> usize \<Rightarrow> nat" where
  "ring_index q pos = unat (pos mod cap q)"

datatype 'a push_pc =
    PStart 'a
  | PLoadHead 'a usize
  | PWrite 'a usize
  | PPublish usize
  | PDone "'a send_result"

fun push_step :: "'a ring \<Rightarrow> 'a push_pc \<Rightarrow> 'a ring \<times> 'a push_pc" where
  "push_step q (PStart item) = (q, PLoadHead item (tail q))"
| "push_step q (PLoadHead item t) =
     (q, if t - head q = cap q then PDone (Err (Full item)) else PWrite item t)"
| "push_step q (PWrite item t) =
     (q\<lparr>slots := (slots q)[ring_index q t := Some item]\<rparr>, PPublish t)"
| "push_step q (PPublish t) = (q\<lparr>tail := t + 1\<rparr>, PDone (Ok ()))"
| "push_step q (PDone r) = (q, PDone r)"

text \<open>\<open>CUninit\<close> is the undefined behaviour of reading a slot that holds no value.\<close>

datatype 'a pop_pc =
    CStart
  | CLoadTail usize
  | CTake usize
  | CRelease usize 'a
  | CUninit
  | CDone "'a option"

fun pop_step :: "'a ring \<Rightarrow> 'a pop_pc \<Rightarrow> 'a ring \<times> 'a pop_pc" where
  "pop_step q CStart = (q, CLoadTail (head q))"
| "pop_step q (CLoadTail h) = (q, if h = tail q then CDone None else CTake h)"
| "pop_step q (CTake h) =
     (case slots q ! ring_index q h of
        None \<Rightarrow> (q, CUninit)
      | Some item \<Rightarrow> (q\<lparr>slots := (slots q)[ring_index q h := None]\<rparr>, CRelease h item))"
| "pop_step q (CRelease h item) = (q\<lparr>head := h + 1\<rparr>, CDone (Some item))"
| "pop_step q CUninit = (q, CUninit)"
| "pop_step q (CDone r) = (q, CDone r)"

definition is_closed :: "'a ring \<Rightarrow> bool" where
  "is_closed q = closed q"

definition producer_drop :: "'a ring \<Rightarrow> 'a ring" where
  "producer_drop q = q\<lparr>closed := True\<rparr>"

text \<open>\<open>Drop for Ring\<close>: the items in the order they are dropped; \<open>None\<close> is an uninitialised slot.\<close>

fun drop_range :: "nat list \<Rightarrow> 'a ring \<Rightarrow> ('a list \<times> 'a ring) option" where
  "drop_range [] q = Some ([], q)"
| "drop_range (p # ps) q =
     (case slots q ! (p mod unat (cap q)) of
        None \<Rightarrow> None
      | Some item \<Rightarrow>
          map_option (map_prod ((#) item) id)
            (drop_range ps (q\<lparr>slots := (slots q)[p mod unat (cap q) := None]\<rparr>)))"

definition ring_drop :: "'a ring \<Rightarrow> ('a list \<times> 'a ring) option" where
  "ring_drop q = drop_range [unat (head q)..<unat (tail q)] q"

subsection \<open>The two threads\<close>

text \<open>
  \<open>push_blocking\<close> starts over with the item handed back; \<open>try_push\<close> returns. \<open>written\<close> and \<open>taken\<close>
  record the items in the order in which they are put into slots and moved out of them.
\<close>

record 'a spsc =
  ring :: "'a ring"
  blocking :: bool
  ppc :: "'a push_pc"
  cpc :: "'a pop_pc"
  producer_live :: bool
  written :: "'a list"
  taken :: "'a list"

fun push_blocking_step :: "bool \<Rightarrow> 'a ring \<Rightarrow> 'a push_pc \<Rightarrow> 'a ring \<times> 'a push_pc" where
  "push_blocking_step True q (PDone (Err e)) = (q, PStart (try_into_message e))"
| "push_blocking_step _ q pc = push_step q pc"

definition spsc_start :: "'a ring \<Rightarrow> 'a spsc" where
  "spsc_start q = \<lparr>ring = q, blocking = False, ppc = PDone (Ok ()), cpc = CDone None,
     producer_live = True, written = [], taken = []\<rparr>"

fun written_item :: "'a push_pc \<Rightarrow> 'a list" where
  "written_item (PWrite item _) = [item]"
| "written_item _ = []"

definition taken_item :: "'a ring \<Rightarrow> 'a pop_pc \<Rightarrow> 'a list" where
  "taken_item q pc = (case snd (pop_step q pc) of CRelease h item \<Rightarrow> [item] | _ \<Rightarrow> [])"

fun push_returned :: "bool \<Rightarrow> 'a push_pc \<Rightarrow> bool" where
  "push_returned b (PDone (Ok _)) = True"
| "push_returned b (PDone (Err _)) = (\<not> b)"
| "push_returned b _ = False"

fun pop_returned :: "'a pop_pc \<Rightarrow> bool" where
  "pop_returned (CDone _) = True"
| "pop_returned _ = False"

datatype 'a spsc_action = CallPush bool 'a | PushStep | DropProducer | CallPop | PopStep

fun spsc_act :: "'a spsc_action \<Rightarrow> 'a spsc \<Rightarrow> 'a spsc option" where
  "spsc_act (CallPush b item) s =
     (if producer_live s \<and> push_returned (blocking s) (ppc s)
      then Some (s\<lparr>blocking := b, ppc := PStart item\<rparr>) else None)"
| "spsc_act PushStep s =
     (if push_returned (blocking s) (ppc s) then None
      else (case push_blocking_step (blocking s) (ring s) (ppc s) of
              (q, pc) \<Rightarrow> Some (s\<lparr>ring := q, ppc := pc, written := written s @ written_item (ppc s)\<rparr>)))"
| "spsc_act DropProducer s =
     (if producer_live s \<and> push_returned (blocking s) (ppc s)
      then Some (s\<lparr>ring := producer_drop (ring s), producer_live := False\<rparr>) else None)"
| "spsc_act CallPop s = (if pop_returned (cpc s) then Some (s\<lparr>cpc := CStart\<rparr>) else None)"
| "spsc_act PopStep s =
     (if pop_returned (cpc s) then None
      else (case pop_step (ring s) (cpc s) of
              (q, pc) \<Rightarrow> Some (s\<lparr>ring := q, cpc := pc, taken := taken s @ taken_item (ring s) (cpc s)\<rparr>)))"

fun spsc_run :: "'a spsc_action list \<Rightarrow> 'a spsc \<Rightarrow> 'a spsc option" where
  "spsc_run [] s = Some s"
| "spsc_run (a # as) s = (case spsc_act a s of None \<Rightarrow> None | Some t \<Rightarrow> spsc_run as t)"

subsection \<open>Invariant\<close>

text \<open>
  The items written and not yet taken sit in the slots from position \<open>length taken\<close> on, every other
  slot is empty. The published positions lag behind by the item in flight at either end.
\<close>

definition slots_ok :: "'a option list \<Rightarrow> nat \<Rightarrow> 'a list \<Rightarrow> nat \<Rightarrow> bool" where
  "slots_ok sl c w k \<longleftrightarrow> length sl = c \<and> 0 < c \<and>
     (\<forall>j<c. sl ! ((k + j) mod c) = (if k + j < length w then Some (w ! (k + j)) else None))"

fun push_ok :: "'a push_pc \<Rightarrow> usize \<Rightarrow> usize \<Rightarrow> usize \<Rightarrow> nat \<Rightarrow> bool" where
  "push_ok (PStart item) c h t n = (n = unat t)"
| "push_ok (PLoadHead item p) c h t n = (n = unat t \<and> p = t)"
| "push_ok (PWrite item p) c h t n = (n = unat t \<and> p = t \<and> n - unat h < unat c)"
| "push_ok (PPublish p) c h t n = (n = Suc (unat t) \<and> p = t)"
| "push_ok (PDone r) c h t n = (n = unat t)"

fun pop_ok :: "'a pop_pc \<Rightarrow> usize \<Rightarrow> usize \<Rightarrow> 'a list \<Rightarrow> bool" where
  "pop_ok CStart h t w = (length w = unat h)"
| "pop_ok (CLoadTail p) h t w = (length w = unat h \<and> p = h)"
| "pop_ok (CTake p) h t w = (length w = unat h \<and> p = h \<and> h < t)"
| "pop_ok (CRelease p item) h t w = (length w = Suc (unat h) \<and> p = h \<and> last w = item)"
| "pop_ok CUninit h t w = False"
| "pop_ok (CDone r) h t w = (length w = unat h)"

definition spsc_inv :: "'a spsc \<Rightarrow> bool" where
  "spsc_inv s \<longleftrightarrow>
     (let q = ring s; w = written s; k = length (taken s)
      in slots_ok (slots q) (unat (cap q)) w k \<and> take k w = taken s \<and> k \<le> unat (tail q) \<and>
         head q \<le> tail q \<and> length w - unat (head q) \<le> unat (cap q) \<and>
         push_ok (ppc s) (cap q) (head q) (tail q) (length w) \<and>
         pop_ok (cpc s) (head q) (tail q) (taken s))"

lemma slots_ok_write:
  assumes "slots_ok sl c w k" "k \<le> length w" "length w - k < c"
  shows "slots_ok (sl[length w mod c := Some x]) c (w @ [x]) k"
  unfolding slots_ok_def
proof (intro conjI allI impI)
  show "length (sl[length w mod c := Some x]) = c" "0 < c" using assms(1) by (simp_all add: slots_ok_def)
  fix j assume j: "j < c"
  have old: "sl ! ((k + j) mod c) = (if k + j < length w then Some (w ! (k + j)) else None)"
    using assms(1) j by (simp add: slots_ok_def)
  obtain m where m: "length w = k + m" "m < c" using assms(2,3) by (metis add_diff_inverse_nat not_le)
  have "(k + m) mod c = (k + j) mod c \<longleftrightarrow> m = j" using m(2) j by (simp add: mod_add_left_cancel)
  moreover have "(k + m) mod c < length sl" using assms(1) j by (simp add: slots_ok_def)
  ultimately show "sl[length w mod c := Some x] ! ((k + j) mod c) =
      (if k + j < length (w @ [x]) then Some ((w @ [x]) ! (k + j)) else None)"
    using old by (auto simp: m(1) nth_list_update nth_append)
qed

lemma slots_ok_take:
  assumes "slots_ok sl c w k" "k < length w" "length w - k \<le> c"
  shows "sl ! (k mod c) = Some (w ! k)" "slots_ok (sl[k mod c := None]) c w (Suc k)"
proof -
  have c: "length sl = c" "0 < c" using assms(1) by (simp_all add: slots_ok_def)
  have old: "sl ! ((k + j) mod c) = (if k + j < length w then Some (w ! (k + j)) else None)" if "j < c" for j
    using assms(1) that by (simp add: slots_ok_def)
  show "sl ! (k mod c) = Some (w ! k)" using old [of 0] c assms(2) by simp
  have "sl[k mod c := None] ! ((Suc k + j) mod c) = (if Suc k + j < length w then Some (w ! (Suc k + j)) else None)"
    if j: "j < c" for j
  proof (cases "Suc j = c")
    case True
    then have e: "Suc k + j = k + c" by simp
    have "(Suc k + j) mod c = k mod c" "\<not> Suc k + j < length w" unfolding e using assms(3) by simp_all
    then show ?thesis using c by simp
  next
    case False
    then have "(k + 0) mod c \<noteq> (k + Suc j) mod c" using j mod_add_left_cancel [of k 0 c "Suc j"] by simp
    then show ?thesis using old [of "Suc j"] j False c by simp
  qed
  then show "slots_ok (sl[k mod c := None]) c w (Suc k)" using c by (simp add: slots_ok_def)
qed

lemma ring_index_mod: "ring_index q p = unat p mod unat (cap q)"
  by (simp add: ring_index_def unat_mod_distrib)

lemma spsc_start_inv: "spsc_channel sb c = Some q \<Longrightarrow> spsc_inv (spsc_start q)"
  by (auto simp: spsc_channel_def spsc_start_def spsc_inv_def slots_ok_def Let_def unat_gt_0 word_le_nat_alt
      split: if_splits)

lemma unat_next: "unat (p :: usize) + 1 < 2 ^ 64 \<Longrightarrow> unat (p + 1) = Suc (unat p)"
  by (simp add: unat_word_ariths)

lemma push_step_inv:
  assumes "spsc_inv s" "spsc_act PushStep s = Some t" "length (written t) < 2 ^ 64"
  shows "spsc_inv t"
proof (cases "ppc s")
  case (PLoadHead item p)
  let ?q = "ring s"
  have t: "t = s\<lparr>ppc := if tail ?q - head ?q = cap ?q then PDone (Err (Full item)) else PWrite item p\<rparr>"
    using assms(1,2) PLoadHead by (auto simp: spsc_inv_def Let_def)
  have "unat (tail ?q - head ?q) = unat (tail ?q) - unat (head ?q)"
    using assms(1) by (simp add: spsc_inv_def Let_def unat_sub)
  then have "unat (tail ?q) - unat (head ?q) < unat (cap ?q)" if "tail ?q - head ?q \<noteq> cap ?q"
    using assms(1) PLoadHead that 
    by (auto simp: spsc_inv_def Let_def) (metis le_neq_implies_less unsigned_word_eqI)
  then show ?thesis using assms(1) PLoadHead unfolding t by (auto simp: spsc_inv_def Let_def)
next
  case (PWrite item p)
  let ?q = "ring s" and ?w = "written s" and ?k = "length (taken s)"
  have t: "t = s\<lparr>ring := ?q\<lparr>slots := (slots ?q)[length ?w mod unat (cap ?q) := Some item]\<rparr>,
      ppc := PPublish p, written := ?w @ [item]\<rparr>"
    using assms(1,2) PWrite by (auto simp: spsc_inv_def Let_def ring_index_mod)
  have k: "unat (head ?q) \<le> ?k" using assms(1) by (cases "cpc s") (auto simp: spsc_inv_def Let_def)
  then have "slots_ok ((slots ?q)[length ?w mod unat (cap ?q) := Some item]) (unat (cap ?q)) (?w @ [item]) ?k"
    using assms(1) PWrite by (intro slots_ok_write) (auto simp: spsc_inv_def Let_def)
  then show ?thesis using assms(1) PWrite unfolding t by (auto simp: spsc_inv_def Let_def)
next
  case (PPublish p)
  let ?q = "ring s"
  have t: "t = s\<lparr>ring := ?q\<lparr>tail := tail ?q + 1\<rparr>, ppc := PDone (Ok ())\<rparr>"
    and n: "length (written s) = Suc (unat (tail ?q))"
    using assms(1,2) PPublish by (auto simp: spsc_inv_def Let_def)
  have "unat (tail ?q + 1) = Suc (unat (tail ?q))" using assms(3) n by (intro unat_next) (simp add: t)
  then show ?thesis using assms(1) PPublish n unfolding t
    by (cases "cpc s") (auto simp: spsc_inv_def Let_def word_le_nat_alt word_less_nat_alt)
next
  case (PStart item)
  then show ?thesis using assms(1,2) by (auto simp: spsc_inv_def Let_def)
next
  case (PDone r)
  then show ?thesis using assms(1,2) by (cases r; cases "blocking s") (auto simp: spsc_inv_def Let_def)
qed

lemma pop_step_inv:
  assumes "spsc_inv s" "spsc_act PopStep s = Some t"
  shows "spsc_inv t"
proof (cases "cpc s")
  case (CLoadTail p)
  then show ?thesis using assms by (auto simp: spsc_inv_def Let_def taken_item_def)
next
  case (CTake p)
  let ?q = "ring s" and ?w = "written s" and ?k = "length (taken s)" and ?c = "unat (cap (ring s))"
  have k: "?k = unat (head ?q)" "p = head ?q" "head ?q < tail ?q" using assms(1) CTake by (auto simp: spsc_inv_def Let_def)
  have n: "unat (tail ?q) \<le> length ?w" "length ?w - ?k \<le> ?c" "slots_ok (slots ?q) ?c ?w ?k"
    using assms(1) k(1) by (cases "ppc s"; auto simp: spsc_inv_def Let_def)+
  then have kw: "?k < length ?w" using k by (simp add: word_less_nat_alt)
  note sl = slots_ok_take [OF n(3) kw n(2)]
  have i: "ring_index ?q p = ?k mod ?c" by (simp add: ring_index_mod k)
  have t: "t = s\<lparr>ring := ?q\<lparr>slots := (slots ?q)[?k mod ?c := None]\<rparr>, cpc := CRelease p (?w ! ?k),
      taken := taken s @ [?w ! ?k]\<rparr>"
    using assms(2) CTake sl(1) by (simp add: i taken_item_def)
  have "take (Suc ?k) ?w = taken s @ [?w ! ?k]"
    using assms(1) kw by (simp add: spsc_inv_def Let_def take_Suc_conv_app_nth)
  then show ?thesis
    using assms(1) k sl(2) CTake unfolding t by (auto simp: spsc_inv_def Let_def word_less_nat_alt)
next
  case (CRelease p item)
  let ?q = "ring s"
  have t: "t = s\<lparr>ring := ?q\<lparr>head := head ?q + 1\<rparr>, cpc := CDone (Some item)\<rparr>"
    and k: "length (taken s) = Suc (unat (head ?q))" "length (taken s) \<le> unat (tail ?q)"
    using assms CRelease by (auto simp: spsc_inv_def Let_def taken_item_def)
  have "unat (tail ?q) < 2 ^ 64" using unsigned_less [of "tail ?q"] by simp
  then have "unat (head ?q + 1) = Suc (unat (head ?q))" using k by (intro unat_next) simp
  then show ?thesis using assms(1) CRelease k unfolding t
    by (cases "ppc s") (auto simp: spsc_inv_def Let_def word_le_nat_alt)
qed (use assms in \<open>auto simp: spsc_inv_def Let_def taken_item_def\<close>)

lemma push_returned_done: "push_returned b pc \<Longrightarrow> \<exists>r. pc = PDone r"
  by (cases pc) auto

lemma pop_returned_done: "pop_returned pc \<Longrightarrow> \<exists>r. pc = CDone r"
  by (cases pc) auto

lemma spsc_act_inv:
  assumes "spsc_inv s" "spsc_act a s = Some t" "length (written t) < 2 ^ 64"
  shows "spsc_inv t"
proof (cases a)
  case (CallPush b item)
  then show ?thesis using assms by (auto simp: spsc_inv_def Let_def dest!: push_returned_done split: if_splits)
next
  case DropProducer
  then show ?thesis using assms by (auto simp: spsc_inv_def Let_def producer_drop_def split: if_splits)
next
  case CallPop
  then show ?thesis using assms by (auto simp: spsc_inv_def Let_def dest!: pop_returned_done split: if_splits)
qed (use assms push_step_inv pop_step_inv in blast)+

lemma spsc_act_grows: "spsc_act a s = Some t \<Longrightarrow> length (written s) \<le> length (written t) \<and> length (written t) \<le> Suc (length (written s))"
  by (cases a; cases "ppc s") (auto split: if_splits prod.splits)

lemma spsc_run_inv:
  "spsc_run as s = Some t \<Longrightarrow> spsc_inv s \<Longrightarrow> length (written s) + length as < 2 ^ 64 \<Longrightarrow> spsc_inv t"
proof (induction as arbitrary: s)
  case (Cons a as)
  then obtain u where u: "spsc_act a s = Some u" "spsc_run as u = Some t" by (auto split: option.splits)
  note spsc_act_grows [OF u(1)]
  then show ?case using Cons u spsc_act_inv [OF _ u(1)] by simp
qed simp

lemma spsc_reach_inv:
  assumes "spsc_channel sb c = Some q" "spsc_run as (spsc_start q) = Some s" "length as < 2 ^ 64"
  shows "spsc_inv s"
  using spsc_run_inv [OF assms(2) spsc_start_inv [OF assms(1)]] assms(3) by (simp add: spsc_start_def)

lemma spsc_inv_bounds:
  assumes "spsc_inv s"
  shows "unat (head (ring s)) \<le> length (taken s)" "length (taken s) \<le> length (written s)"
    "unat (tail (ring s)) \<le> length (written s)" "length (written s) - unat (head (ring s)) \<le> unat (cap (ring s))"
  using assms by (cases "ppc s"; cases "cpc s"; auto simp: spsc_inv_def Let_def)+

lemma push_step_cap: "cap (fst (push_step q pc)) = cap q"
  by (cases pc) simp_all

lemma spsc_act_cap: "spsc_act a s = Some t \<Longrightarrow> cap (ring t) = cap (ring s)"
proof (cases a)
  case PushStep
  assume "spsc_act a s = Some t"
  moreover have "cap (fst (push_blocking_step b r pc)) = cap r" for b r and pc :: "'a push_pc"
    by (cases "(b, r, pc)" rule: push_blocking_step.cases; simp add: push_step_cap)
  ultimately show ?thesis using PushStep by (auto split: if_splits prod.splits) (metis fst_conv)
next
  case PopStep
  assume "spsc_act a s = Some t"
  then show ?thesis using PopStep by (cases "cpc s") (auto split: option.splits)
qed (auto simp: producer_drop_def split: if_splits)

lemma spsc_run_cap: "spsc_run as s = Some t \<Longrightarrow> cap (ring t) = cap (ring s)"
  by (induction as arbitrary: s) (auto simp: spsc_act_cap split: option.splits)

subsection \<open>Every schedule\<close>

text \<open>
  C28: In every schedule of one producer and one consumer on a fresh ring of the SPSC queue, the items
  taken out are a prefix of the items put in, in the same order, and never more than the capacity are
  inside. No uninitialised slot is read, no live item is overwritten, and while the producer is about
  to write a slot the consumer is never about to read that slot.
\<close>

theorem spsc_fifo:
  assumes "spsc_channel sb c = Some q" "spsc_run as (spsc_start q) = Some s" "length as < 2 ^ 64"
  shows "(\<exists>rest. written s = taken s @ rest \<and> length rest \<le> unat c) \<and> cpc s \<noteq> CUninit \<and>
    (\<forall>item t. ppc s = PWrite item t \<longrightarrow> slots (ring s) ! ring_index (ring s) t = None \<and>
       (\<forall>h. cpc s = CTake h \<longrightarrow> ring_index (ring s) t \<noteq> ring_index (ring s) h))"
proof (intro conjI allI impI)
  have I: "spsc_inv s" using spsc_reach_inv [OF assms] .
  have c: "cap (ring s) = c" using spsc_run_cap [OF assms(2)] assms(1)
    by (auto simp: spsc_channel_def spsc_start_def split: if_splits)
  let ?w = "written s" and ?k = "length (taken s)" and ?c = "unat (cap (ring s))"
  note B = spsc_inv_bounds [OF I]
  have "?w = taken s @ drop ?k ?w" using I append_take_drop_id [of ?k ?w] by (simp add: spsc_inv_def Let_def)
  moreover have "length (drop ?k ?w) \<le> unat c" using B(1,4) c by simp
  ultimately show "\<exists>rest. ?w = taken s @ rest \<and> length rest \<le> unat c" by blast
  show "cpc s \<noteq> CUninit" using I by (auto simp: spsc_inv_def Let_def)
  fix item t assume w: "ppc s = PWrite item t"
  then have n: "length ?w = unat (tail (ring s))" "t = tail (ring s)" "length ?w - unat (head (ring s)) < ?c"
    using I by (auto simp: spsc_inv_def Let_def)
  then obtain j where j: "length ?w = ?k + j" "j < ?c" using B(1,2)
    by (intro that [of "length ?w - ?k"]) simp_all
  have sl: "slots_ok (slots (ring s)) ?c ?w ?k" using I by (simp add: spsc_inv_def Let_def)
  have i: "ring_index (ring s) t = (?k + j) mod ?c" using n j by (simp add: ring_index_mod)
  show "slots (ring s) ! ring_index (ring s) t = None" unfolding i using sl j by (simp add: slots_ok_def)
  fix h assume "cpc s = CTake h"
  then have h: "ring_index (ring s) h = (?k + 0) mod ?c" "?k < length ?w"
    using I n by (auto simp: spsc_inv_def Let_def ring_index_mod word_less_nat_alt)
  show "ring_index (ring s) t \<noteq> ring_index (ring s) h"
    unfolding i h(1) mod_add_left_cancel using h(2) j by simp
qed


theorem spsc_fifo_witness:
  "\<exists>q s. spsc_channel 16 2 = Some q \<and>
     spsc_run [CallPush False (1::nat), PushStep, PushStep, PushStep, PushStep, CallPop, CallPush False 2, PushStep,
       PopStep, PushStep, PopStep, PopStep, PushStep]
       (spsc_start q) = Some s \<and>
     written s = [1, 2] \<and> taken s = [1] \<and> cpc s \<noteq> CUninit"
proof -
  let ?as = "[CallPush False (1::nat), PushStep, PushStep, PushStep, PushStep, CallPop, CallPush False 2, PushStep,
       PopStep, PushStep, PopStep, PopStep, PushStep]"
  let ?q = "\<lparr>slots = [None, None], cap = 2, head = 0, tail = 0, closed = False\<rparr> :: nat ring"
  have "replicate 2 None = [None, None :: nat option]" by (simp add: numeral_2_eq_2)
  then have q: "spsc_channel 16 2 = Some ?q" by (simp add: spsc_channel_def)
  have "map_option (\<lambda>s. (written s, taken s)) (spsc_run ?as (spsc_start ?q)) = Some ([1, 2], [1])"
    by (simp add: spsc_start_def ring_index_def taken_item_def)
  then obtain s where s: "spsc_run ?as (spsc_start ?q) = Some s" "written s = [1, 2]" "taken s = [1]" by auto
  have "cpc s \<noteq> CUninit" using spsc_fifo [OF q s(1)] by simp
  then show ?thesis using q s by blast
qed

subsection \<open>Dropping the ring\<close>

lemma drop_range_rest:
  "slots_ok (slots q) (unat (cap q)) w k \<Longrightarrow> k + n = length w \<Longrightarrow> n \<le> unat (cap q) \<Longrightarrow>
     \<exists>q'. drop_range [k..<k + n] q = Some (drop k w, q') \<and> slots_ok (slots q') (unat (cap q)) w (k + n)"
proof (induction n arbitrary: k q)
  case (Suc n)
  let ?c = "unat (cap q)"
  have k: "k < length w" "length w - k \<le> ?c" using Suc.prems by simp_all
  note sl = slots_ok_take [OF Suc.prems(1) k]
  let ?q = "q\<lparr>slots := (slots q)[k mod ?c := None]\<rparr>"
  obtain q' where "drop_range [Suc k..<Suc k + n] ?q = Some (drop (Suc k) w, q')"
      "slots_ok (slots q') ?c w (Suc k + n)"
    using Suc.IH [of ?q "Suc k"] sl(2) Suc.prems by auto
  moreover have "[k..<k + Suc n] = k # [Suc k..<Suc k + n]" by (simp add: upt_conv_Cons del: upt_Suc)
  ultimately show ?case using sl(1) k(1) by (simp add: Cons_nth_drop_Suc del: upt_Suc)
qed simp

text \<open>
  C29: Once neither end is inside a call, dropping the ring of the SPSC queue touches only slots that hold an
  item and drops exactly the items that were pushed and never popped, each once, in order: the items
  popped followed by the items dropped are the items pushed. No slot holds a live item afterwards.
\<close>

theorem spsc_drop_exact:
  assumes "spsc_channel sb c = Some q" "spsc_run as (spsc_start q) = Some s" "length as < 2 ^ 64"
    and "push_returned (blocking s) (ppc s)" "pop_returned (cpc s)"
  shows "\<exists>rest q'. ring_drop (ring s) = Some (rest, q') \<and> taken s @ rest = written s \<and>
    slots q' = replicate (unat c) None"
proof -
  have I: "spsc_inv s" using spsc_reach_inv [OF assms(1-3)] .
  have c: "cap (ring s) = c" using spsc_run_cap [OF assms(2)] assms(1)
    by (auto simp: spsc_channel_def spsc_start_def split: if_splits)
  let ?w = "written s" and ?k = "length (taken s)" and ?c = "unat (cap (ring s))"
  have kn: "?k = unat (head (ring s))" "length ?w = unat (tail (ring s))" "take ?k ?w = taken s"
    using I push_returned_done [OF assms(4)] pop_returned_done [OF assms(5)] by (auto simp: spsc_inv_def Let_def)
  note B = spsc_inv_bounds [OF I]
  have sl: "slots_ok (slots (ring s)) ?c ?w ?k" using I by (simp add: spsc_inv_def Let_def)
  obtain q' where q': "drop_range [?k..<length ?w] (ring s) = Some (drop ?k ?w, q')"
      "slots_ok (slots q') ?c ?w (length ?w)"
    using drop_range_rest [OF sl, of "length ?w - ?k"] B kn(1) by auto
  have "slots q' ! i = None" if i: "i < ?c" for i
  proof -
    define d where "d = ?c - length ?w mod ?c"
    have d: "length ?w mod ?c + d = ?c" using i by (simp add: d_def less_imp_le)
    let ?j = "(i + d) mod ?c"
    have "(length ?w + ?j) mod ?c = (length ?w mod ?c + (i + d)) mod ?c" by (simp add: mod_simps)
    also have "length ?w mod ?c + (i + d) = i + ?c" using d by simp
    also have "(i + ?c) mod ?c = i" using i by simp
    finally show ?thesis using q'(2) i by (auto simp: slots_ok_def dest!: spec [of _ ?j])
  qed
  then have "slots q' = replicate (unat c) None"
    using q'(2) c by (intro nth_equalityI) (simp_all add: slots_ok_def)
  moreover have "taken s @ drop ?k ?w = ?w" using append_take_drop_id [of ?k ?w] kn(3) by simp
  ultimately show ?thesis using q'(1) kn by (auto simp: ring_drop_def)
qed

theorem spsc_drop_exact_witness:
  "\<exists>q s rest q'. spsc_channel 16 1 = Some q \<and>
     spsc_run [CallPush True (7::nat), PushStep, PushStep, PushStep, PushStep, DropProducer] (spsc_start q) = Some s \<and>
     is_closed (ring s) \<and> ring_drop (ring s) = Some (rest, q') \<and> rest = [7]"
proof -
  let ?as = "[CallPush True (7::nat), PushStep, PushStep, PushStep, PushStep, DropProducer]"
  let ?q = "\<lparr>slots = [None], cap = 1, head = 0, tail = 0, closed = False\<rparr> :: nat ring"
  have q: "spsc_channel 16 1 = Some ?q" by (simp add: spsc_channel_def)
  have "map_option (\<lambda>s. (written s, taken s, is_closed (ring s), push_returned (blocking s) (ppc s), pop_returned (cpc s)))
      (spsc_run ?as (spsc_start ?q)) = Some ([7], [], True, True, True)"
    by (simp add: spsc_start_def ring_index_def taken_item_def producer_drop_def is_closed_def)
  then obtain s where s: "spsc_run ?as (spsc_start ?q) = Some s" "written s = [7]" "taken s = []" "is_closed (ring s)"
      "push_returned (blocking s) (ppc s)" "pop_returned (cpc s)" by auto
  from spsc_drop_exact [OF q s(1) _ s(5,6)] q s show ?thesis by auto
qed

subsection \<open>Progress\<close>

lemma push_with_room:
  assumes "spsc_inv s" "blocking s" "\<not> push_returned True (ppc s)"
    and room: "unat (tail (ring s)) - unat (head (ring s)) < unat (cap (ring s))"
  shows "\<exists>n\<le>5. \<exists>t. spsc_run (replicate n PushStep) s = Some t \<and> ppc t = PDone (Ok ())"
proof -
  let ?q = "ring s"
  have "unat (tail ?q - head ?q) = unat (tail ?q) - unat (head ?q)"
    using assms(1) by (simp add: spsc_inv_def Let_def unat_sub)
  then have ne: "tail ?q - head ?q \<noteq> cap ?q" using room by auto
  show ?thesis
  proof (cases "ppc s")
    case (PStart item)
    then show ?thesis using ne assms(2) by (intro exI [of _ 4]) (simp add: numeral_eq_Suc)
  next
    case (PLoadHead item p)
    then have "p = tail ?q" using assms(1) by (simp add: spsc_inv_def Let_def)
    then show ?thesis using PLoadHead ne assms(2) by (intro exI [of _ 3]) (simp add: numeral_eq_Suc)
  next
    case (PWrite item p)
    then show ?thesis using assms(2) by (intro exI [of _ 2]) (simp add: numeral_eq_Suc)
  next
    case (PPublish p)
    then show ?thesis using assms(2) by (intro exI [of _ 1]) simp
  next
    case (PDone r)
    then obtain e where "r = Err e" using assms(3) by (cases r) auto
    then show ?thesis using PDone ne assms(2) by (intro exI [of _ 5]) (simp add: numeral_eq_Suc)
  qed
qed

lemma pop_frees:
  assumes "spsc_inv s" "pop_returned (cpc s)" "head (ring s) < tail (ring s)"
  shows "\<exists>t. spsc_run (CallPop # replicate 4 PopStep) s = Some t \<and> head (ring t) = head (ring s) + 1 \<and>
    tail (ring t) = tail (ring s) \<and> cap (ring t) = cap (ring s) \<and> ppc t = ppc s \<and>
    blocking t = blocking s \<and> written t = written s"
proof -
  let ?q = "ring s" and ?w = "written s" and ?c = "unat (cap (ring s))"
  have k: "length (taken s) = unat (head ?q)"
    using assms(1) pop_returned_done [OF assms(2)] by (auto simp: spsc_inv_def Let_def)
  have "unat (head ?q) < length ?w"
    using spsc_inv_bounds(3) [OF assms(1)] assms(3) by (simp add: word_less_nat_alt)
  then have "slots ?q ! ring_index ?q (head ?q) = Some (?w ! unat (head ?q))"
    using assms(1) spsc_inv_bounds(4) [OF assms(1)] k
    by (simp add: ring_index_mod slots_ok_take(1) spsc_inv_def Let_def)
  moreover have "head ?q \<noteq> tail ?q" using assms(3) by auto
  ultimately show ?thesis using assms(2) by (simp add: numeral_eq_Suc)
qed

lemma spsc_run_append:
  "spsc_run (as @ bs) s = (case spsc_run as s of None \<Rightarrow> None | Some t \<Rightarrow> spsc_run bs t)"
  by (induction as arbitrary: s) (auto split: option.split)

text \<open>
  A \<open>push_blocking\<close> that is under way always comes to its end when the consumer drains: at most one
  \<open>try_pop\<close> by a consumer at rest, and then at most five steps of the producer, complete it, whatever
  the fill level of the ring.
\<close>

theorem spsc_push_blocking_returns:
  assumes "spsc_channel sb c = Some q" "spsc_run as (spsc_start q) = Some s" "length as + 5 < 2 ^ 64"
    and "blocking s" "\<not> push_returned True (ppc s)" "pop_returned (cpc s)"
  shows "\<exists>pops n t. pops \<in> {[], CallPop # replicate 4 PopStep} \<and> n \<le> 5 \<and>
    spsc_run (pops @ replicate n PushStep) s = Some t \<and> ppc t = PDone (Ok ())"
proof -
  have I: "spsc_inv s" using spsc_reach_inv [OF assms(1,2)] assms(3) by simp
  let ?q = "ring s"
  show ?thesis
  proof (cases "unat (tail ?q) - unat (head ?q) < unat (cap ?q)")
    case True
    then obtain n t where "n \<le> 5" "spsc_run (replicate n PushStep) s = Some t" "ppc t = PDone (Ok ())"
      using push_with_room [OF I assms(4,5)] by blast
    then show ?thesis by (intro exI [of _ "[]"] exI [of _ n] exI [of _ t]) simp
  next
    case False
    have c: "0 < unat (cap ?q)" using I by (simp add: spsc_inv_def Let_def slots_ok_def)
    then have ht: "head ?q < tail ?q" using False by (simp add: word_less_nat_alt)
    obtain u where u: "spsc_run (CallPop # replicate 4 PopStep) s = Some u" "head (ring u) = head ?q + 1"
        "tail (ring u) = tail ?q" "cap (ring u) = cap ?q" "ppc u = ppc s" "blocking u" "written u = written s"
      using pop_frees [OF I assms(6) ht] assms(4) by metis
    have run: "spsc_run (as @ CallPop # replicate 4 PopStep) (spsc_start q) = Some u"
      using assms(2) u(1) by (simp add: spsc_run_append)
    have J: "spsc_inv u" using spsc_reach_inv [OF assms(1) run] assms(3) by simp
    have "unat (tail ?q) < 2 ^ 64" using unsigned_less [of "tail ?q"] by simp
    then have "unat (head ?q + 1) = Suc (unat (head ?q))" using ht by (intro unat_next) (simp add: word_less_nat_alt)
    moreover have "unat (tail ?q) - unat (head ?q) \<le> unat (cap ?q)"
      using spsc_inv_bounds(3,4) [OF I] by simp
    ultimately have "unat (tail (ring u)) - unat (head (ring u)) < unat (cap (ring u))" using u c ht
      by (simp add: word_less_nat_alt)
    then obtain n t where "n \<le> 5" "spsc_run (replicate n PushStep) u = Some t" "ppc t = PDone (Ok ())"
      using push_with_room [OF J u(6)] assms(5) u(5) by auto
    moreover from this u(1) have "spsc_run ((CallPop # replicate 4 PopStep) @ replicate n PushStep) s = Some t"
      by (simp only: spsc_run_append) simp
    ultimately show ?thesis by blast
  qed
qed

theorem spsc_push_blocking_returns_witness:
  "\<exists>q s pops n t. spsc_channel 16 1 = Some q \<and>
     spsc_run [CallPush True (7::nat), PushStep, PushStep, PushStep, PushStep, CallPush True 8, PushStep, PushStep]
       (spsc_start q) = Some s \<and> ppc s = PDone (Err (Full 8)) \<and>
     spsc_run (pops @ replicate n PushStep) s = Some t \<and> ppc t = PDone (Ok ())"
proof -
  let ?as = "[CallPush True (7::nat), PushStep, PushStep, PushStep, PushStep, CallPush True 8, PushStep, PushStep]"
  let ?q = "\<lparr>slots = [None], cap = 1, head = 0, tail = 0, closed = False\<rparr> :: nat ring"
  have q: "spsc_channel 16 1 = Some ?q" by (simp add: spsc_channel_def)
  have "map_option (\<lambda>s. (blocking s, ppc s, pop_returned (cpc s))) (spsc_run ?as (spsc_start ?q)) =
      Some (True, PDone (Err (Full 8)), True)"
    by (simp add: spsc_start_def ring_index_def)
  then obtain s where s: "spsc_run ?as (spsc_start ?q) = Some s" "blocking s" "ppc s = PDone (Err (Full 8))"
      "pop_returned (cpc s)" by auto
  from s(3) have "\<not> push_returned True (ppc s)" by simp
  from spsc_push_blocking_returns [OF q s(1) _ s(2) this s(4)] q s show ?thesis by simp blast
qed

subsection \<open>One producer only\<close>

text \<open>
  \<open>Producer\<close> can be shared by reference between threads (\<open>Ring\<close> is \<open>Sync\<close>, \<open>try_push\<close> takes \<open>&self\<close>).
  Two threads inside \<open>try_push\<close> of one producer, scheduled by a list of booleans:
\<close>

fun shared_push :: "bool list \<Rightarrow> 'a ring \<Rightarrow> 'a push_pc \<Rightarrow> 'a push_pc \<Rightarrow> 'a ring \<times> 'a push_pc \<times> 'a push_pc" where
  "shared_push [] q p1 p2 = (q, p1, p2)"
| "shared_push (True # bs) q p1 p2 = (case push_step q p1 of (q', p1') \<Rightarrow> shared_push bs q' p1' p2)"
| "shared_push (False # bs) q p1 p2 = (case push_step q p2 of (q', p2') \<Rightarrow> shared_push bs q' p1 p2')"

text \<open>
  The single-writer rule is not enforced by the types, and breaking it loses messages: two threads that
  push at the same time through one shared \<open>Producer\<close> of a fresh ring can be about to write the same
  slot at once, and can both be told \<open>Ok\<close> while only one item is in the ring; the other is
  overwritten, neither received nor dropped.
\<close>

theorem spsc_shared_producer_loses:
  assumes "spsc_channel sb c = Some q"
  shows "shared_push [True, False, True, False] q (PStart x) (PStart y) = (q, PWrite x 0, PWrite y 0) \<and>
    (\<exists>q' q''. shared_push [True, False, True, False, True, False, True, False] q (PStart x) (PStart y) =
        (q', PDone (Ok ()), PDone (Ok ())) \<and> ring_drop q' = Some ([y], q''))"
proof -
  have q: "q = \<lparr>slots = replicate (unat c) None, cap = c, head = 0, tail = 0, closed = False\<rparr>" "1 \<le> c"
    using assms by (auto simp: spsc_channel_def split: if_splits)
  have c: "c \<noteq> 0" "0 < unat c" using q(2) by (auto simp: unat_gt_0)
  have d: "drop_range [0..<1] r = Some ([y], r\<lparr>slots := (slots r)[0 := None]\<rparr>)" if "slots r ! 0 = Some y" for r
    using that by simp
  show ?thesis
    using c by (simp add: q(1) ring_index_def ring_drop_def d)
qed

theorem spsc_shared_producer_loses_witness:
  "\<exists>q' q''. shared_push [True, False, True, False, True, False, True, False]
      \<lparr>slots = [None], cap = 1, head = 0, tail = 0, closed = False\<rparr> (PStart (7::nat)) (PStart 8) =
        (q', PDone (Ok ()), PDone (Ok ())) \<and> ring_drop q' = Some ([8], q'')"
proof -
  let ?q = "\<lparr>slots = [None], cap = 1, head = 0, tail = 0, closed = False\<rparr> :: nat ring"
  have q: "spsc_channel 16 1 = Some ?q" by (simp add: spsc_channel_def)
  from spsc_shared_producer_loses [OF q, of 7 8] show ?thesis by simp
qed

end
