(* ===== verification/Timer.thy ===== *)
theory Timer
  imports Mailbox
begin

text \<open>
  Delayed and periodic delivery, \<open>core/src/timer.rs\<close>: one background thread over a heap of pending
  timers, and any number of threads that register and cancel timers while it runs. The heap is behind
  a mutex that the thread gives up while it fires a timer and while it sleeps; every stretch between
  two lock operations is one step, and a schedule is any sequence of steps, of the other threads'
  calls and of clock ticks. Delivery goes into mailboxes as theory \<open>Mailbox\<close> specifies them. The user's message
  factory (\<open>make\<close>, here \<open>mk\<close>) is a parameter that may panic; \<open>lim\<close> is the last point in time \<open>Instant\<close> can hold.
\<close>

subsection \<open>Entries and their order\<close>

datatype timer_key = TimerKey (key_deadline: nat) (key_seq: u64)

text \<open>\<open>Ord for Entry\<close>: the earlier deadline, then the smaller number, compares as the greater.\<close>

instantiation timer_key :: linorder
begin

definition less_eq_timer_key :: "timer_key \<Rightarrow> timer_key \<Rightarrow> bool" where
  "less_eq_timer_key a b \<longleftrightarrow>
     key_deadline b < key_deadline a \<or> key_deadline b = key_deadline a \<and> key_seq b \<le> key_seq a"

definition less_timer_key :: "timer_key \<Rightarrow> timer_key \<Rightarrow> bool" where
  "less_timer_key a b \<longleftrightarrow>
     key_deadline b < key_deadline a \<or> key_deadline b = key_deadline a \<and> key_seq b < key_seq a"

instance
  by standard (auto simp: less_eq_timer_key_def less_timer_key_def intro: timer_key.expand)

end

text \<open>What a timer does when it fires: a single message, until it is taken, or one every interval.\<close>

datatype ('m, 'f) fire = Once "'m option" | Every nat 'f

record ('m, 'f) timer_entry =
  deadline :: nat
  eseq :: u64
  cflag :: nat
  target :: nat
  fire :: "('m, 'f) fire"

definition key :: "('m, 'f) timer_entry \<Rightarrow> timer_key" where
  "key e = TimerKey (deadline e) (eseq e)"

subsection \<open>The heap\<close>

text \<open>
  What the thread relies on of \<open>BinaryHeap\<close>: \<open>push\<close> adds, \<open>peek\<close> shows an element no other one
  exceeds, \<open>pop\<close> removes it.
\<close>

locale max_heap =
  fixes push :: "'e \<Rightarrow> 'h \<Rightarrow> 'h"
    and peek :: "'h \<Rightarrow> 'e option"
    and pop :: "'h \<Rightarrow> 'h"
    and elems :: "'h \<Rightarrow> 'e multiset"
    and invar :: "'h \<Rightarrow> bool"
    and rank :: "'e \<Rightarrow> 'k::linorder"
  assumes push_invar: "invar h \<Longrightarrow> invar (push e h)"
    and push_elems: "invar h \<Longrightarrow> elems (push e h) = add_mset e (elems h)"
    and peek_empty: "invar h \<Longrightarrow> peek h = None \<longleftrightarrow> elems h = {#}"
    and peek_max: "invar h \<Longrightarrow> peek h = Some e \<Longrightarrow> e \<in># elems h \<and> (\<forall>x\<in>#elems h. rank x \<le> rank e)"
    and pop_invar: "invar h \<Longrightarrow> invar (pop h)"
    and pop_elems: "invar h \<Longrightarrow> peek h = Some e \<Longrightarrow> elems (pop h) = elems h - {#e#}"
begin

text \<open>If no element can be selected before the top is, looking at the top is enough.\<close>

lemma peek_decides:
  assumes "invar h" "\<And>x y. rank x \<le> rank y \<Longrightarrow> P x \<Longrightarrow> P y"
  shows "(\<exists>x\<in>#elems h. P x) \<longleftrightarrow> (\<exists>e. peek h = Some e \<and> P e)"
proof
  assume "\<exists>x\<in>#elems h. P x"
  then obtain x where x: "x \<in># elems h" "P x" by blast
  then obtain e where e: "peek h = Some e" using peek_empty [OF assms(1)] by (cases "peek h") auto
  then have "rank x \<le> rank e" using peek_max [OF assms(1)] x(1) by blast
  then show "\<exists>e. peek h = Some e \<and> P e" using e assms(2) x(2) by blast
qed (use peek_max [OF assms(1)] in blast)

lemma pop_push_once:
  "invar h \<Longrightarrow> peek h = Some e \<Longrightarrow> elems h = add_mset e (elems (pop h))"
  using pop_elems peek_max by simp

end

text \<open>The model's heap: the entries in the order in which \<open>pop\<close> yields them.\<close>

fun heap_push :: "('m, 'f) timer_entry \<Rightarrow> ('m, 'f) timer_entry list \<Rightarrow> ('m, 'f) timer_entry list" where
  "heap_push e [] = [e]"
| "heap_push e (x # xs) = (if key x < key e then e # x # xs else x # heap_push e xs)"

fun heap_peek :: "('m, 'f) timer_entry list \<Rightarrow> ('m, 'f) timer_entry option" where
  "heap_peek [] = None"
| "heap_peek (x # xs) = Some x"

definition heap_pop :: "('m, 'f) timer_entry list \<Rightarrow> ('m, 'f) timer_entry list" where
  "heap_pop h = tl h"

definition heap_ok :: "('m, 'f) timer_entry list \<Rightarrow> bool" where
  "heap_ok h \<longleftrightarrow> sorted_wrt (\<lambda>x y. key y \<le> key x) h"

lemma mset_heap_push: "mset (heap_push e h) = add_mset e (mset h)"
  by (induction h) auto

lemma set_heap_push: "set (heap_push e h) = insert e (set h)"
  using mset_heap_push [of e h] by (metis set_mset_add_mset_insert set_mset_mset)

lemma heap_push_ok: "heap_ok h \<Longrightarrow> heap_ok (heap_push e h)"
  unfolding heap_ok_def by (induction h) (auto simp: set_heap_push)

interpretation timers: max_heap heap_push heap_peek heap_pop mset heap_ok key
proof unfold_locales
  fix h e assume h: "heap_ok (h :: ('m, 'f) timer_entry list)"
  show "heap_ok (heap_push e h)" using h by (rule heap_push_ok)
  show "mset (heap_push e h) = add_mset e (mset h)" by (rule mset_heap_push)
  show "heap_peek h = None \<longleftrightarrow> mset h = {#}" by (cases h) simp_all
  show "heap_ok (heap_pop h)" using h by (cases h) (simp_all add: heap_ok_def heap_pop_def)
  assume p: "heap_peek h = Some e"
  then show "mset (heap_pop h) = mset h - {#e#}" by (cases h) (simp_all add: heap_pop_def)
  show "e \<in># mset h \<and> (\<forall>x\<in>#mset h. key x \<le> key e)" using h p by (cases h) (auto simp: heap_ok_def)
qed

subsection \<open>The timer service\<close>

text \<open>
  Where the thread is: holding the lock in the loop over the due timers, having given it up to fire
  one, back from firing, asleep on the condition variable, or gone after a panic in \<open>make\<close>.
\<close>

datatype ('m, 'f) thread_pc =
    TLocked nat
  | TFiring nat "('m, 'f) timer_entry"
  | TFired nat "('m, 'f) timer_entry" "nat option"
  | TWaiting nat
  | TDead

text \<open>One firing: the timer, its deadline, the time, and its interval if it is periodic.\<close>

record firing =
  which :: nat
  due_at :: nat
  fired_at :: nat
  every :: "nat option"

text \<open>
  \<open>pending\<close>: registered timers, numbered, whose thread has yet to lock the heap. \<open>handles\<close>: the
  references to an actor outside the timer service.
\<close>

record ('m, 'f) timer =
  heap :: "('m, 'f) timer_entry list"
  tseq :: u64
  next_flag :: nat
  cancelled :: "nat \<Rightarrow> bool"
  pending :: "('m, 'f) timer_entry list"
  tpc :: "('m, 'f) thread_pc"
  clock :: nat
  mbs :: "nat \<Rightarrow> 'm mailbox"
  handles :: "nat \<Rightarrow> nat"
  fired :: "firing list"

definition timer_new :: "nat \<Rightarrow> (nat \<Rightarrow> nat) \<Rightarrow> (nat \<Rightarrow> nat) \<Rightarrow> ('m, 'f) timer" where
  "timer_new now caps hs =
     \<lparr>heap = [], tseq = 0, next_flag = 0, cancelled = (\<lambda>_. False), pending = [], tpc = TLocked now,
      clock = now, mbs = (\<lambda>a. (mb_new (caps a))\<lparr>senders := hs a\<rparr>), handles = hs, fired = []\<rparr>"

text \<open>\<open>Instant + Duration\<close>: \<open>None\<close> is the overflow panic.\<close>

definition instant_add :: "nat \<Rightarrow> nat \<Rightarrow> nat \<Rightarrow> nat option" where
  "instant_add lim t d = (if t + d \<le> lim then Some (t + d) else None)"

text \<open>An entry that goes away drops its reference to the actor.\<close>

definition drop_entry :: "('m, 'f) timer_entry \<Rightarrow> ('m, 'f) timer \<Rightarrow> ('m, 'f) timer" where
  "drop_entry e s = s\<lparr>mbs := (mbs s)(target e := mb_drop_sender (mbs s (target e)))\<rparr>"

definition schedule_timer :: "nat \<Rightarrow> nat \<Rightarrow> ('m, 'f) fire \<Rightarrow> ('m, 'f) timer \<Rightarrow> ('m, 'f) timer" where
  "schedule_timer dl a f s =
     s\<lparr>mbs := (mbs s)(a := mb_clone (mbs s a)), tseq := tseq s + 1, next_flag := Suc (next_flag s),
       pending := pending s @ [\<lparr>deadline = dl, eseq = tseq s, cflag = next_flag s, target = a, fire = f\<rparr>]\<rparr>"

definition send_after :: "nat \<Rightarrow> nat \<Rightarrow> nat \<Rightarrow> 'm \<Rightarrow> ('m, 'f) timer \<Rightarrow> ('m, 'f) timer option" where
  "send_after lim a delay msg s =
     map_option (\<lambda>dl. schedule_timer dl a (Once (Some msg)) s) (instant_add lim (clock s) delay)"

definition send_every :: "nat \<Rightarrow> nat \<Rightarrow> nat \<Rightarrow> 'f \<Rightarrow> ('m, 'f) timer \<Rightarrow> ('m, 'f) timer option" where
  "send_every lim a interval f s =
     (if interval = 0 then None
      else map_option (\<lambda>dl. schedule_timer dl a (Every interval f) s) (instant_add lim (clock s) interval))"

definition cancel :: "nat \<Rightarrow> ('m, 'f) timer \<Rightarrow> ('m, 'f) timer" where
  "cancel i s = s\<lparr>cancelled := (cancelled s)(i := True)\<rparr>"

text \<open>
  The two closures: the outcome of firing an entry, \<open>None\<close> if it panics, else the next deadline and
  the closure as the call leaves it, with the target's mailbox after the call. A panic of
  \<open>make\<close> comes before the send, one of \<open>Instant + Duration\<close> after it.
\<close>

fun run_fire ::
  "nat \<Rightarrow> ('f \<Rightarrow> ('m \<times> 'f) option) \<Rightarrow> nat \<Rightarrow> ('m, 'f) fire \<Rightarrow> 'm mailbox \<Rightarrow>
   (nat option \<times> ('m, 'f) fire) option \<times> 'm mailbox" where
  "run_fire lim mk now (Once None) mb = (Some (None, Once None), mb)"
| "run_fire lim mk now (Once (Some m)) mb = (Some (None, Once None), snd (mb_try_send mb m))"
| "run_fire lim mk now (Every interval f) mb =
     (case mk f of
        None \<Rightarrow> (None, mb)
      | Some (m, f') \<Rightarrow>
          (case mb_try_send mb m of
             (Err (Closed _), mb') \<Rightarrow> (Some (None, Every interval f'), mb')
           | (_, mb') \<Rightarrow> (map_option (\<lambda>next. (Some next, Every interval f')) (instant_add lim now interval), mb')))"

fun fire_interval :: "('m, 'f) fire \<Rightarrow> nat option" where
  "fire_interval (Once _) = None"
| "fire_interval (Every interval _) = Some interval"

definition firing_of :: "('m, 'f) timer_entry \<Rightarrow> nat \<Rightarrow> firing" where
  "firing_of e now = \<lparr>which = cflag e, due_at = deadline e, fired_at = now, every = fire_interval (fire e)\<rparr>"

text \<open>The body of \<open>run\<close> between two lock operations; an hour is the longest sleep.\<close>

definition timer_step ::
  "nat \<Rightarrow> ('f \<Rightarrow> ('m \<times> 'f) option) \<Rightarrow> ('m, 'f) timer \<Rightarrow> ('m, 'f) timer option" where
  "timer_step lim mk s =
     (case tpc s of
        TLocked now \<Rightarrow>
          (case heap_peek (heap s) of
             Some e \<Rightarrow>
               if deadline e \<le> now
               then (let s' = s\<lparr>heap := heap_pop (heap s)\<rparr>
                     in if cancelled s (cflag e) then Some (drop_entry e s')
                        else Some (s'\<lparr>tpc := TFiring now e\<rparr>))
               else Some (s\<lparr>tpc := TWaiting (deadline e - clock s)\<rparr>)
           | None \<Rightarrow> Some (s\<lparr>tpc := TWaiting (3600 * 10 ^ 9)\<rparr>))
      | TFiring now e \<Rightarrow>
          (let s' = s\<lparr>fired := fired s @ [firing_of e (clock s)]\<rparr>
           in (case run_fire lim mk (clock s) (fire e) (mbs s (target e)) of
                 (None, mb) \<Rightarrow> Some (drop_entry e (s'\<lparr>mbs := (mbs s)(target e := mb), tpc := TDead\<rparr>))
               | (Some (next, f), mb) \<Rightarrow>
                   Some (s'\<lparr>mbs := (mbs s)(target e := mb), tpc := TFired now (e\<lparr>fire := f\<rparr>) next\<rparr>)))
      | TFired now e next \<Rightarrow>
          (case next of
             Some dl \<Rightarrow>
               if \<not> cancelled s (cflag e)
               then Some (s\<lparr>heap := heap_push (e\<lparr>deadline := dl\<rparr>) (heap s), tpc := TLocked now\<rparr>)
               else Some (drop_entry e (s\<lparr>tpc := TLocked now\<rparr>))
           | None \<Rightarrow> Some (drop_entry e (s\<lparr>tpc := TLocked now\<rparr>)))
      | TWaiting _ \<Rightarrow> Some (s\<lparr>tpc := TLocked (clock s)\<rparr>)
      | TDead \<Rightarrow> None)"

fun lock_free :: "('m, 'f) thread_pc \<Rightarrow> bool" where
  "lock_free (TLocked _) = False"
| "lock_free _ = True"

text \<open>
  Everything that can happen: a call on a reference the caller holds, the second half of a
  registration, a cancellation, time passing, the actor and other senders at a mailbox, the thread.
\<close>

datatype ('m, 'f) timer_action =
    SendAfter nat nat 'm
  | SendEvery nat nat 'f
  | PushEntry nat
  | Cancel nat
  | Tick nat
  | CloneRef nat
  | DropRef nat
  | AtMailbox nat "'m mb_op"
  | TimerStep

fun keeps_senders :: "'m mb_op \<Rightarrow> bool" where
  "keeps_senders CloneSender = False"
| "keeps_senders DropSender = False"
| "keeps_senders _ = True"

fun timer_act ::
  "nat \<Rightarrow> ('f \<Rightarrow> ('m \<times> 'f) option) \<Rightarrow> ('m, 'f) timer_action \<Rightarrow> ('m, 'f) timer \<Rightarrow> ('m, 'f) timer option" where
  "timer_act lim mk (SendAfter a d m) s = (if 0 < handles s a then send_after lim a d m s else None)"
| "timer_act lim mk (SendEvery a d f) s = (if 0 < handles s a then send_every lim a d f s else None)"
| "timer_act lim mk (PushEntry j) s =
     (if lock_free (tpc s) \<and> j < length (pending s)
      then Some (s\<lparr>heap := heap_push (pending s ! j) (heap s), pending := take j (pending s) @ drop (Suc j) (pending s)\<rparr>)
      else None)"
| "timer_act lim mk (Cancel i) s = (if i < next_flag s then Some (cancel i s) else None)"
| "timer_act lim mk (Tick d) s = Some (s\<lparr>clock := clock s + d\<rparr>)"
| "timer_act lim mk (CloneRef a) s =
     (if 0 < handles s a
      then Some (s\<lparr>handles := (handles s)(a := handles s a + 1), mbs := (mbs s)(a := mb_clone (mbs s a))\<rparr>)
      else None)"
| "timer_act lim mk (DropRef a) s =
     (if 0 < handles s a
      then Some (s\<lparr>handles := (handles s)(a := handles s a - 1), mbs := (mbs s)(a := mb_drop_sender (mbs s a))\<rparr>)
      else None)"
| "timer_act lim mk (AtMailbox a op) s =
     (if keeps_senders op then Some (s\<lparr>mbs := (mbs s)(a := snd (mb_step op (mbs s a)))\<rparr>) else None)"
| "timer_act lim mk TimerStep s = timer_step lim mk s"

fun timer_run ::
  "nat \<Rightarrow> ('f \<Rightarrow> ('m \<times> 'f) option) \<Rightarrow> ('m, 'f) timer_action list \<Rightarrow> ('m, 'f) timer \<Rightarrow> ('m, 'f) timer option" where
  "timer_run lim mk [] s = Some s"
| "timer_run lim mk (a # as) s =
     (case timer_act lim mk a s of None \<Rightarrow> None | Some t \<Rightarrow> timer_run lim mk as t)"

subsection \<open>Invariant\<close>

fun hand :: "('m, 'f) thread_pc \<Rightarrow> ('m, 'f) timer_entry multiset" where
  "hand (TFiring _ e) = {#e#}"
| "hand (TFired _ e _) = {#e#}"
| "hand _ = {#}"

definition waiting :: "('m, 'f) timer \<Rightarrow> ('m, 'f) timer_entry multiset" where
  "waiting s = mset (pending s) + mset (heap s)"

definition live :: "('m, 'f) timer \<Rightarrow> ('m, 'f) timer_entry multiset" where
  "live s = waiting s + hand (tpc s)"

fun pc_ok :: "('m, 'f) thread_pc \<Rightarrow> nat \<Rightarrow> bool" where
  "pc_ok (TLocked now) c = (now \<le> c)"
| "pc_ok (TFiring now e) c = (deadline e \<le> now \<and> now \<le> c)"
| "pc_ok (TFired now e next) c = (now \<le> c \<and> (\<forall>dl. next = Some dl \<longrightarrow> now < dl))"
| "pc_ok _ c = True"

text \<open>Every timer is in one place only, and the interval of a periodic one is not zero.\<close>

definition struct_inv :: "('m, 'f) timer \<Rightarrow> bool" where
  "struct_inv s \<longleftrightarrow> heap_ok (heap s) \<and> pc_ok (tpc s) (clock s) \<and>
     (\<forall>i. size {#e \<in># live s. cflag e = i#} \<le> 1) \<and>
     (\<forall>e\<in>#live s. cflag e < next_flag s \<and> fire_interval (fire e) \<noteq> Some 0) \<and>
     (\<forall>f\<in>set (fired s). which f < next_flag s)"

text \<open>Each mailbox counts the references held outside and one for every timer that targets it.\<close>

definition refs_inv :: "('m, 'f) timer \<Rightarrow> bool" where
  "refs_inv s \<longleftrightarrow> (\<forall>a. senders (mbs s a) = handles s a + size {#e \<in># live s. target e = a#})"

text \<open>
  Two firings of one timer: only a periodic one has them, and they are an interval apart. A timer
  that is still to fire keeps that distance to its firings so far.
\<close>

definition apart :: "firing \<Rightarrow> firing \<Rightarrow> bool" where
  "apart f g \<longleftrightarrow> (which f = which g \<longrightarrow>
     (\<exists>iv. every f = Some iv \<and> every g = Some iv \<and> fired_at f + iv \<le> fired_at g))"

definition still_apart :: "nat \<Rightarrow> nat option \<Rightarrow> nat \<Rightarrow> firing list \<Rightarrow> bool" where
  "still_apart i interval dl log \<longleftrightarrow>
     (\<forall>f\<in>set log. which f = i \<longrightarrow> (\<exists>iv. interval = Some iv \<and> every f = Some iv \<and> fired_at f + iv \<le> dl))"

fun hand_apart :: "('m, 'f) thread_pc \<Rightarrow> firing list \<Rightarrow> bool" where
  "hand_apart (TFiring now e) log = still_apart (cflag e) (fire_interval (fire e)) (deadline e) log"
| "hand_apart (TFired now e next) log =
     (\<forall>dl. next = Some dl \<longrightarrow> still_apart (cflag e) (fire_interval (fire e)) dl log)"
| "hand_apart _ log = True"

definition fire_inv :: "('m, 'f) timer \<Rightarrow> bool" where
  "fire_inv s \<longleftrightarrow> sorted_wrt apart (fired s) \<and>
     (\<forall>f\<in>set (fired s). due_at f \<le> fired_at f \<and> fired_at f \<le> clock s) \<and>
     (\<forall>e\<in>#waiting s. still_apart (cflag e) (fire_interval (fire e)) (deadline e) (fired s)) \<and>
     hand_apart (tpc s) (fired s)"

definition timer_inv :: "('m, 'f) timer \<Rightarrow> bool" where
  "timer_inv s \<longleftrightarrow> struct_inv s \<and> refs_inv s \<and> fire_inv s"

lemmas timer_invs = timer_inv_def struct_inv_def refs_inv_def fire_inv_def live_def waiting_def

lemma timer_new_inv: "timer_inv (timer_new now caps hs)"
  by (simp add: timer_invs timer_new_def heap_ok_def)

lemma mb_try_send_senders: "mb_try_send mb m = (r, mb') \<Longrightarrow> senders mb' = senders mb"
  by (auto simp: mb_try_send_def split: if_splits)

lemma run_fire_every:
  assumes "run_fire lim mk now (Every iv f) mb = (Some (next, f'), mb')"
  obtains m g r where "mk f = Some (m, g)" "mb_try_send mb m = (r, mb')" "f' = Every iv g"
    "next = (case r of Err (Closed _) \<Rightarrow> None | _ \<Rightarrow> Some (now + iv))"
  using assms
  by (auto simp: instant_add_def split: option.splits prod.splits result.splits try_send_error.splits if_splits)

lemma run_fire_senders: "run_fire lim mk now f mb = (r, mb') \<Longrightarrow> senders mb' = senders mb"
proof (cases f)
  case (Once m)
  then show "run_fire lim mk now f mb = (r, mb') \<Longrightarrow> senders mb' = senders mb"
    by (cases m) (auto simp: mb_try_send_def)
next
  case (Every iv g)
  then show "run_fire lim mk now f mb = (r, mb') \<Longrightarrow> senders mb' = senders mb"
    by (auto dest: mb_try_send_senders split: option.splits prod.splits result.splits try_send_error.splits)
qed

lemma run_fire_facts:
  assumes "run_fire lim mk now f mb = (Some (next, f'), mb')"
  shows "fire_interval f' = fire_interval f"
    "next = Some dl \<Longrightarrow> \<exists>iv. fire_interval f = Some iv \<and> dl = now + iv"
proof (atomize (full), cases f)
  case (Once m)
  then show "fire_interval f' = fire_interval f \<and>
      (next = Some dl \<longrightarrow> (\<exists>iv. fire_interval f = Some iv \<and> dl = now + iv))"
    using assms by (cases m) (auto simp: mb_try_send_def)
next
  case (Every iv g)
  obtain m h r where "mk g = Some (m, h)" "mb_try_send mb m = (r, mb')" "f' = Every iv h"
      "next = (case r of Err (Closed _) \<Rightarrow> None | _ \<Rightarrow> Some (now + iv))"
    using run_fire_every [OF assms [unfolded Every]] by blast
  then show "fire_interval f' = fire_interval f \<and>
      (next = Some dl \<longrightarrow> (\<exists>iv. fire_interval f = Some iv \<and> dl = now + iv))"
    by (simp add: Every split: result.splits try_send_error.splits)
qed

lemma still_apart_add:
  "still_apart i iv dl (log @ [f]) \<longleftrightarrow> still_apart i iv dl log \<and>
     (which f = i \<longrightarrow> (\<exists>v. iv = Some v \<and> every f = Some v \<and> fired_at f + v \<le> dl))"
  by (auto simp: still_apart_def)

lemma still_apart_fresh: "\<forall>f\<in>set log. which f < i \<Longrightarrow> still_apart i iv dl log"
  by (auto simp: still_apart_def)

lemma schedule_inv:
  assumes "timer_inv s" "fire_interval f \<noteq> Some 0"
  shows "timer_inv (schedule_timer dl a f s)"
proof -
  let ?e = "\<lparr>deadline = dl, eseq = tseq s, cflag = next_flag s, target = a, fire = f\<rparr>"
  let ?t = "schedule_timer dl a f s"
  have w: "waiting ?t = add_mset ?e (waiting s)" "tpc ?t = tpc s" "live ?t = add_mset ?e (live s)"
    "fired ?t = fired s"
    by (simp_all add: schedule_timer_def waiting_def live_def)
  have new: "{#e \<in># live s. cflag e = next_flag s#} = {#}"
    using assms(1) by (auto simp: timer_inv_def struct_inv_def filter_mset_eq_conv)
  have "struct_inv ?t"
    using assms new unfolding timer_inv_def struct_inv_def w by (auto simp: schedule_timer_def less_Suc_eq)
  moreover have "refs_inv ?t"
    using assms(1) unfolding timer_inv_def refs_inv_def w by (auto simp: schedule_timer_def mb_clone_def)
  moreover have "fire_inv ?t"
    using assms(1) unfolding timer_inv_def struct_inv_def fire_inv_def w
    by (auto simp: schedule_timer_def still_apart_fresh)
  ultimately show ?thesis by (simp add: timer_inv_def)
qed

text \<open>An entry leaves the service: it is no longer live, and its reference is dropped.\<close>

lemma drop_entry_inv:
  assumes "struct_inv s" "refs_inv s" "fire_inv s" "live s = add_mset e M" "live t = M" "waiting t \<subseteq># waiting s"
    and "mbs t = (mbs s)(target e := mb_drop_sender (mbs s (target e)))" "handles t = handles s"
    and "heap_ok (heap t)" "pc_ok (tpc t) (clock t)" "clock t = clock s" "next_flag t = next_flag s"
    and "fired t = fired s" "hand_apart (tpc t) (fired s)"
  shows "timer_inv t"
proof -
  have "struct_inv t"
    unfolding struct_inv_def
  proof (intro conjI allI ballI)
    show "size {#x \<in># live t. cflag x = i#} \<le> 1" for i
    proof -
      have "size {#x \<in># M. cflag x = i#} \<le> size {#x \<in># live s. cflag x = i#}"
        unfolding assms(4) by simp
      also have "\<dots> \<le> 1" using assms(1) by (auto simp: struct_inv_def)
      finally show ?thesis by (simp add: assms(5))
    qed
  qed (use assms in \<open>auto simp: struct_inv_def\<close>)
  moreover have "refs_inv t"
    unfolding refs_inv_def
  proof
    fix a
    have "senders (mbs s a) = handles s a + size {#x \<in># add_mset e M. target x = a#}"
      using assms(2) by (simp add: refs_inv_def assms(4))
    then show "senders (mbs t a) = handles t a + size {#x \<in># live t. target x = a#}"
      by (auto simp: assms(5,7,8) mb_drop_sender_def)
  qed
  moreover have "fire_inv t"
    using assms(3,6,11,13,14) by (auto simp: fire_inv_def dest: mset_subset_eqD)
  ultimately show ?thesis by (simp add: timer_inv_def)
qed

lemma flag_once: "struct_inv s \<Longrightarrow> size {#e \<in># live s. cflag e = i#} \<le> 1"
  by (simp add: struct_inv_def)

lemma hand_flag_unique:
  assumes "struct_inv s" "live s = add_mset e M" "x \<in># M"
  shows "cflag x \<noteq> cflag e"
proof
  assume eq: "cflag x = cflag e"
  then have "x \<in># {#y \<in># M. cflag y = cflag e#}" using assms(3) by simp
  then have "0 < size {#y \<in># M. cflag y = cflag e#}" by (metis empty_not_add_mset multi_member_split nonempty_has_size)
  then have "1 < size {#y \<in># live s. cflag y = cflag e#}" unfolding assms(2) by simp
  then show False using assms(1) by (auto simp: struct_inv_def not_le dest: spec [of _ "cflag e"])
qed

text \<open>A firing is recorded; the entry stays in the thread's hand with its state updated.\<close>

lemma firing_inv:
  assumes inv: "timer_inv s" and pc: "tpc s = TFiring now e"
    and f: "fire_interval f' = fire_interval (fire e)" and mb: "senders mb = senders (mbs s (target e))"
    and nx: "\<And>dl. next = Some dl \<Longrightarrow> \<exists>iv. fire_interval (fire e) = Some iv \<and> dl = clock s + iv"
  shows "timer_inv (s\<lparr>fired := fired s @ [firing_of e (clock s)], mbs := (mbs s)(target e := mb),
    tpc := TFired now (e\<lparr>fire := f'\<rparr>) next\<rparr>)" (is "timer_inv ?t")
proof -
  have S: "struct_inv s" and R: "refs_inv s" and F: "fire_inv s" using inv by (simp_all add: timer_inv_def)
  have l: "live s = add_mset e (waiting s)" "live ?t = add_mset (e\<lparr>fire := f'\<rparr>) (waiting s)" "waiting ?t = waiting s"
    using pc by (simp_all add: live_def waiting_def)
  have iv: "fire_interval (fire e) \<noteq> Some 0" "cflag e < next_flag s" "deadline e \<le> now" "now \<le> clock s"
    using S pc by (auto simp: struct_inv_def l)
  have ea: "still_apart (cflag e) (fire_interval (fire e)) (deadline e) (fired s)"
    using F pc by (simp add: fire_inv_def)
  have "struct_inv ?t"
    unfolding struct_inv_def l
  proof (intro conjI allI ballI)
    show "pc_ok (tpc ?t) (clock ?t)"
      using iv nx by (auto intro: Nat.gr0I)
    show "size {#x \<in># add_mset (e\<lparr>fire := f'\<rparr>) (waiting s). cflag x = i#} \<le> 1" for i
      using flag_once [OF S, of i] by (auto simp: l split: if_splits)
    show "which g < next_flag ?t" if "g \<in> set (fired ?t)" for g
      using that S iv by (auto simp: struct_inv_def firing_of_def)
  qed (use S f iv in \<open>auto simp: struct_inv_def l\<close>)
  moreover have "refs_inv ?t"
    using R mb unfolding refs_inv_def l by auto
  moreover have "fire_inv ?t"
    unfolding fire_inv_def l
  proof (intro conjI ballI)
    have "apart g (firing_of e (clock s))" if "g \<in> set (fired s)" for g
      using ea that iv unfolding still_apart_def apart_def firing_of_def by fastforce
    then show "sorted_wrt apart (fired ?t)" using F by (simp add: fire_inv_def sorted_wrt_append)
    show "due_at g \<le> fired_at g" "fired_at g \<le> clock ?t" if "g \<in> set (fired ?t)" for g
      using F iv that by (auto simp: fire_inv_def firing_of_def)
    show "still_apart (cflag x) (fire_interval (fire x)) (deadline x) (fired ?t)" if "x \<in># waiting s" for x
      using F that hand_flag_unique [OF S l(1) that] by (simp add: fire_inv_def still_apart_add firing_of_def)
    have "still_apart (cflag e) (fire_interval f') dl (fired s @ [firing_of e (clock s)])" if "next = Some dl" for dl
      using ea nx [OF that] iv unfolding still_apart_add
      by (auto simp: still_apart_def firing_of_def f)
    then show "hand_apart (tpc ?t) (fired ?t)" by simp
  qed
  ultimately show ?thesis by (simp add: timer_inv_def)
qed

lemma requeue_inv:
  assumes inv: "timer_inv s" and pc: "tpc s = TFired now e (Some dl)"
  shows "timer_inv (s\<lparr>heap := heap_push (e\<lparr>deadline := dl\<rparr>) (heap s), tpc := TLocked now\<rparr>)" (is "timer_inv ?t")
proof -
  have S: "struct_inv s" and R: "refs_inv s" and F: "fire_inv s" using inv by (simp_all add: timer_inv_def)
  have l: "live s = add_mset e (waiting s)" "live ?t = add_mset (e\<lparr>deadline := dl\<rparr>) (waiting s)"
    "waiting ?t = add_mset (e\<lparr>deadline := dl\<rparr>) (waiting s)"
    using pc by (simp_all add: live_def waiting_def mset_heap_push)
  have "struct_inv ?t"
    unfolding struct_inv_def l
  proof (intro conjI allI ballI)
    show "size {#x \<in># add_mset (e\<lparr>deadline := dl\<rparr>) (waiting s). cflag x = i#} \<le> 1" for i
      using flag_once [OF S, of i] by (auto simp: l split: if_splits)
  qed (use S pc in \<open>auto simp: struct_inv_def l heap_push_ok\<close>)
  moreover have "refs_inv ?t"
    using R unfolding refs_inv_def l by auto
  moreover have "fire_inv ?t"
    using F pc unfolding fire_inv_def l by auto
  ultimately show ?thesis by (simp add: timer_inv_def)
qed

lemma idle_pc_inv:
  assumes "timer_inv s" "hand (tpc s) = {#}" "hand pc = {#}" "pc_ok pc (clock s)" "hand_apart pc (fired s)"
  shows "timer_inv (s\<lparr>tpc := pc\<rparr>)"
proof -
  have "live (s\<lparr>tpc := pc\<rparr>) = live s" "waiting (s\<lparr>tpc := pc\<rparr>) = waiting s"
    using assms(2,3) by (simp_all add: live_def waiting_def)
  then show ?thesis
    using assms by (simp add: timer_inv_def struct_inv_def refs_inv_def fire_inv_def)
qed

lemma timer_step_inv:
  assumes inv: "timer_inv s" and step: "timer_step lim mk s = Some t"
  shows "timer_inv t"
proof -
  have S: "struct_inv s" and R: "refs_inv s" and F: "fire_inv s" using inv by (simp_all add: timer_inv_def)
  note SRF = S R F
  show ?thesis
  proof (cases "tpc s")
    case (TLocked now)
    have now: "now \<le> clock s" using S TLocked by (simp add: struct_inv_def)
    show ?thesis
    proof (cases "heap s")
      case Nil
      then show ?thesis using idle_pc_inv [OF inv, of "TWaiting (3600 * 10 ^ 9)"] step TLocked
        by (simp add: timer_step_def)
    next
      case (Cons e h)
      have hok: "heap_ok h" using S Cons by (simp add: struct_inv_def heap_ok_def)
      consider "now < deadline e" | "deadline e \<le> now" "cancelled s (cflag e)" | "deadline e \<le> now" "\<not> cancelled s (cflag e)"
        by linarith
      then show ?thesis
      proof cases
        case 1
        then show ?thesis using idle_pc_inv [OF inv, of "TWaiting (deadline e - clock s)"] step TLocked Cons
          by (simp add: timer_step_def)
      next
        case 2
        then have t: "t = drop_entry e (s\<lparr>heap := h\<rparr>)"
          using step TLocked Cons by (simp add: timer_step_def heap_pop_def)
        show ?thesis
          by (rule drop_entry_inv [OF SRF, of e "live t"])
            (simp_all add: t drop_entry_def live_def waiting_def Cons hok TLocked now)
      next
        case 3
        then have t: "t = s\<lparr>heap := h, tpc := TFiring now e\<rparr>"
          using step TLocked Cons by (simp add: timer_step_def heap_pop_def)
        have l: "live t = live s" "waiting s = add_mset e (waiting t)"
          by (simp_all add: t live_def waiting_def Cons TLocked)
        have "struct_inv t" using S now 3 unfolding struct_inv_def l by (simp add: t hok)
        moreover have "refs_inv t" using R unfolding refs_inv_def l by (simp add: t)
        moreover have "fire_inv t" using F unfolding fire_inv_def l(2) by (simp add: t)
        ultimately show ?thesis by (simp add: timer_inv_def)
      qed
    qed
  next
    case (TFiring now e)
    obtain r mb where r: "run_fire lim mk (clock s) (fire e) (mbs s (target e)) = (r, mb)" by force
    note sd = run_fire_senders [OF r]
    show ?thesis
    proof (cases r)
      case None
      let ?u = "s\<lparr>fired := fired s @ [firing_of e (clock s)], mbs := (mbs s)(target e := mb),
        tpc := TFired now (e\<lparr>fire := fire e\<rparr>) None\<rparr>"
      have U: "timer_inv ?u" by (rule firing_inv [OF inv TFiring]) (simp_all add: sd)
      have t: "t = drop_entry e (s\<lparr>fired := fired s @ [firing_of e (clock s)], mbs := (mbs s)(target e := mb), tpc := TDead\<rparr>)"
        using step TFiring r None by (simp add: timer_step_def)
      have U': "struct_inv ?u" "refs_inv ?u" "fire_inv ?u" using U by (simp_all add: timer_inv_def)
      show ?thesis
        by (rule drop_entry_inv [OF U', of e "live t"])
          (use U' in \<open>simp_all add: t drop_entry_def live_def waiting_def struct_inv_def\<close>)
    next
      case (Some q)
      obtain nx f' where run: "run_fire lim mk (clock s) (fire e) (mbs s (target e)) = (Some (nx, f'), mb)"
        using Some r by (cases q) simp
      have "t = s\<lparr>fired := fired s @ [firing_of e (clock s)], mbs := (mbs s)(target e := mb),
          tpc := TFired now (e\<lparr>fire := f'\<rparr>) nx\<rparr>"
        using step TFiring run by (simp add: timer_step_def)
      then show ?thesis
        using firing_inv [OF inv TFiring run_fire_facts(1) [OF run] sd run_fire_facts(2) [OF run]] by simp
    qed
  next
    case (TFired now e nx)
    show ?thesis
    proof (cases "\<exists>dl. nx = Some dl \<and> \<not> cancelled s (cflag e)")
      case True
      then obtain dl where dl: "nx = Some dl" "\<not> cancelled s (cflag e)" by blast
      then show ?thesis
        using requeue_inv [OF inv, of now e dl] step TFired by (simp add: timer_step_def)
    next
      case False
      then have t: "t = drop_entry e (s\<lparr>tpc := TLocked now\<rparr>)"
        using step TFired by (auto simp: timer_step_def split: option.splits if_splits)
      have "pc_ok (tpc s) (clock s)" "heap_ok (heap s)" using S by (simp_all add: struct_inv_def)
      then show ?thesis
        by (intro drop_entry_inv [OF SRF, of e "live t"])
          (simp_all add: t drop_entry_def live_def waiting_def TFired)
    qed
  next
    case (TWaiting w)
    then show ?thesis using idle_pc_inv [OF inv, of "TLocked (clock s)"] step by (simp add: timer_step_def)
  qed (use step in \<open>simp add: timer_step_def\<close>)
qed

lemma mset_remove_nth: "j < length xs \<Longrightarrow> add_mset (xs ! j) (mset (take j xs @ drop (Suc j) xs)) = mset xs"
  by (metis add_mset_add_single id_take_nth_drop mset.simps(2) mset_append union_mset_add_mset_right)

lemma mailbox_change_inv:
  assumes "timer_inv s" "\<And>b. senders (ms b) + handles s b = senders (mbs s b) + hs b"
  shows "timer_inv (s\<lparr>mbs := ms, handles := hs\<rparr>)"
proof -
  let ?t = "s\<lparr>mbs := ms, handles := hs\<rparr>"
  have l: "live ?t = live s" "waiting ?t = waiting s" by (simp_all add: live_def waiting_def)
  have "refs_inv ?t"
    unfolding refs_inv_def l
  proof
    fix a
    have "senders (mbs s a) = handles s a + size {#e \<in># live s. target e = a#}"
      using assms(1) by (simp add: timer_inv_def refs_inv_def)
    then show "senders (mbs ?t a) = handles ?t a + size {#e \<in># live s. target e = a#}"
      using assms(2) [of a] by simp
  qed
  then show ?thesis using assms(1) l by (simp add: timer_inv_def struct_inv_def fire_inv_def)
qed

lemma mb_step_senders: "keeps_senders op \<Longrightarrow> senders (snd (mb_step op mb)) = senders mb"
  by (cases op) (auto simp: mb_defs split: prod.split list.split if_splits)

lemma timer_act_inv:
  assumes inv: "timer_inv s" and act: "timer_act lim mk a s = Some t"
  shows "timer_inv t"
proof (cases a)
  case (SendAfter b d m)
  then show ?thesis using inv act by (auto simp: send_after_def schedule_inv split: if_splits)
next
  case (SendEvery b d f)
  then show ?thesis using inv act by (auto simp: send_every_def schedule_inv split: if_splits)
next
  case (PushEntry j)
  then have j: "j < length (pending s)"
    and t: "t = s\<lparr>heap := heap_push (pending s ! j) (heap s), pending := take j (pending s) @ drop (Suc j) (pending s)\<rparr>"
    using act by (simp_all split: if_splits)
  have w: "waiting t = waiting s"
    using mset_remove_nth [OF j] by (simp add: t waiting_def mset_heap_push flip: union_mset_add_mset_left)
  then have l: "live t = live s" by (simp add: live_def t)
  show ?thesis
    using inv unfolding timer_inv_def struct_inv_def refs_inv_def fire_inv_def l w
    by (simp add: t heap_push_ok)
next
  case (Cancel i)
  then show ?thesis using inv act by (auto simp: cancel_def timer_invs split: if_splits)
next
  case (Tick d)
  then have t: "t = s\<lparr>clock := clock s + d\<rparr>" using act by simp
  have l: "live t = live s" "waiting t = waiting s" by (simp_all add: live_def waiting_def t)
  have "pc_ok (tpc s) (clock s) \<Longrightarrow> pc_ok (tpc s) (clock s + d)" by (cases "tpc s") auto
  then show ?thesis
    using inv unfolding timer_inv_def struct_inv_def refs_inv_def fire_inv_def l by (auto simp: t)
next
  case (CloneRef b)
  then have "t = s\<lparr>mbs := (mbs s)(b := mb_clone (mbs s b)), handles := (handles s)(b := handles s b + 1)\<rparr>"
    using act by (auto split: if_splits)
  then show ?thesis using mailbox_change_inv [OF inv] by (simp add: mb_clone_def)
next
  case (DropRef b)
  then have "0 < handles s b"
    and t: "t = s\<lparr>mbs := (mbs s)(b := mb_drop_sender (mbs s b)), handles := (handles s)(b := handles s b - 1)\<rparr>"
    using act by (auto split: if_splits)
  moreover have "handles s b \<le> senders (mbs s b)" using inv by (simp add: timer_inv_def refs_inv_def)
  ultimately show ?thesis using mailbox_change_inv [OF inv] by (simp add: mb_drop_sender_def)
next
  case (AtMailbox b op)
  then have k: "keeps_senders op" and t: "t = s\<lparr>mbs := (mbs s)(b := snd (mb_step op (mbs s b))), handles := handles s\<rparr>"
    using act by (simp_all split: if_splits)
  show ?thesis unfolding t by (rule mailbox_change_inv [OF inv]) (simp add: mb_step_senders [OF k])
next
  case TimerStep
  then show ?thesis using timer_step_inv [OF inv] act by simp
qed

lemma timer_run_inv: "timer_run lim mk as s = Some t \<Longrightarrow> timer_inv s \<Longrightarrow> timer_inv t"
  by (induction as arbitrary: s) (auto simp: timer_act_inv split: option.splits)

subsection \<open>Properties\<close>

lemma timer_reach_inv: "timer_run lim mk as (timer_new now caps hs) = Some s \<Longrightarrow> timer_inv s"
  using timer_run_inv timer_new_inv by blast

text \<open>
  C18: In every schedule of registrations, cancellations, mailbox traffic, clock ticks and steps of the
  timer thread, no timer fires before its deadline. A timer of \<open>send_after\<close> fires at most once, and
  two firings of a timer of \<open>send_every\<close> are at least its interval apart.
\<close>

theorem timer_firings:
  assumes "timer_run lim mk as (timer_new now caps hs) = Some s"
  shows "(\<forall>f\<in>set (fired s). due_at f \<le> fired_at f \<and> fired_at f \<le> clock s) \<and>
    (\<forall>j<length (fired s). \<forall>i<j. which (fired s ! i) = which (fired s ! j) \<longrightarrow>
       (\<exists>interval. every (fired s ! i) = Some interval \<and> every (fired s ! j) = Some interval \<and>
          fired_at (fired s ! i) + interval \<le> fired_at (fired s ! j)))"
proof -
  have F: "fire_inv s" using timer_reach_inv [OF assms] by (simp add: timer_inv_def)
  then have "sorted_wrt apart (fired s)" by (simp add: fire_inv_def)
  then have "\<forall>j<length (fired s). \<forall>i<j. apart (fired s ! i) (fired s ! j)"
    using sorted_wrt_nth_less by fastforce
  then show ?thesis using F by (auto simp: fire_inv_def apart_def)
qed

text \<open>
  C26: The timer service keeps the reference counts exact: at any time a mailbox counts the references held
  outside plus one for each of its timers that may still fire, and a timer that is done has given
  its reference back. So a pending or periodic timer alone keeps its actor's mailbox open, also when
  every other reference is gone.
\<close>

theorem timer_references:
  assumes "timer_run lim mk as (timer_new now caps hs) = Some s"
  shows "senders (mbs s a) = handles s a + size {#e \<in># live s. target e = a#} \<and>
    ((\<exists>e\<in>#live s. target e = a) \<longrightarrow> mb_producers_alive (mbs s a))"
proof -
  have r: "senders (mbs s a) = handles s a + size {#e \<in># live s. target e = a#}"
    using timer_reach_inv [OF assms] by (simp add: timer_inv_def refs_inv_def)
  moreover have "0 < size {#e \<in># live s. target e = a#}" if "\<exists>e\<in>#live s. target e = a"
  proof -
    obtain e where "e \<in># {#e \<in># live s. target e = a#}" using \<open>\<exists>e\<in>#live s. target e = a\<close> by auto
    then show ?thesis by (metis empty_not_add_mset multi_member_split nonempty_has_size)
  qed
  ultimately show ?thesis by (simp add: mb_producers_alive_def)
qed

subsection \<open>One pass of the thread\<close>

definition due :: "nat \<Rightarrow> ('m, 'f) timer_entry list \<Rightarrow> ('m, 'f) timer_entry list" where
  "due now h = takeWhile (\<lambda>e. deadline e \<le> now) h"

lemma due_push: "now < deadline x \<Longrightarrow> due now (heap_push x h) = due now h"
  by (induction h) (auto simp: due_def key_def less_timer_key_def)

lemma not_due_none:
  assumes "heap_ok h" "due now h = []" "e \<in> set h"
  shows "now < deadline e"
proof -
  have "\<not> (\<exists>x. heap_peek h = Some x \<and> deadline x \<le> now)"
    using assms(2) by (cases h) (auto simp: due_def split: if_splits)
  moreover have "deadline y \<le> now" if "key x \<le> key y" "deadline x \<le> now" for x y :: "('a, 'b) timer_entry"
    using that by (auto simp: key_def less_eq_timer_key_def)
  ultimately have "\<not> (\<exists>x\<in>#mset h. deadline x \<le> now)"
    using timers.peek_decides [OF assms(1), of "\<lambda>x. deadline x \<le> now"] by blast
  then show ?thesis using assms(3) by (auto simp: not_le)
qed

lemma timer_run_append:
  "timer_run lim mk (as @ bs) s = (case timer_run lim mk as s of None \<Rightarrow> None | Some t \<Rightarrow> timer_run lim mk bs t)"
  by (induction as arbitrary: s) (auto split: option.split)

text \<open>What a pass from \<open>s\<close> leaves behind: it fired, in order, the due timers that are not cancelled.\<close>

definition pass_done :: "nat \<Rightarrow> ('m, 'f) timer \<Rightarrow> ('m, 'f) timer \<Rightarrow> bool" where
  "pass_done now s t \<longleftrightarrow>
     (let fs = map cflag (filter (\<lambda>e. \<not> cancelled s (cflag e)) (due now (heap s)))
      in clock t = clock s \<and>
         (if tpc t = TDead then \<exists>rest. map which (fired s) @ fs = map which (fired t) @ rest
          else map which (fired t) = map which (fired s) @ fs \<and> (\<exists>w. tpc t = TWaiting w) \<and>
               (\<forall>e\<in>set (heap t). now < deadline e)))"

lemma pass_fires:
  assumes "timer_inv s" "tpc s = TLocked now"
  shows "\<exists>n\<le>3 * length (due now (heap s)) + 1. \<exists>t.
    timer_run lim mk (replicate n TimerStep) s = Some t \<and> pass_done now s t"
  using assms
proof (induction "length (due now (heap s))" arbitrary: s)
  case 0
  then have d: "due now (heap s) = []" by simp
  obtain t w where t: "timer_step lim mk s = Some t" "t = s\<lparr>tpc := TWaiting w\<rparr>"
    using d 0(3) by (cases "heap s") (auto simp: timer_step_def due_def split: if_splits)
  have "heap_ok (heap s)" using 0(2) by (simp add: timer_inv_def struct_inv_def)
  then have "pass_done now s t" using d t(2) not_due_none by (auto simp: pass_done_def)
  then show ?case using t(1) by (intro exI [of _ 1]) simp
next
  case (Suc k)
  obtain e h where h: "heap s = e # h" "deadline e \<le> now" "length (due now h) = k"
    "due now (heap s) = e # due now h"
    using Suc(2) by (cases "heap s") (auto simp: due_def split: if_splits)
  have later: ?case if u: "timer_run lim mk (replicate i TimerStep) s = Some u" "i \<le> 3" "tpc u = TLocked now"
      "due now (heap u) = due now h" "clock u = clock s" "cancelled u = cancelled s"
      "map which (fired u) = map which (fired s) @ (if cancelled s (cflag e) then [] else [cflag e])" for i u
  proof -
    have "timer_inv u" using timer_run_inv [OF u(1) Suc(3)] .
    then obtain n t where n: "n \<le> 3 * k + 1" "timer_run lim mk (replicate n TimerStep) u = Some t" "pass_done now u t"
      using Suc(1) [of u] h(3) u(3,4) by auto
    have "pass_done now s t" using n(3) u(4-7) h(4) by (auto simp: pass_done_def Let_def split: if_splits)
    moreover have "timer_run lim mk (replicate (i + n) TimerStep) s = Some t"
      using u(1) n(2) by (simp add: replicate_add timer_run_append)
    moreover have "i + n \<le> 3 * length (due now (heap s)) + 1" using n(1) u(2) h(3,4) by simp
    ultimately show ?thesis by blast
  qed
  show ?case
  proof (cases "cancelled s (cflag e)")
    case True
    then have "timer_step lim mk s = Some (drop_entry e (s\<lparr>heap := h\<rparr>))"
      using Suc(4) h by (simp add: timer_step_def heap_pop_def)
    then show ?thesis
      using True Suc(4) by (intro later [of 1 "drop_entry e (s\<lparr>heap := h\<rparr>)"]) (simp_all add: drop_entry_def)
  next
    case False
    let ?s1 = "s\<lparr>heap := h, tpc := TFiring now e\<rparr>"
    have s1: "timer_step lim mk s = Some ?s1"
      using Suc(4) h False by (simp add: timer_step_def heap_pop_def)
    then have I1: "timer_inv ?s1" using timer_step_inv Suc(3) by blast
    obtain r mb where r: "run_fire lim mk (clock s) (fire e) (mbs s (target e)) = (r, mb)" by force
    show ?thesis
    proof (cases r)
      case None
      let ?t = "drop_entry e (?s1\<lparr>fired := fired s @ [firing_of e (clock s)], mbs := (mbs s)(target e := mb), tpc := TDead\<rparr>)"
      have "timer_step lim mk ?s1 = Some ?t" using r None by (simp add: timer_step_def)
      moreover have "pass_done now s ?t"
        using h False by (auto simp: pass_done_def drop_entry_def firing_of_def)
      ultimately show ?thesis using s1 h by (intro exI [of _ 2]) (simp add: numeral_2_eq_2)
    next
      case (Some q)
      obtain nx f' where q: "q = (nx, f')" by (cases q)
      let ?s2 = "?s1\<lparr>fired := fired s @ [firing_of e (clock s)], mbs := (mbs s)(target e := mb),
        tpc := TFired now (e\<lparr>fire := f'\<rparr>) nx\<rparr>"
      have s2: "timer_step lim mk ?s1 = Some ?s2" using Some r q by (simp add: timer_step_def)
      then have "timer_inv ?s2" using timer_step_inv I1 by blast
      then have nx: "now < dl" if "nx = Some dl" for dl
        using that by (simp add: timer_inv_def struct_inv_def)
      have "timer_step lim mk ?s2 \<noteq> None" using False by (cases nx) (simp_all add: timer_step_def)
      then obtain u where s3: "timer_step lim mk ?s2 = Some u" by blast
      then have "tpc u = TLocked now \<and> due now (heap u) = due now h \<and> clock u = clock s \<and> cancelled u = cancelled s \<and>
          fired u = fired s @ [firing_of e (clock s)]"
        using nx False by (cases nx) (auto simp: timer_step_def drop_entry_def due_push)
      moreover have "timer_run lim mk (replicate 3 TimerStep) s = Some u"
        using s1 s2 s3 by (simp add: numeral_3_eq_3)
      ultimately show ?thesis using False by (intro later [of 3 u]) (simp_all add: firing_of_def)
    qed
  qed
qed

text \<open>
  C20: A pass of the timer thread ends: left to run, it is asleep again, or dead because \<open>make\<close> or the
  next deadline panicked, after at most three steps per due timer and one more. In the first case it
  has fired exactly the timers that were due and not cancelled, by deadline and then by
  registration number, and no timer that was due is left in the heap; in the second it has fired a first part
  of these. The zero-interval check of \<open>send_every\<close> is what keeps a periodic timer from being due again
  in the same pass.
\<close>

theorem timer_pass:
  assumes "timer_run lim mk as (timer_new now0 caps hs) = Some s" "tpc s = TLocked now"
  shows "\<exists>n\<le>3 * length (due now (heap s)) + 1. \<exists>t. timer_run lim mk (replicate n TimerStep) s = Some t \<and>
    sorted_wrt (\<lambda>x y. key y \<le> key x) (due now (heap s)) \<and>
    (let fs = map cflag (filter (\<lambda>e. \<not> cancelled s (cflag e)) (due now (heap s)))
     in if tpc t = TDead then \<exists>rest. map which (fired s) @ fs = map which (fired t) @ rest
        else map which (fired t) = map which (fired s) @ fs \<and> (\<exists>w. tpc t = TWaiting w) \<and>
             (\<forall>e\<in>set (heap t). now < deadline e))"
proof -
  have I: "timer_inv s" using timer_reach_inv [OF assms(1)] .
  have "heap s = due now (heap s) @ dropWhile (\<lambda>e. deadline e \<le> now) (heap s)" by (simp add: due_def)
  moreover have "heap_ok (heap s)" using I by (simp add: timer_inv_def struct_inv_def)
  ultimately have "sorted_wrt (\<lambda>x y. key y \<le> key x) (due now (heap s))"
    unfolding heap_ok_def by (metis sorted_wrt_append)
  moreover obtain n t where n: "n \<le> 3 * length (due now (heap s)) + 1"
      "timer_run lim mk (replicate n TimerStep) s = Some t" "pass_done now s t"
    using pass_fires [OF I assms(2), of lim mk] by blast
  ultimately show ?thesis
    using n(3) unfolding pass_done_def Let_def by (intro exI [of _ n] exI [of _ t] conjI n(1,2)) blast+
qed

lemma cancelled_act:
  assumes "timer_act lim mk a s = Some t" "cancelled s i" "\<forall>now e. tpc s = TFiring now e \<longrightarrow> cflag e \<noteq> i"
  shows "cancelled t i \<and> (\<forall>now e. tpc t = TFiring now e \<longrightarrow> cflag e \<noteq> i) \<and>
    filter (\<lambda>f. which f = i) (fired t) = filter (\<lambda>f. which f = i) (fired s)"
proof (cases a)
  case TimerStep
  then show ?thesis
    using assms
    by (cases "tpc s") (auto simp: timer_step_def drop_entry_def firing_of_def Let_def split: option.splits if_splits prod.splits)
qed (use assms in \<open>auto simp: send_after_def send_every_def schedule_timer_def cancel_def split: if_splits\<close>)

text \<open>
  C27: \<open>cancel\<close> is effective: once a timer is cancelled, and unless the timer thread is just about to run
  that very timer, it never fires again, whatever happens afterwards. This holds for one-shot and
  for periodic timers, in the heap, not yet in it, or between two firings.
\<close>

theorem timer_cancel:
  assumes "timer_run lim mk as s = Some t" "cancelled s i" "\<forall>now e. tpc s = TFiring now e \<longrightarrow> cflag e \<noteq> i"
  shows "filter (\<lambda>f. which f = i) (fired t) = filter (\<lambda>f. which f = i) (fired s)"
  using assms
proof (induction as arbitrary: s)
  case (Cons a as)
  then obtain u where u: "timer_act lim mk a s = Some u" "timer_run lim mk as u = Some t" by (auto split: option.splits)
  with cancelled_act [OF u(1) Cons.prems(2,3)] Cons.IH [OF u(2)] show ?case by simp
qed simp

subsection \<open>A small run\<close>

text \<open>
  One actor with one reference; a periodic timer every 5, registered at time 0, and the thread awake
  again at time 5. Then the caller's own reference goes away, or the timer is cancelled.
\<close>

abbreviation demo_new :: "(nat, unit) timer" where
  "demo_new \<equiv> timer_new 0 (\<lambda>_. 4) (\<lambda>_. 1)"

abbreviation demo_make :: "unit \<Rightarrow> (nat \<times> unit) option" where
  "demo_make \<equiv> (\<lambda>_. Some (9, ()))"

definition demo_acts :: "(nat, unit) timer_action list" where
  "demo_acts = [TimerStep, SendEvery 0 5 (), PushEntry 0, Tick 5, TimerStep]"

definition demo_entry :: "(nat, unit) timer_entry" where
  "demo_entry = \<lparr>deadline = 5, eseq = 0, cflag = 0, target = 0, fire = Every 5 ()\<rparr>"

definition demo_timer :: "(nat, unit) timer" where
  "demo_timer =
     \<lparr>heap = [demo_entry], tseq = 1, next_flag = 1, cancelled = (\<lambda>_. False), pending = [], tpc = TLocked 5, clock = 5,
      mbs = (mbs demo_new)(0 := mb_clone (mbs demo_new 0)), handles = (\<lambda>_. 1), fired = []\<rparr>"

lemma demo_timer_run: "timer_run 100 demo_make demo_acts demo_new = Some demo_timer"
  by (simp add: demo_acts_def demo_timer_def demo_entry_def timer_new_def timer_step_def send_every_def schedule_timer_def
      instant_add_def)

lemma demo_fires:
  "\<exists>s. timer_run 100 demo_make (demo_acts @ [TimerStep, TimerStep, DropRef 0]) demo_new = Some s \<and>
     fired s = [\<lparr>which = 0, due_at = 5, fired_at = 5, every = Some 5\<rparr>] \<and> handles s 0 = 0 \<and>
     live s = {#demo_entry#}"
  unfolding timer_run_append demo_timer_run
  by (simp add: demo_timer_def demo_entry_def timer_step_def heap_pop_def instant_add_def firing_of_def
      mb_defs timer_new_def live_def waiting_def)

theorem timer_firings_witness:
  "\<exists>s. timer_run 100 demo_make (demo_acts @ [TimerStep, TimerStep, DropRef 0]) demo_new = Some s \<and>
     fired s \<noteq> [] \<and> (\<forall>f\<in>set (fired s). due_at f \<le> fired_at f)"
proof -
  obtain s where s: "timer_run 100 demo_make (demo_acts @ [TimerStep, TimerStep, DropRef 0]) demo_new = Some s"
      "fired s \<noteq> []"
    using demo_fires by force
  from timer_firings [OF s(1)] s show ?thesis by auto
qed

theorem timer_references_witness:
  "\<exists>s. timer_run 100 demo_make (demo_acts @ [TimerStep, TimerStep, DropRef 0]) demo_new = Some s \<and>
     handles s 0 = 0 \<and> mb_producers_alive (mbs s 0)"
proof -
  obtain s where s: "timer_run 100 demo_make (demo_acts @ [TimerStep, TimerStep, DropRef 0]) demo_new = Some s"
      "handles s 0 = 0" "live s = {#demo_entry#}"
    using demo_fires by blast
  moreover have "target demo_entry = 0" by (simp add: demo_entry_def)
  ultimately show ?thesis using timer_references [OF s(1), of 0] by auto
qed

theorem timer_pass_witness:
  "\<exists>n\<le>4. \<exists>t. timer_run 100 demo_make (replicate n TimerStep) demo_timer = Some t \<and>
     (tpc t = TDead \<or> map which (fired t) = [0])"
proof -
  have "due 5 (heap demo_timer) = [demo_entry]" "cflag demo_entry = 0" "\<not> cancelled demo_timer 0"
      "fired demo_timer = []" "tpc demo_timer = TLocked 5"
    by (simp_all add: demo_timer_def demo_entry_def due_def)
  with timer_pass [OF demo_timer_run, of 5] show ?thesis by (auto simp: Let_def split: if_splits)
qed

theorem timer_cancel_witness:
  "\<exists>t. timer_run 100 demo_make [TimerStep, TimerStep, Tick 9, TimerStep] (cancel 0 demo_timer) = Some t \<and> fired t = []"
proof -
  let ?as = "[TimerStep, TimerStep, Tick 9, TimerStep]"
  have "\<exists>t. timer_run 100 demo_make ?as (cancel 0 demo_timer) = Some t \<and> (\<forall>f\<in>set (fired t). which f = 0)"
    by (simp add: cancel_def demo_timer_def demo_entry_def timer_step_def heap_pop_def drop_entry_def)
  then obtain t where t: "timer_run 100 demo_make ?as (cancel 0 demo_timer) = Some t" "\<forall>f\<in>set (fired t). which f = 0"
    by blast
  have "filter (\<lambda>f. which f = 0) (fired t) = filter (\<lambda>f. which f = 0) (fired (cancel 0 demo_timer))"
    by (rule timer_cancel [OF t(1)]) (simp_all add: cancel_def demo_timer_def)
  then have "fired t = []" using t(2) by (simp add: cancel_def demo_timer_def filter_empty_conv)
  then show ?thesis using t(1) by blast
qed

end
