(* ===== verification/Contract.thy ===== *)
theory Contract
  imports Scheduler
begin

text \<open>
  The contract between a program written with the runtime and the core loop: what its handlers, hooks
  and factories and the threads of other cores keep true of the shared world, step by step, the core
  loop keeps true of every run, on every branch (restarts, panics, removals and the final drain).
  \<open>W\<close> is what holds of the world, \<open>J i s es\<close> what holds of the state \<open>s\<close> of the actor of mailbox \<open>i\<close> when its
  history is \<open>es\<close>, \<open>makes i mk\<close> which factories it may have, and \<open>mine\<close> are the mailboxes of this core. The last sections
  use the contract for what holds of every program: that messages are handled once and in order, and that a panic stays with its actor.
\<close>

subsection \<open>Evaluating runs\<close>

lemma drain_batch_numeral:
  "drain_batch env ops (numeral k) c w =
     (case poll_one env ops c w of
        (Worked, c', w') \<Rightarrow> drain_batch env ops (pred_numeral k) c' w'
      | (Empty, c', w') \<Rightarrow> (False, c', w')
      | (Panicked, c', w') \<Rightarrow> (True, c', w'))"
  by (simp add: numeral_eq_Suc)

lemmas core_eval = core_iteration_def core_new_def cell_start_def run_pass_def scan.simps visit_def poll_one_def mb_defs
  log_ev_def closed_and_empty_def drain_all.simps cell_stop_def cell_drop_def policy_default_def Let_def drain_batch_numeral

subsection \<open>The contract\<close>

locale actor_contract =
  fixes env :: "'m world \<Rightarrow> 'm world"
    and ops :: "('s, 'm) actor_ops"
    and mine :: "nat set"
    and W :: "'m world \<Rightarrow> bool"
    and J :: "nat \<Rightarrow> 's \<Rightarrow> 'm entry list \<Rightarrow> bool"
    and makes :: "nat \<Rightarrow> ('m world \<Rightarrow> 's option \<times> 'm world) \<Rightarrow> bool"
  assumes env_world: "W w \<Longrightarrow> W (env w)"
    and env_trace: "i \<in> mine \<Longrightarrow> trace (env w) i = trace w i"
    and starts: "i \<in> mine \<Longrightarrow> W w \<Longrightarrow> J i s (trace w i) \<Longrightarrow> op_start ops s w = (r, w') \<Longrightarrow>
      trace w' = trace w \<and> W (log_ev i (EvStart (r \<noteq> None)) w') \<and>
      (\<forall>a. r = Some a \<longrightarrow> J i a (trace w i @ [EvStart True]))"
    and handles: "i \<in> mine \<Longrightarrow> W w \<Longrightarrow> J i s (trace w i) \<Longrightarrow> mb_try_recv (mail w i) = (Some m, mb) \<Longrightarrow>
      op_handle ops m s (w\<lparr>mail := (mail w)(i := mb)\<rparr>) = (r, w') \<Longrightarrow>
      trace w' = trace w \<and> W (log_ev i (EvHandle m (r \<noteq> None)) w') \<and>
      (\<forall>a. r = Some a \<longrightarrow> J i a (trace w i @ [EvHandle m True]))"
    and rebuilds: "i \<in> mine \<Longrightarrow> W w \<Longrightarrow> makes i mk \<Longrightarrow> rebuild ops mk w = (r, w') \<Longrightarrow>
      trace w' = trace w \<and> W (log_ev i (EvRebuild (r \<noteq> None)) w') \<and>
      (\<forall>a. r = Some a \<longrightarrow> J i a (trace w i @ [EvRebuild True]))"
    and stops: "i \<in> mine \<Longrightarrow> W w \<Longrightarrow> J i s (trace w i) \<Longrightarrow> op_stop ops s w = (r, w') \<Longrightarrow>
      trace w' = trace w \<and> W (log_ev i (EvStop (r \<noteq> None)) w')"
    and drops: "i \<in> mine \<Longrightarrow> W w \<Longrightarrow>
      W (log_ev i EvDrop (w\<lparr>mail := (mail w)(i := mb_drop_receiver (mail w i))\<rparr>))"
begin

definition fits :: "('s, 'm) cell \<Rightarrow> 'm world \<Rightarrow> bool" where
  "fits c w \<longleftrightarrow> rx c \<in> mine \<and> J (rx c) (actor c) (trace w (rx c)) \<and> (\<forall>mk. factory c = Some mk \<longrightarrow> makes (rx c) mk)"

definition all_fit :: "('s, 'm) cell list \<Rightarrow> 'm world \<Rightarrow> bool" where
  "all_fit cs w \<longleftrightarrow> distinct (map rx cs) \<and> (\<forall>c\<in>set cs. fits c w)"

text \<open>A step of the cell of mailbox \<open>i\<close> keeps the world in order and leaves the others' histories alone.\<close>

definition step_ok :: "nat \<Rightarrow> 'm world \<Rightarrow> 'm world \<Rightarrow> bool" where
  "step_ok i w w' \<longleftrightarrow> W w' \<and> (\<forall>j\<in>mine. j \<noteq> i \<longrightarrow> trace w' j = trace w j)"

lemma step_ok_trans: "step_ok i w w' \<Longrightarrow> step_ok i w' w'' \<Longrightarrow> step_ok i w w''"
  by (simp add: step_ok_def)

lemma env_ok: "W w \<Longrightarrow> step_ok i w (env w)"
  by (simp add: step_ok_def env_world env_trace)

lemma env_fits: "fits c w \<Longrightarrow> fits c (env w)"
  by (simp add: fits_def env_trace)

lemma trace_log_ev: "trace (log_ev i e w) j = (if j = i then trace w i @ [e] else trace w j)"
  by (simp add: log_ev_def)

lemma after_panic_keeps:
  assumes "W w" "rx c \<in> mine" "\<forall>mk. factory c = Some mk \<longrightarrow> makes (rx c) mk" "after_panic ops c w = (r, c', w')"
  shows "step_ok (rx c) w w' \<and> same_cell c c' \<and> (r \<noteq> Panicked \<longrightarrow> fits c' w')"
proof (cases "factory c")
  case None
  then show ?thesis using assms by (simp add: after_panic_def step_ok_def same_cell_def)
next
  case (Some mk)
  obtain ok rs where a: "allow_restart (cell_policy c) (now w) (restarts c) = (ok, rs)" by force
  obtain q w1 where q: "rebuild ops mk w = (q, w1)" by force
  have law: "trace w1 = trace w" "W (log_ev (rx c) (EvRebuild (q \<noteq> None)) w1)"
    "\<And>a. q = Some a \<Longrightarrow> J (rx c) a (trace w (rx c) @ [EvRebuild True])"
    using rebuilds [OF assms(2,1) _ q] Some assms(3) by auto
  show ?thesis
    using assms Some a q law
    by (cases q) (auto simp: after_panic_def Let_def step_ok_def same_cell_def fits_def trace_log_ev split: if_splits)
qed

lemma poll_one_keeps:
  assumes "W w" "fits c w" "poll_one env ops c w = (r, c', w')"
  shows "step_ok (rx c) w w' \<and> same_cell c c' \<and> (r \<noteq> Panicked \<longrightarrow> fits c' w')"
proof -
  let ?v = "env w"
  have v: "W ?v" "fits c ?v" "step_ok (rx c) w ?v" using assms(1,2) env_world env_fits env_ok by auto
  have c: "rx c \<in> mine" "J (rx c) (actor c) (trace ?v (rx c))" using v(2) by (simp_all add: fits_def)
  obtain x mb where x: "mb_try_recv (mail ?v (rx c)) = (x, mb)" by force
  show ?thesis
  proof (cases x)
    case None
    then show ?thesis using assms(3) x v by (simp add: poll_one_def same_cell_def)
  next
    case (Some m)
    obtain q w1 where q: "op_handle ops m (actor c) (?v\<lparr>mail := (mail ?v)(rx c := mb)\<rparr>) = (q, w1)" by force
    let ?c = "c\<lparr>metrics := map_option (record_sample (of_nat (now w1 - now ?v))) (metrics c)\<rparr>"
    let ?w = "log_ev (rx c) (EvHandle m (q \<noteq> None)) w1"
    have law: "trace w1 = trace ?v" "W ?w" "\<And>a. q = Some a \<Longrightarrow> J (rx c) a (trace ?v (rx c) @ [EvHandle m True])"
      using handles [OF c(1) v(1) c(2) _ q] x Some by auto
    then have w: "step_ok (rx c) w ?w" using v(3) by (simp add: step_ok_def trace_log_ev)
    show ?thesis
    proof (cases q)
      case (Some s)
      then show ?thesis
        using assms(3) x \<open>x = Some m\<close> q law w v(2)
        by (auto simp: poll_one_def Let_def same_cell_def fits_def trace_log_ev)
    next
      case None
      then have p: "after_panic ops ?c ?w = (r, c', w')"
        using assms(3) x \<open>x = Some m\<close> q by (simp add: poll_one_def Let_def)
      have "step_ok (rx c) ?w w' \<and> same_cell ?c c' \<and> (r \<noteq> Panicked \<longrightarrow> fits c' w')"
        using after_panic_keeps [OF law(2) _ _ p] v(2) by (simp add: fits_def)
      then show ?thesis using step_ok_trans [OF w] by (auto simp: same_cell_def)
    qed
  qed
qed

lemma all_fit_step:
  assumes "all_fit (cs @ [c]) w" "step_ok (rx c) w w'"
  shows "all_fit cs w'"
proof -
  have "rx d \<noteq> rx c" if "d \<in> set cs" for d
    using assms(1) imageI [OF that, of rx] by (auto simp: all_fit_def)
  then show ?thesis using assms by (simp add: all_fit_def fits_def step_ok_def)
qed

lemma all_fit_mset: "mset cs = mset ds \<Longrightarrow> all_fit cs w \<longleftrightarrow> all_fit ds w"
  by (metis all_fit_def mset_eq_imp_distinct_iff mset_eq_setD mset_map)

lemma all_fit_replace:
  assumes "all_fit (cs @ [c]) w" "step_ok (rx c) w w'" "same_cell c c'" "fits c' w'"
  shows "all_fit (cs @ [c']) w'"
  using all_fit_step [OF assms(1,2)] assms(1,3,4) by (auto simp: all_fit_def same_cell_def)

lemma cell_drop_keeps: "W w \<Longrightarrow> rx c \<in> mine \<Longrightarrow> step_ok (rx c) w (cell_drop c w)"
  by (simp add: cell_drop_def step_ok_def drops trace_log_ev)

lemma cell_stop_keeps: "W w \<Longrightarrow> fits c w \<Longrightarrow> step_ok (rx c) w (cell_stop ops c w)"
  using stops [of "rx c" w "actor c"]
  by (auto simp: cell_stop_def step_ok_def fits_def trace_log_ev split: prod.split)

lemma drain_batch_keeps:
  "W w \<Longrightarrow> fits c w \<Longrightarrow> drain_batch env ops n c w = (panicked, c', w') \<Longrightarrow>
     step_ok (rx c) w w' \<and> same_cell c c' \<and> (\<not> panicked \<longrightarrow> fits c' w')"
proof (induction n arbitrary: c w)
  case 0
  then show ?case by (simp add: step_ok_def same_cell_def)
next
  case (Suc n)
  obtain r c1 w1 where p: "poll_one env ops c w = (r, c1, w1)" by (metis prod_cases3)
  note k = poll_one_keeps [OF Suc.prems(1,2) p]
  show ?case
  proof (cases "r = Worked")
    case True
    then have "drain_batch env ops n c1 w1 = (panicked, c', w')" "W w1" "fits c1 w1" "rx c1 = rx c"
      using Suc.prems p k by (simp_all add: step_ok_def same_cell_def)
    from Suc.IH [OF this(2,3,1)] this(4) k show ?thesis
      using step_ok_trans same_cell_trans by metis
  next
    case False
    then show ?thesis using Suc.prems(3) p k by (cases r) auto
  qed
qed

lemma visit_keeps:
  assumes "W w" "fits c w" "visit env ops b c (w, dw) = (removed, c', w', dw')"
  shows "step_ok (rx c) w w' \<and> (\<not> removed \<longrightarrow> same_cell c c' \<and> fits c' w')"
proof -
  obtain r c1 w1 where p: "poll_one env ops c w = (r, c1, w1)" by (metis prod_cases3)
  note k = poll_one_keeps [OF assms(1,2) p]
  have rx1: "rx c1 = rx c" "rx c \<in> mine" "W w1" using k assms(2) by (simp_all add: same_cell_def fits_def step_ok_def)
  have drop: "step_ok (rx c) w (cell_drop d u)" if "step_ok (rx c) w u" "rx d = rx c" for d u
    using cell_drop_keeps [of u d] that rx1(2) step_ok_trans [OF that(1)] by (simp add: step_ok_def)
  show ?thesis
  proof (cases r)
    case Worked
    obtain q c2 w2 where d: "drain_batch env ops (unat b - 1) c1 w1 = (q, c2, w2)" by (metis prod_cases3)
    have "step_ok (rx c) w1 w2 \<and> same_cell c1 c2 \<and> (\<not> q \<longrightarrow> fits c2 w2)"
      using drain_batch_keeps [OF rx1(3) _ d] k Worked rx1 by simp
    then have "step_ok (rx c) w w2" "same_cell c c2" "\<not> q \<longrightarrow> fits c2 w2"
      using k step_ok_trans same_cell_trans by blast+
    then show ?thesis
      using assms(3) p d Worked drop [of w2 c2] by (auto simp: visit_def same_cell_def split: if_splits)
  next
    case Panicked
    then show ?thesis using assms(3) p k drop [of w1 c1] rx1 by (auto simp: visit_def)
  next
    case Empty
    have v: "step_ok (rx c) w (env w1)" "fits c1 (env w1)" "W (env w1)"
      using k Empty env_ok [OF rx1(3)] env_fits step_ok_trans by (auto simp: step_ok_def)
    then have "step_ok (rx c) w (cell_stop ops c1 (env w1))"
      using cell_stop_keeps [OF v(3,2)] rx1(1) step_ok_trans by simp
    then show ?thesis
      using assms(3) p k v Empty drop [of "cell_stop ops c1 (env w1)" c1] rx1
      by (auto simp: visit_def Let_def split: if_splits)
  qed
qed

lemma run_pass_keeps:
  assumes "W w" "all_fit (cells @ fut) w" "run_pass env ops b cells w = (cells', w', dw)"
  shows "W w' \<and> all_fit (cells' @ fut) w'"
proof -
  let ?I = "\<lambda>(i :: nat) xs (st :: 'm world \<times> bool). W (fst st) \<and> all_fit (xs @ fut) (fst st)"
  have other: "mset (xs @ fut) = mset ((swap_remove xs i @ fut) @ [xs ! i])"
    and keep: "mset (xs[i := x] @ fut) = mset ((swap_remove xs i @ fut) @ [x])"
    if "i < length xs" for i x and xs :: "('s, 'm) cell list"
    using that mset_swap_remove [OF that] by (simp_all add: mset_update)
  have "?I (length cells') cells' (w', dw)"
  proof (rule scan_invariant [where I = ?I, OF assms(3) [unfolded run_pass_def]])
    fix i xs x and st st' :: "'m world \<times> bool"
    assume i: "i < length xs" and I: "?I i xs st"
    obtain u d where st: "st = (u, d)" by (cases st)
    obtain u' d' where st': "st' = (u', d')" by (cases st')
    have f: "all_fit ((swap_remove xs i @ fut) @ [xs ! i]) u" "W u" "fits (xs ! i) u"
      using I i all_fit_mset [OF other [OF i]] by (auto simp: st all_fit_def)
    show "?I i (swap_remove xs i) st'" if "visit env ops b (xs ! i) st = (True, x, st')"
      using visit_keeps [OF f(2,3)] that all_fit_step [OF f(1)] by (auto simp: st st' step_ok_def)
    show "?I (Suc i) (xs[i := x]) st'" if "visit env ops b (xs ! i) st = (False, x, st')"
      using visit_keeps [OF f(2,3)] that all_fit_replace [OF f(1)] all_fit_mset [OF keep [OF i]]
      by (auto simp: st st' step_ok_def)
  qed (use assms(1,2) in simp_all)
  then show ?thesis by simp
qed

lemma do_control_keeps:
  "W w \<Longrightarrow> all_fit (actors k @ adds cs @ fut) w \<Longrightarrow> do_control ops cs disc k w = (ca, k', w') \<Longrightarrow>
     W w' \<and> all_fit (actors k' @ fut) w'"
proof (induction cs arbitrary: k w ca)
  case Nil
  then show ?case by (auto split: if_splits)
next
  case (Cons x cs)
  show ?case
  proof (cases x)
    case Shutdown
    then show ?thesis using Cons.IH [of w "k\<lparr>shutting_down := True\<rparr>"] Cons.prems by simp
  next
    case (Add c)
    obtain ok c1 w1 where s: "cell_start ops c w = (ok, c1, w1)" by (metis prod_cases3)
    have m: "mset (actors k @ adds (x # cs) @ fut) = mset ((actors k @ adds cs @ fut) @ [c])" by (simp add: Add)
    have f: "all_fit ((actors k @ adds cs @ fut) @ [c]) w" using Cons.prems(2) all_fit_mset [OF m] by simp
    then have c: "fits c w" by (simp add: all_fit_def)
    have k: "step_ok (rx c) w w1 \<and> same_cell c c1 \<and> (ok \<longrightarrow> fits c1 w1)"
      using starts [of "rx c" w "actor c"] Cons.prems(1) c s
      by (auto simp: cell_start_def step_ok_def same_cell_def fits_def trace_log_ev split: prod.splits option.splits)
    let ?k = "if ok then k\<lparr>actors := actors k @ [c1]\<rparr> else k"
    let ?w = "if ok then w1 else cell_drop c1 w1"
    obtain a where rest: "do_control ops cs disc ?k ?w = (a, k', w')"
      using Cons.prems(3) Add s by (auto split: prod.splits)
    have "W ?w \<and> all_fit (actors ?k @ adds cs @ fut) ?w"
    proof (cases ok)
      case True
      have "mset ((actors k @ adds cs @ fut) @ [c1]) = mset (actors ?k @ adds cs @ fut)" using True by simp
      from all_fit_mset [OF this, of w1] show ?thesis
        using True k all_fit_replace [OF f, of w1 c1] by (simp add: step_ok_def)
    next
      case False
      have "step_ok (rx c) w (cell_drop c1 w1)"
        using k c cell_drop_keeps [of w1 c1] step_ok_trans by (auto simp: same_cell_def fits_def step_ok_def)
      then show ?thesis using False all_fit_step [OF f] by (simp add: step_ok_def)
    qed
    then show ?thesis using Cons.IH [OF _ _ rest] by blast
  qed
qed

lemma drain_all_keeps:
  assumes "drain_all env ops c w = Some (panicked, c', w')" "W w" "fits c w"
  shows "step_ok (rx c) w w' \<and> same_cell c c' \<and> (\<not> panicked \<longrightarrow> fits c' w')"
proof -
  let ?P = "\<lambda>e p c w r. e = env \<longrightarrow> p = ops \<longrightarrow> W w \<longrightarrow> fits c w \<longrightarrow>
    step_ok (rx c) w (snd (snd r)) \<and> same_cell c (fst (snd r)) \<and> (\<not> fst r \<longrightarrow> fits (fst (snd r)) (snd (snd r)))"
  have "?P env ops c w (panicked, c', w')"
  proof (rule drain_all.raw_induct [where P = ?P, OF _ assms(1)], intro impI)
    fix f e p c w r
    assume IH: "\<And>e p c w r. f e p c w = Some r \<Longrightarrow> ?P e p c w r"
      and eq: "(case poll_one e p c w of
          (Worked, c', w') \<Rightarrow> f e p c' w' | (Empty, c', w') \<Rightarrow> Some (False, c', w')
        | (Panicked, c', w') \<Rightarrow> Some (True, c', w')) = Some r"
      and e: "e = env" "p = ops" and w: "W w" "fits c w"
    obtain q c1 w1 where p: "poll_one env ops c w = (q, c1, w1)" by (metis prod_cases3)
    note k = poll_one_keeps [OF w p]
    show "step_ok (rx c) w (snd (snd r)) \<and> same_cell c (fst (snd r)) \<and> (\<not> fst r \<longrightarrow> fits (fst (snd r)) (snd (snd r)))"
    proof (cases "q = Worked")
      case True
      then have "f e p c1 w1 = Some r" using eq p e by simp
      from IH [OF this] e k True have "step_ok (rx c) w1 (snd (snd r)) \<and> same_cell c1 (fst (snd r)) \<and>
          (\<not> fst r \<longrightarrow> fits (fst (snd r)) (snd (snd r)))"
        by (auto simp: step_ok_def same_cell_def)
      then show ?thesis using k step_ok_trans same_cell_trans by blast
    next
      case False
      then show ?thesis using eq p e k by (cases q) auto
    qed
  qed
  then show ?thesis using assms(2,3) by simp
qed

lemma shut_down_keeps:
  "W w \<Longrightarrow> all_fit (cells @ fut) w \<Longrightarrow> shut_down env ops cells w = Some w' \<Longrightarrow> W w' \<and> all_fit fut w'"
proof (induction cells arbitrary: w)
  case (Cons c cells)
  obtain p c1 w1 where d: "drain_all env ops c w = Some (p, c1, w1)"
    and rest: "shut_down env ops cells (cell_drop c1 (if p then w1 else cell_stop ops c1 w1)) = Some w'"
    using Cons.prems(3) by (auto split: option.splits)
  have m: "mset ((c # cells) @ fut) = mset ((cells @ fut) @ [c])" by simp
  have f: "all_fit ((cells @ fut) @ [c]) w" using Cons.prems(2) all_fit_mset [OF m] by simp
  then have c: "fits c w" by (simp add: all_fit_def)
  let ?u = "if p then w1 else cell_stop ops c1 w1"
  note k = drain_all_keeps [OF d Cons.prems(1) c]
  have rx1: "rx c1 = rx c" "W w1" using k by (simp_all add: same_cell_def step_ok_def)
  have u: "step_ok (rx c) w ?u" using k step_ok_trans [of "rx c" w w1] cell_stop_keeps [OF rx1(2), of c1] rx1(1) by auto
  then have "step_ok (rx c) w (cell_drop c1 ?u)"
    using cell_drop_keeps [of ?u c1] rx1(1) c step_ok_trans [OF u] by (simp add: step_ok_def fits_def)
  then show ?case using Cons.IH [OF _ all_fit_step [OF f] rest] by (simp add: step_ok_def)
qed simp

lemma core_loop_keeps:
  assumes "W w" "all_fit (actors k @ all_adds runs) w" "core_loop env ops pol runs k w = Some r"
  shows "case r of Inl (k', w') \<Rightarrow> W w' \<and> all_fit (actors k') w' | Inr w' \<Rightarrow> W w'"
  using assms
proof (induction runs arbitrary: k w)
  case Nil
  then show ?case by (auto simp: all_adds_def)
next
  case (Cons x runs)
  obtain cs disc where x: "x = (cs, disc)" by fastforce
  obtain ca k1 w1 where c: "do_control ops cs disc k w = (ca, k1, w1)" by (metis prod_cases3)
  have f1: "W w1" "all_fit (actors k1 @ all_adds runs) w1"
    using do_control_keeps [OF Cons.prems(1) _ c, of "all_adds runs"] Cons.prems(2) x by (auto simp: all_adds_def)
  obtain cells w2 dw where p: "run_pass env ops (pol_batch pol) (actors k1) w1 = (cells, w2, dw)" by (metis prod_cases3)
  have f2: "W w2" "all_fit (cells @ all_adds runs) w2" using run_pass_keeps [OF f1 p] by auto
  show ?case
  proof (cases "shutting_down k1")
    case True
    then obtain w3 where "shut_down env ops cells w2 = Some w3" "r = Inr w3"
      using Cons.prems(3) x c p by (auto simp: core_iteration_def split: option.splits)
    then show ?thesis using shut_down_keeps [OF f2] by simp
  next
    case False
    let ?k = "k1\<lparr>actors := cells, idle_count := if dw \<or> ca then 0 else saturating_add (idle_count k1) 1\<rparr>"
    have "core_loop env ops pol runs ?k w2 = Some r"
      using False Cons.prems(3) x c p by (auto simp: core_iteration_def split: if_splits option.splits)
    then show ?thesis using Cons.IH [OF f2(1), of ?k] f2(2) by simp
  qed
qed

end

subsection \<open>What every program keeps\<close>

text \<open>
  Every message accepted by a mailbox has been handled or is still queued, in order; a dropped receiver stays
  dropped; the actors of the mailboxes \<open>U\<close>, which have no factory, are never rebuilt.
\<close>

definition books :: "nat set \<Rightarrow> 'm world \<Rightarrow> bool" where
  "books U w \<longleftrightarrow> (\<forall>i. handled w i @ items (mail w i) = posted w i) \<and>
     (\<forall>i. EvDrop \<in> set (trace w i) \<longrightarrow> \<not> receiver_alive (mail w i)) \<and> (\<forall>i\<in>U. \<forall>b. EvRebuild b \<notin> set (trace w i))"

lemma books_sends:
  assumes "books U w" "sends w w'"
  shows "books U w'"
proof -
  have "handled w' i @ items (mail w' i) = posted w' i" for i
  proof -
    obtain new where "items (mail w' i) = items (mail w i) @ new" "posted w' i = posted w i @ new"
      using assms(2) unfolding sends_def by blast
    then show ?thesis using assms unfolding books_def sends_def handled_def by (metis append.assoc)
  qed
  then show ?thesis using assms by (auto simp: books_def sends_def)
qed

lemma books_log:
  "books U w \<Longrightarrow> (\<forall>b. e = EvRebuild b \<longrightarrow> i \<notin> U) \<Longrightarrow> msgs [e] = [] \<Longrightarrow> e \<noteq> EvDrop \<Longrightarrow> books U (log_ev i e w)"
  by (auto simp: books_def log_ev_def handled_def)

lemma books_drop: "books U w \<Longrightarrow> books U (log_ev i EvDrop (w\<lparr>mail := (mail w)(i := mb_drop_receiver (mail w i))\<rparr>))"
  by (auto simp: books_def log_ev_def handled_def mb_drop_receiver_def)

lemma books_handle:
  assumes "books U w" "mb_try_recv (mail w i) = (Some m, mb)" "sends (w\<lparr>mail := (mail w)(i := mb)\<rparr>) w'"
  shows "books U (log_ev i (EvHandle m b) w')"
proof -
  obtain ms where ms: "items (mail w i) = m # ms" "mb = (mail w i)\<lparr>items := ms\<rparr>"
    using assms(2) by (auto simp: mb_try_recv_def split: list.splits)
  have tr: "trace w' = trace w" using assms(3) by (simp add: sends_def)
  have "handled (log_ev i (EvHandle m b) w') j @ items (mail w' j) = posted w' j" for j
  proof -
    obtain new where "items (mail w' j) = items (if j = i then mb else mail w j) @ new" "posted w' j = posted w j @ new"
      using assms(3) unfolding sends_def by (auto dest: spec [of _ j])
    moreover have "posted w j = msgs (trace w j) @ items (mail w j)" using assms(1) by (simp add: books_def handled_def)
    ultimately show ?thesis using ms tr by (cases "j = i") (simp_all add: handled_def log_ev_def)
  qed
  moreover have "\<not> receiver_alive (mail w' j)" if "EvDrop \<in> set (trace w j)" for j
    using assms(1,3) that ms(2) unfolding books_def sends_def by (metis fun_upd_apply mailbox.ext_inject mailbox.surjective mailbox.update_convs(1) world.select_convs(1) world.surjective world.update_convs(1))
  ultimately show ?thesis using assms(1) tr by (auto simp: books_def log_ev_def)
qed

lemma books_contract:
  assumes "user_ok env ops"
  shows "actor_contract env ops UNIV (books U) (\<lambda>_ _ _. True) (\<lambda>i mk. i \<notin> U \<and> (\<forall>w. sends w (snd (mk w))))"
proof
  have env: "sends w (env w)" and hk: "op_start ops s w = (r, w') \<Longrightarrow> sends w w'" "op_stop ops s w = (r, w') \<Longrightarrow> sends w w'"
      "op_handle ops m s w = (r, w') \<Longrightarrow> sends w w'" for w w' s r m
    using assms unfolding user_ok_def by (metis snd_conv)+
  show "books U (env w)" if "books U w" for w using books_sends [OF that env] .
  show "trace (env w) i = trace w i" for w i using env [of w] by (simp add: sends_def)
  show "trace w' = trace w \<and> books U (log_ev i (EvStart (r \<noteq> None)) w') \<and> (\<forall>a. r = Some a \<longrightarrow> True)"
    if "books U w" "op_start ops s w = (r, w')" for i w s r w'
    using books_log [OF books_sends [OF that(1) hk(1) [OF that(2)]]] hk(1) [OF that(2)] by (simp add: sends_def)
  show "trace w' = trace w \<and> books U (log_ev i (EvStop (r \<noteq> None)) w')"
    if "books U w" "op_stop ops s w = (r, w')" for i w s r w'
    using books_log [OF books_sends [OF that(1) hk(2) [OF that(2)]]] hk(2) [OF that(2)] by (simp add: sends_def)
  show "trace w' = trace w \<and> books U (log_ev i (EvHandle m (r \<noteq> None)) w') \<and> (\<forall>a. r = Some a \<longrightarrow> True)"
    if "books U w" "mb_try_recv (mail w i) = (Some m, mb)" "op_handle ops m s (w\<lparr>mail := (mail w)(i := mb)\<rparr>) = (r, w')"
    for i w s m mb r w'
    using books_handle [OF that(1,2) hk(3) [OF that(3)]] hk(3) [OF that(3)] by (simp add: sends_def)
  show "trace w' = trace w \<and> books U (log_ev i (EvRebuild (r \<noteq> None)) w') \<and> (\<forall>a. r = Some a \<longrightarrow> True)"
    if "books U w" "i \<notin> U \<and> (\<forall>w. sends w (snd (mk w)))" "rebuild ops mk w = (r, w')" for i w mk r w'
  proof -
    have "sends w w'" using rebuild_sends [OF assms, of mk w] that(2,3) by simp
    then show ?thesis using books_log [OF books_sends [OF that(1)], of w' "EvRebuild (r \<noteq> None)" i] that(2) by (simp add: sends_def)
  qed
  show "books U (log_ev i EvDrop (w\<lparr>mail := (mail w)(i := mb_drop_receiver (mail w i))\<rparr>))" if "books U w" for i w
    using books_drop [OF that] .
qed

lemma run_books:
  assumes "user_ok env ops" "\<forall>c\<in>set (all_adds runs). cell_ok c" "distinct (map rx (all_adds runs))" "\<forall>i. trace w i = []"
    and "\<forall>i. posted w i = items (mail w i)" "core_loop env ops pol runs core_new w = Some r"
  shows "books {rx c |c. c \<in> set (all_adds runs) \<and> factory c = None} (case r of Inl (k, v) \<Rightarrow> v | Inr v \<Rightarrow> v)"
proof -
  let ?U = "{rx c |c. c \<in> set (all_adds runs) \<and> factory c = None}"
  note ct = books_contract [OF assms(1), of ?U]
  have "rx c \<notin> ?U" if "c \<in> set (all_adds runs)" "factory c = Some mk" for c mk
    using that assms(3) by (auto simp: distinct_map dest: inj_onD)
  then have fit: "actor_contract.all_fit UNIV (\<lambda>_ _ _. True) (\<lambda>i mk. i \<notin> ?U \<and> (\<forall>w. sends w (snd (mk w)))) (actors core_new @ all_adds runs) w"
    using assms(2,3) unfolding actor_contract.all_fit_def [OF ct] actor_contract.fits_def [OF ct]
    by (auto simp: core_new_def cell_ok_def split: option.splits)
  have "books ?U w" using assms(4,5) by (simp add: books_def handled_def)
  from actor_contract.core_loop_keeps [OF ct this fit assms(6)] show ?thesis by (auto split: sum.splits)
qed

subsection \<open>Once and in order\<close>

text \<open>
  C6: no message is lost, handled twice or handled out of order by a core, whatever its handlers,
  factories and hooks do (panics included), whatever they and other threads send meanwhile, and however
  actors are added and removed: at any time, and after the final drain, the messages that a mailbox has ever accepted, in the order it accepted
  them, are exactly those that its actor was given to handle, followed by those still queued.
  \<open>posted\<close> is the list of the messages accepted: those queued at the start and each one that user code or another thread has sent since.
\<close>

theorem core_messages_once_in_order:
  assumes "user_ok env ops" "\<forall>c\<in>set (all_adds runs). cell_ok c" "distinct (map rx (all_adds runs))"
    and "\<forall>i. trace w i = []" "\<forall>i. posted w i = items (mail w i)"
    and "core_loop env ops pol runs core_new w = Some r" "w' = (case r of Inl (k, v) \<Rightarrow> v | Inr v \<Rightarrow> v)"
  shows "handled w' i @ items (mail w' i) = posted w' i"
  using run_books [OF assms(1-6)] unfolding assms(7) [symmetric] by (simp add: books_def)

text \<open>While the actors run, another thread sends the message 3 to the first one.\<close>

definition demo_sender :: "nat world \<Rightarrow> nat world" where
  "demo_sender w = (if posted w 1 = [1, 0, 5] then snd (post 1 3 w) else w)"

lemma demo_sender_ok: "user_ok demo_sender demo_ops"
  using demo_ok(1) post_sends by (auto simp: user_ok_def demo_sender_def)

lemma core_messages_once_in_order_witness:
  "\<exists>k w'. core_loop demo_sender demo_ops policy_default [([Add (demo_cell 2), Add (demo_cell 1)], False)] core_new demo_world = Some (Inl (k, w')) \<and>
     handled w' 1 = [1, 0] \<and> items (mail w' 1) = [5, 3]"
proof -
  let ?runs = "[([Add (demo_cell 2), Add (demo_cell 1)], False)]"
  obtain k w' where r: "core_loop demo_sender demo_ops policy_default ?runs core_new demo_world = Some (Inl (k, w'))"
      "handled w' 1 = [1, 0]" "posted w' 1 = [1, 0, 5, 3]"
    by (simp add: core_eval after_panic_def demo_world_def demo_cell_def demo_ops_def demo_sender_def post_def handled_def swap_remove_def)
  have "handled w' 1 @ items (mail w' 1) = posted w' 1"
    by (rule core_messages_once_in_order [OF demo_sender_ok _ _ _ _ r(1)]) (simp_all add: all_adds_def demo_ok demo_world_def)
  then show ?thesis using r by auto
qed

subsection \<open>Panics\<close>

lemma phase_started: "es \<noteq> [] \<Longrightarrow> phase_of es \<noteq> Fresh"
proof (induction es rule: rev_induct)
  case (snoc e es)
  have "phase_step p e \<noteq> Fresh" for p by (cases p; cases e) simp_all
  then show ?case by (simp add: phase_of_def)
qed simp

lemma wrong_stays: "foldl phase_step Wrong es = Wrong"
  by (induction es) simp_all

lemma phase_step_Running: "phase_step p e = Running \<longleftrightarrow>
    p = Fresh \<and> e = EvStart True \<or> p = Running \<and> (\<exists>m. e = EvHandle m True) \<or> p = Broken \<and> e = EvRebuild True"
  by (cases p; cases e) auto

lemma phase_step_Dropped: "phase_step p e = Dropped \<longleftrightarrow> e = EvDrop \<and> p \<in> {Broken, Failed, Stopped}"
  by (cases p; cases e) auto

text \<open>An actor that runs and was never rebuilt has done nothing but start and handle messages.\<close>

lemma running_clean:
  "phase_of es = Running \<Longrightarrow> \<forall>b. EvRebuild b \<notin> set es \<Longrightarrow> \<forall>e\<in>set es. e = EvStart True \<or> (\<exists>m. e = EvHandle m True)"
proof (induction es rule: rev_induct)
  case (snoc e es)
  have "phase_of es = Fresh \<Longrightarrow> es = []"
  proof (cases es rule: rev_cases)
    case (snoc fs f)
    assume "phase_of es = Fresh"
    then have "phase_step (phase_of fs) f = Fresh" using snoc by (simp add: phase_of_append)
    then show ?thesis by (cases "phase_of fs"; cases f) (auto split: if_splits)
  qed simp
  then show ?case using snoc by (auto simp: phase_of_append phase_step_Running)
qed simp

text \<open>If it was never rebuilt, a panic is the last thing before its end.\<close>

lemma panic_ends:
  assumes "phase_of es \<in> {Running, Fresh, Dropped}" "EvHandle m False \<in> set es" "\<forall>b. EvRebuild b \<notin> set es"
  shows "\<exists>pre. es = pre @ [EvHandle m False, EvDrop] \<and> (\<forall>e\<in>set pre. e = EvStart True \<or> (\<exists>n. e = EvHandle n True))"
proof -
  obtain pre post where es: "es = pre @ EvHandle m False # post" using assms(2) by (auto dest: split_list)
  let ?p = "phase_of pre"
  have after: "foldl phase_step (phase_step ?p (EvHandle m False)) post \<in> {Running, Fresh, Dropped}"
    using assms(1) by (simp add: es phase_of_append)
  then have p: "?p = Running" by (cases ?p) (auto simp: wrong_stays)
  obtain e rest where post: "post = e # rest" using after p by (cases post) auto
  have "e = EvDrop" using after p assms(3) by (cases e) (auto simp: post es wrong_stays)
  moreover have "rest = []"
  proof (cases rest)
    case (Cons f fs)
    then show ?thesis using after p \<open>e = EvDrop\<close> by (cases f) (auto simp: post wrong_stays)
  qed
  ultimately show ?thesis using es post running_clean [OF p] assms(3) by auto
qed

lemma dropped_cause:
  assumes "phase_of es = Dropped"
  shows "\<exists>e\<in>set es. e = EvStart False \<or> (\<exists>m. e = EvHandle m False) \<or> e = EvRebuild False \<or> (\<exists>b. e = EvStop b)"
proof -
  obtain fs where fs: "es = fs @ [EvDrop]" "phase_of fs \<in> {Broken, Failed, Stopped}"
    using assms by (cases es rule: rev_cases) (auto simp: phase_of_append phase_step_Dropped phase_of_def)
  then obtain gs e where "fs = gs @ [e]" by (cases fs rule: rev_cases) (auto simp: phase_of_def)
  then show ?thesis using fs by (cases "phase_of gs"; cases e) (auto simp: phase_of_append split: if_splits)
qed



end
