(* ===== verification/Runtime.thy ===== *)
theory Runtime
  imports Contract Mpsc
begin

text \<open>
  The user's side of \<open>core/src/system.rs\<close>: a \<open>System\<close> and how actors are put on its cores, the spawn builder,
  and the operations of an \<open>ActorRef\<close>. A core is reached only through its control channel; what the
  core does with the commands in it is theory \<open>Scheduler\<close>, and the last section joins the two. \<open>None\<close>
  stands for a panic in the calling thread unless said otherwise.
\<close>

subsection \<open>System\<close>

text \<open>
  \<open>cores\<close>: for each core the commands sent on its channel, in order; \<open>running\<close>: whether its thread still
  holds the receiving end. \<open>next_id\<close> names the next mailbox. \<open>broken\<close>: the mailboxes made with a capacity below 2, whose queue does not
  work (theorem \<open>channel_one_spins\<close> of theory \<open>Mpsc\<close>); the world's mailboxes are those of the specification, so what it has under such a
  name means nothing, and the theorems on runs are for systems with no broken mailbox.
\<close>

record ('s, 'm) system =
  cores :: "('s, 'm) control list list"
  running :: "bool list"
  next_core :: usize
  next_id :: nat
  broken :: "nat set"
  sys_policy :: policy

record actor_ref =
  ref_tx :: nat
  ref_metrics :: bool
  ref_core :: usize

type_synonym ('s, 'm) factory = "'m world \<Rightarrow> 's option \<times> 'm world"

type_synonym ('s, 'm) spawned = "(actor_ref \<times> ('s, 'm) system \<times> 'm world) option"

definition DEFAULT_MAILBOX_CAPACITY :: usize where
  "DEFAULT_MAILBOX_CAPACITY = 1024"

definition with_policy :: "usize \<Rightarrow> policy \<Rightarrow> ('s, 'm) system option" where
  "with_policy n pol =
     (if 1 \<le> n
      then Some \<lparr>cores = replicate (unat n) [], running = replicate (unat n) True, next_core = 0, next_id = 0,
                 broken = {}, sys_policy = pol\<rparr>
      else None)"

definition with_cores_idle :: "usize \<Rightarrow> idle_strategy \<Rightarrow> ('s, 'm) system option" where
  "with_cores_idle n strategy = with_policy n (with_idle strategy policy_default)"

definition with_cores :: "usize \<Rightarrow> ('s, 'm) system option" where
  "with_cores n = with_cores_idle n idle_default"

definition num_cores :: "('s, 'm) system \<Rightarrow> usize" where
  "num_cores s = of_nat (length (cores s))"

text \<open>
  \<open>install\<close>; \<open>slot_bytes\<close> is the size of a slot of the mailbox queue, which \<open>channel\<close> may refuse to
  allocate.
\<close>

definition install ::
  "nat \<Rightarrow> usize \<Rightarrow> usize \<Rightarrow> 's \<Rightarrow> ('s, 'm) factory option \<Rightarrow> restart_policy \<Rightarrow> histogram option \<Rightarrow>
   ('s, 'm) system \<Rightarrow> 'm world \<Rightarrow> ('s, 'm) spawned" where
  "install slot_bytes core mailbox a fac rp hist s w =
     (if unat core < length (cores s)
      then (case channel slot_bytes mailbox of
              None \<Rightarrow> None
            | Some q \<Rightarrow>
                let i = next_id s;
                    c = \<lparr>actor = a, rx = i, factory = fac, cell_policy = rp, restarts = restart_state_default,
                         metrics = hist\<rparr>
                in if running s ! unat core
                   then Some (\<lparr>ref_tx = i, ref_metrics = (hist \<noteq> None), ref_core = core\<rparr>,
                              s\<lparr>cores := (cores s)[unat core := cores s ! unat core @ [Add c]], next_id := Suc i,
                                broken := (if length (buffer q) < 2 then insert i (broken s) else broken s)\<rparr>,
                              w\<lparr>mail := (mail w)(i := queue_abs q), posted := (posted w)(i := [])\<rparr>)
                   else None)
      else None)"

definition spawn_on_with :: "nat \<Rightarrow> usize \<Rightarrow> 's \<Rightarrow> usize \<Rightarrow> ('s, 'm) system \<Rightarrow> 'm world \<Rightarrow> ('s, 'm) spawned" where
  "spawn_on_with slot_bytes core a mailbox s w = install slot_bytes core mailbox a None Never None s w"

definition spawn_on :: "nat \<Rightarrow> usize \<Rightarrow> 's \<Rightarrow> ('s, 'm) system \<Rightarrow> 'm world \<Rightarrow> ('s, 'm) spawned" where
  "spawn_on slot_bytes core a s w = spawn_on_with slot_bytes core a DEFAULT_MAILBOX_CAPACITY s w"

text \<open>\<open>self.next.fetch_add(1) % self.cores.len()\<close>\<close>

definition pick_core :: "('s, 'm) system \<Rightarrow> usize \<times> ('s, 'm) system" where
  "pick_core s = (next_core s mod num_cores s, s\<lparr>next_core := next_core s + 1\<rparr>)"

definition spawn :: "nat \<Rightarrow> 's \<Rightarrow> ('s, 'm) system \<Rightarrow> 'm world \<Rightarrow> ('s, 'm) spawned" where
  "spawn slot_bytes a s w = (case pick_core s of (core, s') \<Rightarrow> spawn_on slot_bytes core a s' w)"

definition spawn_on_supervised_with ::
  "nat \<Rightarrow> usize \<Rightarrow> ('s, 'm) factory \<Rightarrow> usize \<Rightarrow> ('s, 'm) system \<Rightarrow> 'm world \<Rightarrow> ('s, 'm) spawned" where
  "spawn_on_supervised_with slot_bytes core mk mailbox s w =
     (case mk w of
        (None, w') \<Rightarrow> None
      | (Some a, w') \<Rightarrow> install slot_bytes core mailbox a (Some mk) default_supervised None s w')"

definition spawn_on_supervised ::
  "nat \<Rightarrow> usize \<Rightarrow> ('s, 'm) factory \<Rightarrow> ('s, 'm) system \<Rightarrow> 'm world \<Rightarrow> ('s, 'm) spawned" where
  "spawn_on_supervised slot_bytes core mk s w =
     spawn_on_supervised_with slot_bytes core mk DEFAULT_MAILBOX_CAPACITY s w"

text \<open>\<open>Drop for System\<close> sends each core a shutdown (a failed send is ignored) and joins the threads.\<close>

definition system_drop :: "('s, 'm) system \<Rightarrow> ('s, 'm) system" where
  "system_drop s = s\<lparr>cores := map2 (\<lambda>q r. if r then q @ [Shutdown] else q) (cores s) (running s)\<rparr>"

subsection \<open>SpawnBuilder\<close>

record ('s, 'm) spawn_builder =
  b_make :: "('s, 'm) factory"
  b_core :: "usize option"
  b_mailbox :: usize
  b_supervised :: bool
  b_policy :: "restart_policy option"
  b_instrumented :: bool

definition build :: "('s, 'm) factory \<Rightarrow> ('s, 'm) spawn_builder" where
  "build mk = \<lparr>b_make = mk, b_core = None, b_mailbox = DEFAULT_MAILBOX_CAPACITY, b_supervised = False,
     b_policy = None, b_instrumented = False\<rparr>"

definition set_core :: "usize \<Rightarrow> ('s, 'm) spawn_builder \<Rightarrow> ('s, 'm) spawn_builder" where
  "set_core core b = b\<lparr>b_core := Some core\<rparr>"

definition set_mailbox :: "usize \<Rightarrow> ('s, 'm) spawn_builder \<Rightarrow> ('s, 'm) spawn_builder" where
  "set_mailbox capacity b = b\<lparr>b_mailbox := capacity\<rparr>"

definition supervised :: "('s, 'm) spawn_builder \<Rightarrow> ('s, 'm) spawn_builder" where
  "supervised b = b\<lparr>b_supervised := True\<rparr>"

definition set_restart_policy :: "restart_policy \<Rightarrow> ('s, 'm) spawn_builder \<Rightarrow> ('s, 'm) spawn_builder" where
  "set_restart_policy rp b = b\<lparr>b_supervised := True, b_policy := Some rp\<rparr>"

definition instrumented :: "('s, 'm) spawn_builder \<Rightarrow> ('s, 'm) spawn_builder" where
  "instrumented b = b\<lparr>b_instrumented := True\<rparr>"

definition builder_spawn :: "nat \<Rightarrow> ('s, 'm) spawn_builder \<Rightarrow> ('s, 'm) system \<Rightarrow> 'm world \<Rightarrow> ('s, 'm) spawned" where
  "builder_spawn slot_bytes b s w =
     (case (case b_core b of Some core \<Rightarrow> (core, s) | None \<Rightarrow> pick_core s) of
        (core, s') \<Rightarrow>
          let hist = (if b_instrumented b then Some histogram_new else None)
          in (case b_make b w of
                (None, w') \<Rightarrow> None
              | (Some a, w') \<Rightarrow>
                  (case (if b_supervised b
                         then (Some (b_make b), case b_policy b of Some rp \<Rightarrow> rp | None \<Rightarrow> default_supervised)
                         else (None, Never)) of
                     (fac, rp) \<Rightarrow> install slot_bytes core (b_mailbox b) a fac rp hist s' w')))"

subsection \<open>ActorRef\<close>

text \<open>\<open>current\<close> is the core of the calling thread, \<open>None\<close> outside the runtime.\<close>

definition would_deadlock_calling_core :: "usize option \<Rightarrow> actor_ref \<Rightarrow> bool" where
  "would_deadlock_calling_core current r \<longleftrightarrow> current = Some (ref_core r)"

definition ref_try_send :: "actor_ref \<Rightarrow> 'm \<Rightarrow> 'm world \<Rightarrow> 'm send_result \<times> 'm world" where
  "ref_try_send r m w = post (ref_tx r) m w"

text \<open>
  The loop of \<open>send_blocking\<close>. \<open>env i\<close> is what other threads do to the world before its attempt \<open>i\<close>;
  \<open>None\<close>: it spins for ever.
\<close>

partial_function (option) send_loop ::
  "(nat \<Rightarrow> 'm world \<Rightarrow> 'm world) \<Rightarrow> actor_ref \<Rightarrow> nat \<Rightarrow> 'm world \<Rightarrow> 'm \<Rightarrow>
   ((unit, 'm send_error) result \<times> 'm world) option" where
  "send_loop env r i w item =
     (case ref_try_send r item (env i w) of
        (Ok _, w') \<Rightarrow> Some (Ok (), w')
      | (Err (Full returned), w') \<Rightarrow> send_loop env r (Suc i) w' returned
      | (Err (Closed returned), w') \<Rightarrow> Some (Err (SendClosed returned), w'))"

text \<open>The assertion comes first: \<open>Inl ()\<close> is its panic.\<close>

definition send_blocking ::
  "(nat \<Rightarrow> 'm world \<Rightarrow> 'm world) \<Rightarrow> usize option \<Rightarrow> actor_ref \<Rightarrow> 'm \<Rightarrow> 'm world \<Rightarrow>
   (unit + (unit, 'm send_error) result \<times> 'm world) option" where
  "send_blocking env current r m w =
     (if would_deadlock_calling_core current r then Some (Inl ())
      else map_option Inr (send_loop env r 0 w m))"

definition ref_clone :: "actor_ref \<Rightarrow> 'm world \<Rightarrow> actor_ref \<times> 'm world" where
  "ref_clone r w = (r, w\<lparr>mail := (mail w)(ref_tx r := mb_clone (mail w (ref_tx r)))\<rparr>)"

text \<open>\<open>latency\<close>, given what the shared histogram holds.\<close>

definition ref_latency :: "actor_ref \<Rightarrow> histogram \<Rightarrow> snapshot option" where
  "ref_latency r h = (if ref_metrics r then Some (take_snapshot h) else None)"

definition mailbox_depth :: "'m queue \<Rightarrow> usize" where
  "mailbox_depth q = depth q"

definition total_sent :: "'m queue \<Rightarrow> usize" where
  "total_sent q = total_enqueued q"

definition total_processed :: "'m queue \<Rightarrow> usize" where
  "total_processed q = total_dequeued q"

subsection \<open>Blocking send\<close>

text \<open>The world as attempt \<open>k\<close> sees it when every attempt before found the mailbox full.\<close>

primrec stage :: "(nat \<Rightarrow> 'm world \<Rightarrow> 'm world) \<Rightarrow> nat \<Rightarrow> nat \<Rightarrow> 'm world \<Rightarrow> 'm world" where
  "stage env i 0 w = env i w"
| "stage env i (Suc k) w = stage env (Suc i) k (env i w)"

definition ready :: "actor_ref \<Rightarrow> 'm world \<Rightarrow> bool" where
  "ready r w \<longleftrightarrow> \<not> receiver_alive (mail w (ref_tx r)) \<or>
     length (items (mail w (ref_tx r))) < mb_cap (mail w (ref_tx r))"

definition put :: "actor_ref \<Rightarrow> 'm \<Rightarrow> 'm world \<Rightarrow> 'm world" where
  "put r m w = w\<lparr>mail := (mail w)(ref_tx r := (mail w (ref_tx r))\<lparr>items := items (mail w (ref_tx r)) @ [m]\<rparr>),
     posted := (posted w)(ref_tx r := posted w (ref_tx r) @ [m])\<rparr>"

lemma ref_try_send_cases:
  "ref_try_send r m w =
     (if \<not> receiver_alive (mail w (ref_tx r)) then (Err (Closed m), w)
      else if ready r w then (Ok (), put r m w) else (Err (Full m), w))"
  by (auto simp: ref_try_send_def post_def mb_try_send_def ready_def put_def)

lemma send_loop_ready:
  assumes "ready r (stage env i k w)" "\<forall>j<k. \<not> ready r (stage env i j w)"
  shows "send_loop env r i w m =
    (let v = stage env i k w
     in Some (if receiver_alive (mail v (ref_tx r)) then (Ok (), put r m v) else (Err (SendClosed m), v)))"
  using assms
proof (induction k arbitrary: i w)
  case 0
  then show ?case by (subst send_loop.simps) (simp add: ref_try_send_cases)
next
  case (Suc k)
  have "\<not> ready r (env i w)" using Suc.prems(2) by (auto dest: spec [of _ 0])
  moreover have "receiver_alive (mail (env i w) (ref_tx r))" using calculation by (simp add: ready_def)
  moreover have "\<forall>j<k. \<not> ready r (stage env (Suc i) j (env i w))" using Suc.prems(2) by auto
  ultimately show ?case
    using Suc.IH [of "Suc i" "env i w"] Suc.prems(1)
    by (subst send_loop.simps) (simp add: ref_try_send_cases)
qed

lemma send_loop_returns:
  assumes "send_loop env r i w m = Some y"
  shows "\<exists>k. ready r (stage env i k w)"
proof (rule send_loop.raw_induct [where P = "\<lambda>env r i w m y. \<exists>k. ready r (stage env i k w)", OF _ assms])
  fix loop :: "(nat \<Rightarrow> 'a world \<Rightarrow> 'a world) \<Rightarrow> actor_ref \<Rightarrow> nat \<Rightarrow> 'a world \<Rightarrow> 'a \<Rightarrow>
      ((unit, 'a send_error) result \<times> 'a world) option" and env r i w m y
  assume IH: "\<And>env r i w m y. loop env r i w m = Some y \<Longrightarrow> \<exists>k. ready r (stage env i k w)"
    and eq: "(case ref_try_send r m (env i w) of
        (Ok _, w') \<Rightarrow> Some (Ok (), w')
      | (Err (Full returned), w') \<Rightarrow> loop env r (Suc i) w' returned
      | (Err (Closed returned), w') \<Rightarrow> Some (Err (SendClosed returned), w')) = Some y"
  show "\<exists>k. ready r (stage env i k w)"
  proof (cases "ready r (env i w)")
    case True
    then show ?thesis by (intro exI [of _ 0]) simp
  next
    case False
    then have "receiver_alive (mail (env i w) (ref_tx r))" by (simp add: ready_def)
    then have "loop env r (Suc i) (env i w) m = Some y"
      using eq False by (simp add: ref_try_send_cases)
    then obtain k where "ready r (stage env (Suc i) k (env i w))" using IH by blast
    then show ?thesis by (intro exI [of _ "Suc k"]) simp
  qed
qed

text \<open>
  C21: \<open>send_blocking\<close> does exactly this, whatever other threads do between its attempts: on a core thread that
  hosts the target it panics at once; otherwise it returns at the first attempt at which the mailbox
  has room or the actor is gone, with the message appended once at the end, or with the message handed
  back in \<open>Closed\<close> and nothing changed; and it spins for ever exactly when no attempt is like that.
\<close>

theorem send_blocking_outcome:
  "send_blocking env current r m w =
     (if current = Some (ref_core r) then Some (Inl ())
      else if \<exists>k. ready r (stage env 0 k w)
      then let v = stage env 0 (LEAST k. ready r (stage env 0 k w)) w
           in Some (Inr (if receiver_alive (mail v (ref_tx r)) then (Ok (), put r m v) else (Err (SendClosed m), v)))
      else None)"
proof (cases "\<exists>k. ready r (stage env 0 k w)")
  case True
  let ?k = "LEAST k. ready r (stage env 0 k w)"
  have "ready r (stage env 0 ?k w)" using True by (rule LeastI_ex)
  moreover have "\<forall>j<?k. \<not> ready r (stage env 0 j w)" using not_less_Least by blast
  ultimately show ?thesis
    using True by (simp add: send_blocking_def would_deadlock_calling_core_def send_loop_ready Let_def)
next
  case False
  then have "send_loop env r 0 w m = None" using send_loop_returns by fastforce
  then show ?thesis using False by (simp add: send_blocking_def would_deadlock_calling_core_def)
qed

subsection \<open>The builder and the direct calls\<close>

text \<open>
  The spawn builder's defaults are a plain \<open>spawn\<close>, and its knobs are the direct calls: with a core and a
  capacity it is \<open>spawn_on_with\<close>, and supervised as well it is \<open>spawn_on_supervised_with\<close>. An explicit
  restart policy implies supervision, whatever the order in which the knobs are turned.
\<close>

theorem builder_equivalences:
  "builder_spawn sb (build mk) s w = (case mk w of (None, _) \<Rightarrow> None | (Some a, w') \<Rightarrow> spawn sb a s w') \<and>
   builder_spawn sb (set_mailbox n (set_core c (build mk))) s w =
     (case mk w of (None, _) \<Rightarrow> None | (Some a, w') \<Rightarrow> spawn_on_with sb c a n s w') \<and>
   builder_spawn sb (supervised (set_mailbox n (set_core c (build mk)))) s w = spawn_on_supervised_with sb c mk n s w \<and>
   builder_spawn sb (set_restart_policy rp b) s w = builder_spawn sb (supervised (set_restart_policy rp b)) s w \<and>
   builder_spawn sb (set_restart_policy rp (supervised b)) s w = builder_spawn sb (set_restart_policy rp b) s w"
  by (auto simp: builder_spawn_def build_def set_mailbox_def set_core_def supervised_def set_restart_policy_def
      spawn_def spawn_on_def spawn_on_with_def spawn_on_supervised_with_def split: prod.split option.split)

subsection \<open>Round-robin placement\<close>

fun spawn_all :: "nat \<Rightarrow> 's list \<Rightarrow> ('s, 'm) system \<Rightarrow> 'm world \<Rightarrow> (actor_ref list \<times> ('s, 'm) system \<times> 'm world) option" where
  "spawn_all sb [] s w = Some ([], s, w)"
| "spawn_all sb (a # as) s w =
     (case spawn sb a s w of
        None \<Rightarrow> None
      | Some (r, s', w') \<Rightarrow> map_option (map_prod ((#) r) id) (spawn_all sb as s' w'))"

definition load :: "('s, 'm) system \<Rightarrow> nat \<Rightarrow> nat" where
  "load s c = length (adds (cores s ! c))"

text \<open>All cores run, and \<open>k\<close> actors have been placed round-robin.\<close>

definition balanced :: "nat \<Rightarrow> ('s, 'm) system \<Rightarrow> nat \<Rightarrow> bool" where
  "balanced n s k \<longleftrightarrow> 0 < n \<and> n < 2 ^ 64 \<and> length (cores s) = n \<and> running s = replicate n True \<and> next_core s = of_nat k \<and>
     (\<forall>c<n. load s c = k div n + (if c < k mod n then 1 else 0))"

lemma adds_append [simp]: "adds (xs @ ys) = adds xs @ adds ys"
  by (induction xs rule: adds.induct) simp_all

lemma default_channel: "1024 * sb < 2 ^ 63 \<Longrightarrow> channel sb DEFAULT_MAILBOX_CAPACITY \<noteq> None"
  by (simp add: channel_def DEFAULT_MAILBOX_CAPACITY_def next_power_of_two_def npot_from.simps)

lemma spawn_balanced:
  assumes "balanced n s k" "k < 2 ^ 64" "1024 * sb < 2 ^ 63"
  shows "\<exists>r s' w'. spawn sb a s w = Some (r, s', w') \<and> unat (ref_core r) = k mod n \<and> balanced n s' (Suc k)"
proof -
  let ?c = "next_core s mod num_cores s"
  have n: "0 < n" "n < 2 ^ 64" "length (cores s) = n" "running s = replicate n True" "next_core s = of_nat k"
    using assms(1) by (simp_all add: balanced_def)
  have c: "unat ?c = k mod n" using n assms(2) by (simp add: unat_mod_distrib num_cores_def unat_of_nat)
  then have lt: "unat ?c < n" using n(1) by simp
  obtain q where q: "channel sb DEFAULT_MAILBOX_CAPACITY = Some (q :: 'b queue)" using default_channel [OF assms(3)] by blast
  define cell :: "('a, 'b) cell" where "cell = \<lparr>actor = a, rx = next_id s, factory = None, cell_policy = Never, restarts = restart_state_default,
    metrics = None\<rparr>"
  let ?s = "s\<lparr>next_core := next_core s + 1, cores := (cores s)[unat ?c := cores s ! unat ?c @ [Add cell]], next_id := Suc (next_id s),
    broken := (if length (buffer q) < 2 then insert (next_id s) (broken s) else broken s)\<rparr>"
  let ?r = "\<lparr>ref_tx = next_id s, ref_metrics = False, ref_core = ?c\<rparr>"
  have "spawn sb a s w = Some (?r, ?s, w\<lparr>mail := (mail w)(next_id s := queue_abs q), posted := (posted w)(next_id s := [])\<rparr>)"
    using q lt n by (simp add: spawn_def pick_core_def spawn_on_def spawn_on_with_def install_def cell_def Let_def)
  moreover have "load ?s d = Suc k div n + (if d < Suc k mod n then 1 else 0)" if d: "d < n" for d
  proof -
    have "load s d = k div n + (if d < k mod n then 1 else 0)" using assms(1) d by (simp add: balanced_def)
    moreover have "load ?s d = load s d + (if d = k mod n then 1 else 0)"
      using n(3) d c by (auto simp: load_def)
    moreover have "k mod n < n" using n(1) by simp
    ultimately show ?thesis using d by (auto simp: div_Suc mod_Suc)
  qed
  then have "balanced n ?s (Suc k)" using n by (simp add: balanced_def)
  ultimately show ?thesis using c by force
qed

lemma spawn_all_balanced:
  "balanced n s k \<Longrightarrow> k + length as \<le> 2 ^ 64 \<Longrightarrow> 1024 * sb < 2 ^ 63 \<Longrightarrow>
     \<exists>refs s' w'. spawn_all sb as s w = Some (refs, s', w') \<and>
       map (\<lambda>r. unat (ref_core r)) refs = map (\<lambda>i. i mod n) [k..<k + length as] \<and> balanced n s' (k + length as)"
proof (induction as arbitrary: s w k)
  case (Cons a as)
  obtain r s1 w1 where r: "spawn sb a s w = Some (r, s1, w1)" "unat (ref_core r) = k mod n" "balanced n s1 (Suc k)"
    using spawn_balanced [OF Cons.prems(1), of sb a w] Cons.prems by auto
  obtain refs s2 w2 where "spawn_all sb as s1 w1 = Some (refs, s2, w2)"
      "map (\<lambda>r. unat (ref_core r)) refs = map (\<lambda>i. i mod n) [Suc k..<Suc k + length as]" "balanced n s2 (Suc k + length as)"
    using Cons.IH [OF r(3) _ Cons.prems(3), of w1] Cons.prems(2) by (auto simp del: upt_Suc)
  moreover have "[k..<k + length (a # as)] = k # [Suc k..<Suc k + length as]" by (simp add: upt_conv_Cons del: upt_Suc)
  ultimately show ?case using r by (simp del: upt_Suc)
qed simp

text \<open>
  \<open>spawn\<close> places actors round-robin: on a new system of \<open>n\<close> cores the \<open>i\<close>-th actor goes to core \<open>i mod n\<close>, none of
  the calls fails while the mailboxes can be allocated, and the numbers of actors on any two cores differ by at most one.
\<close>

theorem spawn_round_robin:
  assumes "with_policy n pol = Some s0" "length as \<le> 2 ^ 64" "1024 * sb < 2 ^ 63"
  shows "\<exists>refs s w'. spawn_all sb as s0 w = Some (refs, s, w') \<and>
    map (\<lambda>r. unat (ref_core r)) refs = map (\<lambda>i. i mod unat n) [0..<length as] \<and>
    (\<forall>c<unat n. \<forall>d<unat n. load s c \<le> load s d + 1)"
proof -
  have s0: "s0 = \<lparr>cores = replicate (unat n) [], running = replicate (unat n) True, next_core = 0, next_id = 0, broken = {}, sys_policy = pol\<rparr>"
      "1 \<le> n"
    using assms(1) by (auto simp: with_policy_def split: if_splits)
  have "0 < unat n" "unat n < 2 ^ 64" using s0(2) unsigned_less [of n] by (auto simp: unat_gt_0)
  then have "balanced (unat n) s0 0" by (simp add: balanced_def s0(1) load_def)
  then obtain refs s w' where "spawn_all sb as s0 w = Some (refs, s, w')"
      "map (\<lambda>r. unat (ref_core r)) refs = map (\<lambda>i. i mod unat n) [0..<length as]" "balanced (unat n) s (length as)"
    using spawn_all_balanced [of "unat n" s0 0 as sb w] assms(2,3) by auto
  then show ?thesis by (auto simp: balanced_def)
qed

theorem spawn_round_robin_witness:
  "\<exists>refs s w'. spawn_all 64 [7, 8, 9 :: nat]
       (\<lparr>cores = [[], []], running = [True, True], next_core = 0, next_id = 0, broken = {}, sys_policy = policy_default\<rparr>) demo_world =
       Some (refs, s, w') \<and> map (\<lambda>r. unat (ref_core r)) refs = [0, 1, 0] \<and> load s 0 \<le> load s 1 + 1"
proof -
  have "replicate 2 ([] :: (nat, nat) control list) = [[], []]" "replicate 2 True = [True, True]"
    by (simp_all add: numeral_2_eq_2)
  then have s0: "with_policy 2 policy_default =
      Some (\<lparr>cores = [[], []], running = [True, True], next_core = 0, next_id = 0, broken = {}, sys_policy = policy_default\<rparr> :: (nat, nat) system)"
    by (simp add: with_policy_def)
  from spawn_round_robin [OF s0, of "[7, 8, 9]" 64 demo_world] show ?thesis by (auto simp: upt_rec)
qed

subsection \<open>From the spawn to the core\<close>

text \<open>Any sequence of placements, other threads acting in between.\<close>

datatype ('s, 'm) spawn_call =
    SpawnOnWith usize 's usize
  | Spawn 's
  | SpawnOnSupervisedWith usize "('s, 'm) factory" usize
  | BuilderSpawn "('s, 'm) spawn_builder"

fun do_call :: "nat \<Rightarrow> ('s, 'm) spawn_call \<Rightarrow> ('s, 'm) system \<Rightarrow> 'm world \<Rightarrow> ('s, 'm) spawned" where
  "do_call sb (SpawnOnWith c a n) s w = spawn_on_with sb c a n s w"
| "do_call sb (Spawn a) s w = spawn sb a s w"
| "do_call sb (SpawnOnSupervisedWith c mk n) s w = spawn_on_supervised_with sb c mk n s w"
| "do_call sb (BuilderSpawn b) s w = builder_spawn sb b s w"

fun do_calls ::
  "nat \<Rightarrow> ('m world \<Rightarrow> 'm world) \<Rightarrow> ('s, 'm) spawn_call list \<Rightarrow> ('s, 'm) system \<Rightarrow> 'm world \<Rightarrow>
   (actor_ref list \<times> ('s, 'm) system \<times> 'm world) option" where
  "do_calls sb env [] s w = Some ([], s, env w)"
| "do_calls sb env (x # xs) s w =
     (case do_call sb x s (env w) of
        None \<Rightarrow> None
      | Some (r, s', w') \<Rightarrow> map_option (map_prod ((#) r) id) (do_calls sb env xs s' w'))"

text \<open>A user's factory only sends; it is the factory of the cell when there is one.\<close>

fun call_ok :: "('s, 'm) spawn_call \<Rightarrow> bool" where
  "call_ok (SpawnOnSupervisedWith c mk n) = (\<forall>w. sends w (snd (mk w)))"
| "call_ok (BuilderSpawn b) = (\<forall>w. sends w (snd (b_make b w)))"
| "call_ok _ = True"

definition all_cells :: "('s, 'm) system \<Rightarrow> ('s, 'm) cell list" where
  "all_cells s = concat (map adds (cores s))"

definition system_ok :: "('s, 'm) system \<Rightarrow> 'm world \<Rightarrow> bool" where
  "system_ok s w \<longleftrightarrow> length (running s) = length (cores s) \<and> distinct (map rx (all_cells s)) \<and>
     (\<forall>c\<in>set (all_cells s). rx c < next_id s \<and> cell_ok c) \<and> (\<forall>i. trace w i = []) \<and> (\<forall>i. posted w i = items (mail w i)) \<and>
     (\<forall>q\<in>set (cores s). Shutdown \<notin> set q)"

lemma all_cells_split:
  assumes "k < length (cores s)"
  shows "all_cells s = concat (map adds (take k (cores s))) @ adds (cores s ! k) @ concat (map adds (drop (Suc k) (cores s)))"
  unfolding all_cells_def
  by (subst id_take_nth_drop [OF assms]) simp

lemma mset_all_cells_add:
  assumes "k < length (cores s)"
  shows "mset (concat (map adds ((cores s)[k := cores s ! k @ [Add c]]))) = add_mset c (mset (all_cells s))"
  using assms by (simp add: all_cells_split [OF assms] upd_conv_take_nth_drop)

lemma channel_empty: "channel sb n = Some q \<Longrightarrow> items (queue_abs q) = []"
  by (auto simp: channel_def queue_abs_def qlen_def Let_def split: if_splits)

lemma install_ok:
  assumes "system_ok s w" "install sb core n a fac rp h s w = Some (r, s', w')"
    and "case fac of None \<Rightarrow> True | Some mk \<Rightarrow> \<forall>v. sends v (snd (mk v))"
  shows "system_ok s' w' \<and> ref_tx r = next_id s \<and> next_id s' = Suc (next_id s) \<and> running s' = running s \<and>
    length (cores s') = length (cores s)"
proof -
  define c where "c = \<lparr>actor = a, rx = next_id s, factory = fac, cell_policy = rp, restarts = restart_state_default, metrics = h\<rparr>"
  have k: "unat core < length (cores s)"
    and s': "cores s' = (cores s)[unat core := cores s ! unat core @ [Add c]]" "next_id s' = Suc (next_id s)" "running s' = running s"
    and r: "ref_tx r = next_id s" "trace w' = trace w"
    using assms(2) by (auto simp: install_def c_def Let_def split: if_splits option.splits)
  have p: "\<forall>i. posted w' i = items (mail w' i)"
    using assms(1,2) by (auto simp: install_def system_ok_def Let_def split: if_splits option.splits dest: channel_empty)
  have m: "mset (all_cells s') = add_mset c (mset (all_cells s))"
    using mset_all_cells_add [OF k, of c] by (simp add: all_cells_def s')
  have "cell_ok c" using assms(3) by (simp add: c_def cell_ok_def)
  moreover have "set (all_cells s') = insert c (set (all_cells s))"
    using m by (metis set_mset_add_mset_insert set_mset_mset)
  moreover have "distinct (map rx (all_cells s'))"
  proof -
    have "mset (map rx (all_cells s')) = mset (map rx (c # all_cells s))" using m by (metis mset.simps(2) mset_map)
    then have "distinct (map rx (all_cells s')) = distinct (map rx (c # all_cells s))" by (rule mset_eq_imp_distinct_iff)
    then show ?thesis using assms(1) by (auto simp: system_ok_def c_def)
  qed
  moreover have "\<forall>q\<in>set (cores s'). Shutdown \<notin> set q"
    using assms(1) k set_update_subset_insert [of "cores s" "unat core" "cores s ! unat core @ [Add c]"]
    by (fastforce simp: system_ok_def s')
  ultimately show ?thesis using assms(1) r p unfolding system_ok_def by (auto simp: s' c_def)
qed

lemma sends_trace: "sends w w' \<Longrightarrow> trace w' = trace w"
  by (simp add: sends_def)

lemma system_ok_sends:
  assumes "system_ok s w" "sends w w'"
  shows "system_ok s w'"
proof -
  have "posted w' i = items (mail w' i)" for i
    using assms unfolding system_ok_def sends_def by metis
  then show ?thesis using assms by (simp add: system_ok_def sends_trace)
qed

lemma system_ok_pick: "system_ok s w \<Longrightarrow> system_ok (snd (pick_core s)) w"
  by (simp add: system_ok_def pick_core_def all_cells_def)

lemma pick_core_fields [simp]:
  "next_id (snd (pick_core s)) = next_id s" "running (snd (pick_core s)) = running s" "cores (snd (pick_core s)) = cores s"
  by (simp_all add: pick_core_def)

lemma do_call_ok:
  assumes "system_ok s w" "do_call sb x s w = Some (r, s', w')" "call_ok x"
  shows "system_ok s' w' \<and> ref_tx r = next_id s \<and> next_id s' = Suc (next_id s) \<and> running s' = running s \<and>
    length (cores s') = length (cores s)"
proof (cases x)
  case (SpawnOnWith c a n)
  then show ?thesis using assms by (intro install_ok) (auto simp: spawn_on_with_def)
next
  case (Spawn a)
  then have "install sb (fst (pick_core s)) DEFAULT_MAILBOX_CAPACITY a None Never None (snd (pick_core s)) w = Some (r, s', w')"
    using assms(2) by (auto simp: spawn_def spawn_on_def spawn_on_with_def split: prod.splits)
  from install_ok [OF system_ok_pick [OF assms(1)] this] show ?thesis by simp
next
  case (SpawnOnSupervisedWith c mk n)
  then obtain a v where "mk w = (Some a, v)" "install sb c n a (Some mk) default_supervised None s v = Some (r, s', w')"
    using assms(2) by (auto simp: spawn_on_supervised_with_def split: prod.splits option.splits)
  moreover have mk: "\<forall>u. sends u (snd (mk u))" using assms(3) SpawnOnSupervisedWith by simp
  moreover have "system_ok s v" using system_ok_sends [OF assms(1), of v] mk calculation(1) by (metis snd_conv)
  ultimately show ?thesis using install_ok [of s v sb c n a "Some mk"] by simp
next
  case (BuilderSpawn b)
  have mk: "\<forall>u. sends u (snd (b_make b u))" using assms(3) BuilderSpawn by simp
  obtain core s1 where cs: "(case b_core b of Some core \<Rightarrow> (core, s) | None \<Rightarrow> pick_core s) = (core, s1)" by fastforce
  then have s1: "s1 = s \<or> s1 = snd (pick_core s)" by (auto split: option.splits)
  obtain a v fac rp h where i: "b_make b w = (Some a, v)" "install sb core (b_mailbox b) a fac rp h s1 v = Some (r, s', w')"
      "fac = None \<or> fac = Some (b_make b)"
    using assms(2) BuilderSpawn cs by (auto simp: builder_spawn_def Let_def split: prod.splits option.splits if_splits)
  have "system_ok s v" using system_ok_sends [OF assms(1), of v] mk i(1) by (metis snd_conv)
  then have "system_ok s1 v" using s1 system_ok_pick by blast
  from install_ok [OF this i(2)] i(3) mk s1 show ?thesis by auto
qed

lemma do_calls_ok:
  assumes "\<And>w. sends w (env w)"
  shows "system_ok s w \<Longrightarrow> do_calls sb env xs s w = Some (refs, s', w') \<Longrightarrow> \<forall>x\<in>set xs. call_ok x \<Longrightarrow>
    system_ok s' w' \<and> map ref_tx refs = [next_id s..<next_id s + length xs] \<and> running s' = running s \<and>
    length (cores s') = length (cores s)"
proof (induction xs arbitrary: s w refs)
  case Nil
  then show ?case using system_ok_sends [OF Nil(1) assms] by simp
next
  case (Cons x xs)
  obtain r s1 w1 rs where x: "do_call sb x s (env w) = Some (r, s1, w1)" "do_calls sb env xs s1 w1 = Some (rs, s', w')"
      "refs = r # rs"
    using Cons.prems(2) by (auto split: option.splits)
  have one: "system_ok s1 w1 \<and> ref_tx r = next_id s \<and> next_id s1 = Suc (next_id s) \<and> running s1 = running s \<and>
      length (cores s1) = length (cores s)"
    using do_call_ok [OF system_ok_sends [OF Cons.prems(1) assms] x(1)] Cons.prems(3) by simp
  moreover have "[next_id s..<next_id s + length (x # xs)] = next_id s # [Suc (next_id s)..<Suc (next_id s) + length xs]"
    by (simp add: upt_conv_Cons del: upt_Suc)
  ultimately show ?case using Cons.IH [OF _ x(2)] Cons.prems(3) x(3) by (simp del: upt_Suc)
qed

lemma adds_concat: "all_adds runs = adds (concat (map fst runs))"
  by (induction runs) (simp_all add: all_adds_def)

lemma do_control_shutdown:
  "do_control ops cs disc k w = (b, k', w') \<Longrightarrow> shutting_down k' \<longleftrightarrow> shutting_down k \<or> Shutdown \<in> set cs \<or> disc"
proof (induction ops cs disc k w arbitrary: b rule: do_control.induct)
  case (2 ops c cs disc k w)
  obtain ok c' w1 where st: "cell_start ops c w = (ok, c', w1)" by (metis prod_cases3)
  let ?k = "if ok then k\<lparr>actors := actors k @ [c']\<rparr> else k" and ?w = "if ok then w1 else cell_drop c' w1"
  obtain b' where "do_control ops cs disc ?k ?w = (b', k', w')"
    using 2(2) st by (auto split: prod.splits)
  from 2(1) [OF st [symmetric] refl this] show ?case by auto
qed (auto split: if_splits)

lemma core_loop_ends:
  assumes "core_loop env ops pol runs k w = Some r" "Shutdown \<in> set (concat (map fst runs))"
  shows "\<exists>w'. r = Inr w'"
  using assms
proof (induction runs arbitrary: k w)
  case (Cons x runs)
  obtain cs disc where x: "x = (cs, disc)" by fastforce
  obtain b k1 w1 where c: "do_control ops cs disc k w = (b, k1, w1)" by (metis prod_cases3)
  show ?case
  proof (cases "Shutdown \<in> set cs")
    case True
    then have "shutting_down k1" using do_control_shutdown [OF c] by simp
    then show ?thesis
      using Cons.prems(1) x c by (auto simp: core_iteration_def split: option.splits prod.splits)
  next
    case False
    then have "Shutdown \<in> set (concat (map fst runs))" using Cons.prems(2) x by auto
    then show ?thesis using Cons.IH Cons.prems(1) x by (auto split: option.splits sum.splits)
  qed
qed simp

lemma evolves_started: "evolves w w' \<Longrightarrow> trace w i \<noteq> [] \<Longrightarrow> trace w' i \<noteq> []"
  unfolding evolves_def by (metis append_is_Nil_conv)

lemma do_control_starts:
  assumes "user_ok env ops"
  shows "do_control ops cs disc k w = (b, k', w') \<Longrightarrow> evolves w w' \<and> (\<forall>c\<in>set (adds cs). trace w' (rx c) \<noteq> [])"
proof (induction cs arbitrary: k w b)
  case (Cons x cs)
  show ?case
  proof (cases x)
    case (Add c)
    obtain ok c' w1 where st: "cell_start ops c w = (ok, c', w1)" by (metis prod_cases3)
    let ?k = "if ok then k\<lparr>actors := actors k @ [c']\<rparr> else k" and ?w = "if ok then w1 else cell_drop c' w1"
    note e = cell_start_spec(2) [OF assms st]
    have "evolves w w1" "trace w1 (rx c) \<noteq> []" using extends_evolves [OF e] extends_trace [OF e] by simp_all
    moreover have "evolves w1 ?w" using extends_evolves [OF extends_drop [of c' w1]] by simp
    ultimately have w: "evolves w ?w" "trace ?w (rx c) \<noteq> []" using evolves_trans evolves_started by blast+
    obtain b' where "do_control ops cs disc ?k ?w = (b', k', w')"
      using Cons.prems Add st by (auto split: prod.splits)
    from Cons.IH [OF this] Add show ?thesis using evolves_trans [OF w(1)] evolves_started [OF _ w(2)] by auto
  next
    case Shutdown
    then show ?thesis using Cons by auto
  qed
qed simp

lemma core_iteration_starts:
  assumes "user_ok env ops" "1 \<le> pol_batch pol" "\<forall>c\<in>set (adds cs). cell_ok c"
    and "life_inv (actors k) w (map rx (adds cs) @ fut)" "core_iteration env ops pol cs disc k w = Some r"
    and "c \<in> set (adds cs)"
  shows "trace (case r of Inl (k', w', a) \<Rightarrow> w' | Inr w' \<Rightarrow> w') (rx c) \<noteq> []"
proof -
  obtain b k1 w1 where c: "do_control ops cs disc k w = (b, k1, w1)" by (metis prod_cases3)
  have started: "trace w1 (rx c) \<noteq> []" using do_control_starts [OF assms(1) c] assms(6) by blast
  have l1: "life_inv (actors k1) w1 fut" using do_control_spec [OF assms(1,3,4) c] by simp
  obtain cells w2 dw where p: "run_pass env ops (pol_batch pol) (actors k1) w1 = (cells, w2, dw)"
    by (metis prod_cases3)
  have "set fut \<inter> rx ` set (actors k1) = {}" using life_inv_fut [OF l1] by blast
  then have l2: "life_inv cells w2 fut" "evolves w1 w2" using run_pass_life [OF assms(1,2) l1 p] by simp_all
  show ?thesis
  proof (cases "shutting_down k1")
    case True
    then obtain w3 where "shut_down env ops cells w2 = Some w3" "r = Inr w3"
      using assms(5) c p by (auto simp: core_iteration_def)
    then show ?thesis
      using shut_down_spec [OF assms(1) l2(1)] evolves_started [OF l2(2) started] evolves_started by auto
  next
    case False
    then have "case r of Inl (k', w', a) \<Rightarrow> w' = w2 | Inr w' \<Rightarrow> False"
      using assms(5) c p by (auto simp: core_iteration_def split: if_splits option.splits)
    then show ?thesis using evolves_started [OF l2(2) started] by (cases r) auto
  qed
qed

text \<open>If the shutdown is the last command, every command before it has been carried out by then.\<close>

lemma core_loop_starts:
  assumes "user_ok env ops" "1 \<le> pol_batch pol"
  shows "\<forall>c\<in>set (all_adds runs). cell_ok c \<Longrightarrow> life_inv (actors k) w (map rx (all_adds runs)) \<Longrightarrow>
    core_loop env ops pol runs k w = Some (Inr w') \<Longrightarrow> concat (map fst runs) = xs @ [Shutdown] \<Longrightarrow> Shutdown \<notin> set xs \<Longrightarrow>
    \<not> shutting_down k \<Longrightarrow> \<forall>x\<in>set runs. \<not> snd x \<Longrightarrow> c \<in> set (adds xs) \<Longrightarrow> trace w' (rx c) \<noteq> []"
proof (induction runs arbitrary: k w xs)
  case (Cons x runs)
  obtain cs where x: "x = (cs, False)" using Cons.prems(7) by (cases x) auto
  obtain r1 where it: "core_iteration env ops pol cs False k w = Some r1"
    using Cons.prems(3) x by (auto split: option.splits)
  have life: "life_inv (actors k) w (map rx (adds cs) @ map rx (all_adds runs))"
    using Cons.prems(2) x by (simp add: all_adds_def)
  have ok: "\<forall>c\<in>set (adds cs). cell_ok c" "\<forall>c\<in>set (all_adds runs). cell_ok c"
    using Cons.prems(1) x by (simp_all add: all_adds_def)
  note starts = core_iteration_starts [OF assms ok(1) life it, of c]
  note run = core_iteration_spec [OF assms ok(1) life it]
  show ?case
  proof (cases r1)
    case (Inr v)
    have "Shutdown \<in> set cs"
      using it Inr do_control_shutdown Cons.prems(6)
      by (auto simp: core_iteration_def split: prod.splits if_splits option.splits) blast
    then obtain ys where "concat (map fst runs) = ys" "cs = xs @ [Shutdown]"
      using Cons.prems(4,5) x by (auto simp: append_eq_append_conv2 append_eq_Cons_conv Cons_eq_append_conv)
    then show ?thesis using starts Inr Cons.prems(3,8) x it by simp
  next
    case (Inl y)
    obtain k' v a where y: "y = (k', v, a)" by (metis prod_cases3)
    have nk: "\<not> shutting_down k'" "Shutdown \<notin> set cs"
      using it Inl y do_control_shutdown
      by (auto simp: core_iteration_def split: prod.splits if_splits option.splits) blast+
    then obtain zs where zs: "xs = cs @ zs" "concat (map fst runs) = zs @ [Shutdown]"
      using Cons.prems(4) x by (auto simp: append_eq_append_conv2 append_eq_Cons_conv Cons_eq_append_conv)
    have l: "life_inv (actors k') v (map rx (all_adds runs))" using run Inl y by (simp add: run_ok_def)
    have cl: "core_loop env ops pol runs k' v = Some (Inr w')" using Cons.prems(3) x it Inl y by simp
    show ?thesis
    proof (cases "c \<in> set (adds cs)")
      case True
      show ?thesis
        using core_loop_spec [OF assms ok(2) l cl] starts [OF True] Inl y evolves_started by (auto simp: run_ok_def)
    next
      case False
      then show ?thesis using Cons.IH [OF ok(2) l cl zs(2)] Cons.prems(5,7,8) zs(1) nk(1) by simp
    qed
  qed
qed simp

text \<open>
  C8: From the spawn to the end of the core: place actors on a new system by any sequence of spawn calls with mailboxes of
  capacity 2 or more, drop the system, and let a core run what its control channel holds, in any batches, until its thread ends.
  The handles name mailboxes that are all different. The thread ends its loop only with the shutdown, and by then every actor
  that was placed on the core has been started, went through its hooks in the right order and is gone, and
  for every mailbox the messages it ever accepted, in order, are those its actor was given, followed by those left in it.
\<close>

theorem system_runs_actors:
  assumes "with_policy n pol = Some s0" "1 \<le> pol_batch pol" "user_ok env ops" "\<forall>x\<in>set calls. call_ok x"
    and "\<forall>i. trace w0 i = []" "\<forall>i. posted w0 i = items (mail w0 i)"
    and "do_calls sb env calls s0 w0 = Some (refs, s, w)" "broken s = {}"
    and "k < unat n" "concat (map fst runs) = cores (system_drop s) ! k" "\<forall>x\<in>set runs. \<not> snd x"
    and "core_loop env ops pol runs core_new w = Some r"
  shows "distinct (map ref_tx refs) \<and>
    (\<exists>w'. r = Inr w' \<and>
       (\<forall>c\<in>set (adds (cores s ! k)). phase_of (trace w' (rx c)) = Dropped) \<and>
       (\<forall>i. handled w' i @ items (mail w' i) = posted w' i))"
proof -
  have env: "\<And>w. sends w (env w)" using assms(3) by (simp add: user_ok_def)
  have s0: "s0 = \<lparr>cores = replicate (unat n) [], running = replicate (unat n) True, next_core = 0, next_id = 0, broken = {}, sys_policy = pol\<rparr>"
    using assms(1) by (auto simp: with_policy_def split: if_splits)
  have "all_cells s0 = []" by (simp add: all_cells_def s0)
  then have "system_ok s0 w0" using assms(5,6) by (simp add: system_ok_def) (simp add: s0)
  from do_calls_ok [OF env this assms(7,4)]
  have ok: "system_ok s w" "distinct (map ref_tx refs)" "running s = replicate (unat n) True" "length (cores s) = unat n"
    by (simp_all add: s0)
  have q: "concat (map fst runs) = cores s ! k @ [Shutdown]"
    using assms(9,10) ok(3,4) by (simp add: system_drop_def)
  then obtain w' where r: "r = Inr w'" using core_loop_ends [OF assms(12)] by auto
  have cells: "all_adds runs = adds (cores s ! k)" unfolding adds_concat q by simp
  have k: "k < length (cores s)" using assms(9) ok(4) by simp
  have c: "\<forall>c\<in>set (all_adds runs). cell_ok c" "distinct (map rx (all_adds runs))" "\<forall>i. trace w i = []" "\<forall>i. posted w i = items (mail w i)"
    using ok(1) unfolding cells system_ok_def all_cells_split [OF k] by auto
  then have life: "\<forall>c\<in>set (all_adds runs). cell_ok c" "life_inv (actors core_new) w (map rx (all_adds runs))"
    by (simp_all add: life_inv_def core_new_def phase_of_def)
  have "run_ok w [] r" by (rule core_loop_spec [OF assms(3,2) life assms(12)])
  then have w': "\<forall>i. phase_of (trace w' i) \<in> {Fresh, Dropped}"
    by (simp add: r run_ok_def life_inv_def)
  have "Shutdown \<notin> set (cores s ! k)" using ok(1) k by (simp add: system_ok_def)
  then have "trace w' (rx c) \<noteq> []" if "c \<in> set (adds (cores s ! k))" for c
    using core_loop_starts [OF assms(3,2) life assms(12) [unfolded r] q _ _ assms(11) that] by (simp add: core_new_def)
  then have "phase_of (trace w' (rx c)) = Dropped" if "c \<in> set (adds (cores s ! k))" for c
    using w' phase_started that by fastforce
  moreover have "handled w' i @ items (mail w' i) = posted w' i" for i
    using run_books [OF assms(3) c assms(12)] by (simp add: r books_def)
  ultimately show ?thesis using ok(2) r by blast
qed

lemma demo_queue: "channel 16 2 = Some (\<lparr>buffer = [\<lparr>seq = 0, val = None\<rparr>, \<lparr>seq = 1, val = None\<rparr>], qmask = 1,
    enqueue_pos = 0, dequeue_pos = 0, producers = 1, consumer_alive = True\<rparr> :: nat queue)"
  by (rule channel_two)

lemma demo_mailbox: "queue_abs \<lparr>buffer = [\<lparr>seq = 0, val = None\<rparr>, \<lparr>seq = 1, val = None\<rparr>], qmask = 1,
    enqueue_pos = 0, dequeue_pos = 0, producers = 1, consumer_alive = True\<rparr> = (mb_new 2 :: nat mailbox)"
  using channel_inv [OF demo_queue] by simp

definition demo_actor :: "(nat, nat) cell" where
  "demo_actor = \<lparr>actor = 5, rx = 0, factory = None, cell_policy = Never, restarts = restart_state_default, metrics = None\<rparr>"

text \<open>Another thread sends the message 7 to the actor as soon as it is there; the actor handles it before it ends.\<close>

definition empty_world :: "nat world" where
  "empty_world = \<lparr>mail = (\<lambda>_. mb_new 2), now = 0, trace = (\<lambda>_. []), posted = (\<lambda>_. [])\<rparr>"

definition demo_feed :: "nat world \<Rightarrow> nat world" where
  "demo_feed w = (if posted w 0 = [] then snd (post 0 7 w) else w)"

lemma demo_feed_ok: "user_ok demo_feed demo_ops"
  using demo_ok(1) post_sends by (auto simp: user_ok_def demo_feed_def)

lemma demo_calls:
  "do_calls 16 demo_feed [SpawnOnWith 0 5 2]
       \<lparr>cores = [[]], running = [True], next_core = 0, next_id = 0, broken = {}, sys_policy = policy_default\<rparr> empty_world =
     Some ([\<lparr>ref_tx = 0, ref_metrics = False, ref_core = 0\<rparr>],
       \<lparr>cores = [[Add demo_actor]], running = [True], next_core = 0, next_id = 1, broken = {}, sys_policy = policy_default\<rparr>,
       snd (post 0 7 empty_world))"
  by (simp add: spawn_on_with_def install_def demo_queue demo_mailbox demo_actor_def demo_feed_def empty_world_def post_def
      mb_try_send_def mb_new_def Let_def)

lemma demo_shutdown:
  "\<exists>r. core_loop demo_feed demo_ops policy_default [([Add demo_actor, Shutdown], False)] core_new (snd (post 0 7 empty_world)) = Some r \<and>
     (\<forall>w'. r = Inr w' \<longrightarrow> items (mail w' 0) = [] \<and> posted w' 0 = [7])"
  by (simp add: core_eval demo_actor_def demo_feed_def empty_world_def post_def demo_ops_def swap_remove_def)

theorem system_runs_actors_witness:
  "\<exists>w'. core_loop demo_feed demo_ops policy_default [([Add demo_actor, Shutdown], False)] core_new (snd (post 0 7 empty_world)) = Some (Inr w') \<and>
     phase_of (trace w' 0) = Dropped \<and> handled w' 0 = [7]"
proof -
  obtain r where r: "core_loop demo_feed demo_ops policy_default [([Add demo_actor, Shutdown], False)] core_new (snd (post 0 7 empty_world)) = Some r"
      "\<And>w'. r = Inr w' \<Longrightarrow> items (mail w' 0) = [] \<and> posted w' 0 = [7]"
    using demo_shutdown by blast
  let ?s0 = "\<lparr>cores = [[]], running = [True], next_core = 0, next_id = 0, broken = {}, sys_policy = policy_default\<rparr> :: (nat, nat) system"
  have s0: "with_policy 1 policy_default = Some ?s0" by (simp add: with_policy_def)
  have tr: "\<forall>i. trace empty_world i = []" "\<forall>i. posted empty_world i = items (mail empty_world i)"
    by (simp_all add: empty_world_def mb_new_def)
  have rx0: "rx demo_actor = 0" by (simp add: demo_actor_def)
  from system_runs_actors [OF s0 demo_control_ok(5) demo_feed_ok _ tr demo_calls, of 0 "[([Add demo_actor, Shutdown], False)]" r]
  obtain w' where "r = Inr w'" "phase_of (trace w' 0) = Dropped" "handled w' 0 @ items (mail w' 0) = posted w' 0"
    using r(1) rx0 by (auto simp: system_drop_def)
  then show ?thesis using r by auto
qed

end
