(* ===== verification/Server.thy ===== *)
theory Server
  imports Prelude
begin

text \<open>
  Starting and stopping a server, the \<open>serve\<close> functions and \<open>ServerHandle\<close> of \<open>core/src/net.rs\<close>, and the
  core placement of \<open>core/src/pinning.rs\<close>. The operating system is a script of outcomes: each call that
  can fail takes the next one, and succeeds when the script is used up. A thread started here runs a
  reactor (theory \<open>Reactor\<close>) until its stop flag is set; what counts here is which threads run, with which
  listener and options, and who can still stop them.
\<close>

subsection \<open>State and fallible calls\<close>

datatype io_error = InvalidInput string | OsError nat

record sock_addr =
  is_ipv4 :: bool
  host :: nat
  port :: nat

record serve_options =
  busy_poll :: bool
  pin_core :: "usize option"
  use_epoll :: bool

definition serve_options_default :: serve_options where
  "serve_options_default = \<lparr>busy_poll = False, pin_core = None, use_epoll = False\<rparr>"

text \<open>\<open>l_id\<close> tells sockets apart.\<close>

record listener =
  l_id :: nat
  l_addr :: sock_addr
  l_ipv4 :: bool
  reuse_address :: bool
  reuse_port :: bool
  nonblocking :: bool
  backlog :: nat

datatype reactor_kind = ScanReactor | EpollReactor

text \<open>A reactor thread: its listener, its options, the flag that stops it.\<close>

record reactor =
  r_listener :: listener
  r_options :: serve_options
  r_kind :: reactor_kind
  r_stop :: nat

text \<open>
  \<open>free_port\<close>: what the system assigns next for port 0. \<open>next_sock\<close>: the next socket. \<open>threads\<close>: all threads ever started, by number.
  \<open>hung\<close>: those that never come back to the head of their loop, because a callback of the user does not return.
\<close>

record os =
  outcomes :: "io_error option list"
  free_port :: nat
  next_sock :: nat
  next_stop :: nat
  stops :: "nat \<Rightarrow> bool"
  threads :: "reactor list"
  joined :: "nat set"
  hung :: "nat set"

type_synonym 'a attempt = "os \<Rightarrow> ('a, io_error) result \<times> os"

definition return_io :: "'a \<Rightarrow> 'a attempt" where
  "return_io x w = (Ok x, w)"

definition fail_io :: "io_error \<Rightarrow> 'a attempt" where
  "fail_io e w = (Err e, w)"

text \<open>The operator \<open>?\<close>: go on with the value, or return the error.\<close>

definition try_io :: "'a attempt \<Rightarrow> ('a \<Rightarrow> 'b attempt) \<Rightarrow> 'b attempt" where
  "try_io m f w = (case m w of (Ok x, w') \<Rightarrow> f x w' | (Err e, w') \<Rightarrow> (Err e, w'))"

definition os_call :: "unit attempt" where
  "os_call w =
     (case outcomes w of
        [] \<Rightarrow> (Ok (), w)
      | None # os \<Rightarrow> (Ok (), w\<lparr>outcomes := os\<rparr>)
      | Some e # os \<Rightarrow> (Err e, w\<lparr>outcomes := os\<rparr>))"

text \<open>Binding port 0 assigns a port.\<close>

definition assign :: "sock_addr \<Rightarrow> sock_addr attempt" where
  "assign a w =
     (if port a = 0 then (Ok (a\<lparr>port := free_port w\<rparr>), w\<lparr>free_port := Suc (free_port w)\<rparr>) else (Ok a, w))"

definition new_socket :: "nat attempt" where
  "new_socket w = (Ok (next_sock w), w\<lparr>next_sock := Suc (next_sock w)\<rparr>)"

definition new_stop :: "nat attempt" where
  "new_stop w = (Ok (next_stop w), w\<lparr>next_stop := Suc (next_stop w), stops := (stops w)(next_stop w := False)\<rparr>)"

subsection \<open>Reactor threads\<close>

text \<open>\<open>reactor_loop\<close>: epoll only on Linux.\<close>

definition reactor_loop :: "bool \<Rightarrow> serve_options \<Rightarrow> reactor_kind" where
  "reactor_loop linux opts = (if linux \<and> use_epoll opts then EpollReactor else ScanReactor)"

definition spawn_reactor :: "bool \<Rightarrow> listener \<Rightarrow> nat \<Rightarrow> serve_options \<Rightarrow> nat attempt" where
  "spawn_reactor linux l stop opts =
     try_io os_call (\<lambda>_ w.
       (Ok (length (threads w)),
        w\<lparr>threads := threads w @ [\<lparr>r_listener = l, r_options = opts, r_kind = reactor_loop linux opts, r_stop = stop\<rparr>]\<rparr>))"

record server_handle =
  h_addr :: sock_addr
  h_stop :: nat
  h_joins :: "nat list"

definition local_addr :: "server_handle \<Rightarrow> sock_addr" where
  "local_addr h = h_addr h"

text \<open>
  \<open>shutdown\<close>, and the drop of the handle at its end or without it: set the flag, join every thread, forget
  them. \<open>join\<close> comes back only when the thread has ended, which it does at the head of its loop once its flag is set, or by a panic; if it is
  hung, or nobody has set its flag, \<open>join\<close> blocks for ever (\<open>None\<close>).
\<close>

definition joinable :: "nat \<Rightarrow> os \<Rightarrow> bool" where
  "joinable j w \<longleftrightarrow> j < length (threads w) \<and> stops w (r_stop (threads w ! j)) \<and> j \<notin> hung w"

fun join_all :: "nat list \<Rightarrow> os \<Rightarrow> os option" where
  "join_all [] w = Some w"
| "join_all (j # js) w = (if joinable j w then join_all js (w\<lparr>joined := insert j (joined w)\<rparr>) else None)"

definition handle_stop :: "server_handle \<Rightarrow> os \<Rightarrow> (server_handle \<times> os) option" where
  "handle_stop h w =
     map_option (Pair (h\<lparr>h_joins := []\<rparr>)) (join_all (h_joins h) (w\<lparr>stops := (stops w)(h_stop h := True)\<rparr>))"

definition shutdown :: "server_handle \<Rightarrow> os \<Rightarrow> os option" where
  "shutdown h w = Option.bind (handle_stop h w) (\<lambda>(h', w'). map_option snd (handle_stop h' w'))"

subsection \<open>Serving\<close>

text \<open>\<open>TcpListener::bind\<close> tries the addresses in turn and keeps the last error.\<close>

fun tcp_bind :: "io_error \<Rightarrow> sock_addr list \<Rightarrow> listener attempt" where
  "tcp_bind e [] w = (Err e, w)"
| "tcp_bind e (a # as) w =
     (case try_io os_call (\<lambda>_. try_io new_socket (\<lambda>i. try_io (assign a) (\<lambda>b. return_io (i, b)))) w of
        (Ok (i, a'), w') \<Rightarrow>
          (Ok \<lparr>l_id = i, l_addr = a', l_ipv4 = is_ipv4 a', reuse_address = True, reuse_port = False, nonblocking = False,
               backlog = 128\<rparr>, w')
      | (Err e', w') \<Rightarrow> tcp_bind e' as w')"

definition no_addresses :: io_error where
  "no_addresses = InvalidInput ''could not resolve to any addresses''"

text \<open>\<open>resolve\<close>: the addresses \<open>to_socket_addrs\<close> finds, or its error.\<close>

definition serve_with ::
  "bool \<Rightarrow> (sock_addr list, io_error) result \<Rightarrow> serve_options \<Rightarrow> server_handle attempt" where
  "serve_with linux resolve opts =
     try_io (\<lambda>w. (resolve, w)) (\<lambda>as.
     try_io (tcp_bind no_addresses as) (\<lambda>l.
     try_io os_call (\<lambda>_.
     let l = l\<lparr>nonblocking := True\<rparr> in
     try_io os_call (\<lambda>_.
     try_io new_stop (\<lambda>stop.
     try_io (spawn_reactor linux l stop opts) (\<lambda>j.
     return_io \<lparr>h_addr = l_addr l, h_stop = stop, h_joins = [j]\<rparr>))))))"

definition serve :: "bool \<Rightarrow> (sock_addr list, io_error) result \<Rightarrow> server_handle attempt" where
  "serve linux resolve = serve_with linux resolve serve_options_default"

definition reuseport_listener :: "bool \<Rightarrow> sock_addr \<Rightarrow> listener attempt" where
  "reuseport_listener unix a =
     try_io os_call (\<lambda>_.
     try_io new_socket (\<lambda>i.
     let sock = \<lparr>l_id = i, l_addr = a, l_ipv4 = is_ipv4 a, reuse_address = False, reuse_port = False, nonblocking = False,
                 backlog = 0\<rparr> in
     try_io os_call (\<lambda>_.
     let sock = sock\<lparr>reuse_address := True\<rparr> in
     try_io (if unix then os_call else return_io ()) (\<lambda>_.
     let sock = sock\<lparr>reuse_port := unix\<rparr> in
     try_io os_call (\<lambda>_.
     let sock = sock\<lparr>nonblocking := True\<rparr> in
     try_io os_call (\<lambda>_.
     try_io (assign a) (\<lambda>bound.
     let sock = sock\<lparr>l_addr := bound\<rparr> in
     try_io os_call (\<lambda>_.
     return_io (sock\<lparr>backlog := 1024\<rparr>)))))))))"

text \<open>The loop over the cores; an error leaves it with the threads started so far.\<close>

fun serve_cores :: "bool \<Rightarrow> bool \<Rightarrow> sock_addr \<Rightarrow> nat \<Rightarrow> serve_options \<Rightarrow> usize list \<Rightarrow> nat list \<Rightarrow> nat list attempt" where
  "serve_cores linux unix a stop opts [] joins w = (Ok joins, w)"
| "serve_cores linux unix a stop opts (core # cores) joins w =
     try_io (reuseport_listener unix a) (\<lambda>l.
     try_io (spawn_reactor linux l stop (opts\<lparr>pin_core := Some core\<rparr>)) (\<lambda>j.
     serve_cores linux unix a stop opts cores (joins @ [j]))) w"

text \<open>\<open>None\<close> is the failed assertion.\<close>

definition serve_on_cores ::
  "bool \<Rightarrow> bool \<Rightarrow> (sock_addr list, io_error) result \<Rightarrow> usize list \<Rightarrow> serve_options \<Rightarrow> server_handle attempt option" where
  "serve_on_cores linux unix resolve cores opts =
     (if cores = [] then None
      else Some (
        try_io (\<lambda>w. (resolve, w)) (\<lambda>as.
        try_io (case as of [] \<Rightarrow> fail_io (InvalidInput ''no addr'') | a # _ \<Rightarrow> return_io a) (\<lambda>a.
        try_io new_stop (\<lambda>stop.
        try_io (serve_cores linux unix a stop opts cores []) (\<lambda>joins.
        return_io \<lparr>h_addr = a, h_stop = stop, h_joins = joins\<rparr>))))))"

subsection \<open>Core placement\<close>

text \<open>
  \<open>pin_current_thread_to\<close>: \<open>ids\<close> and \<open>set_for\<close> are \<open>core_affinity\<close>'s \<open>get_core_ids\<close> and
  \<open>set_for_current\<close>, \<open>set_qos\<close> the function of macOS that takes a class and a priority and returns a status.
\<close>

definition request_performance_qos :: "(u32 \<Rightarrow> int \<Rightarrow> int) \<Rightarrow> bool" where
  "request_performance_qos set_qos \<longleftrightarrow> set_qos 33 0 = 0"

definition pin_current_thread_to ::
  "bool \<Rightarrow> bool \<Rightarrow> (u32 \<Rightarrow> int \<Rightarrow> int) \<Rightarrow> 'c list option \<Rightarrow> ('c \<Rightarrow> bool) \<Rightarrow> usize \<Rightarrow> bool" where
  "pin_current_thread_to miri macos set_qos ids set_for core =
     (if miri then False
      else
        let macos_qos = (macos \<and> request_performance_qos set_qos);
            hard_pin = (case ids of
                          Some is \<Rightarrow> if unat core < length is then set_for (is ! unat core) else False
                        | None \<Rightarrow> False)
        in hard_pin \<or> macos_qos)"

definition available_cores :: "'c list option \<Rightarrow> usize option" where
  "available_cores ids = map_option (\<lambda>is. of_nat (length is)) ids"

subsection \<open>What each call leaves alone\<close>

definition same_threads :: "os \<Rightarrow> os \<Rightarrow> bool" where
  "same_threads w w' \<longleftrightarrow> threads w' = threads w \<and> stops w' = stops w \<and> next_stop w' = next_stop w \<and> joined w' = joined w"

named_theorems io_frames \<open>calls that start and stop nothing\<close>

lemma same_threads_refl [simp]: "same_threads w w"
  by (simp add: same_threads_def)

lemma same_threads_trans: "same_threads u v \<Longrightarrow> same_threads v w \<Longrightarrow> same_threads u w"
  by (simp add: same_threads_def)

lemma os_call_same [io_frames]: "same_threads w (snd (os_call w))"
  by (auto simp: os_call_def same_threads_def split: list.split option.split)

lemma assign_same [io_frames]: "same_threads w (snd (assign a w))"
  by (simp add: assign_def same_threads_def)

lemma new_socket_same [io_frames]: "same_threads w (snd (new_socket w))"
  by (simp add: new_socket_def same_threads_def)

lemma next_sock_kept:
  "os_call w = (r, w') \<Longrightarrow> next_sock w' = next_sock w" "assign a w = (b, w') \<Longrightarrow> next_sock w' = next_sock w"
  by (auto simp: os_call_def assign_def split: list.splits option.splits if_splits)

lemma return_same [io_frames]: "same_threads w (snd (return_io x w))"
  by (simp add: return_io_def)

lemma try_io_same:
  assumes "\<And>w. same_threads w (snd (m w))" "\<And>x w. same_threads w (snd (f x w))"
  shows "same_threads w (snd (try_io m f w))"
proof (cases "m w")
  case (Pair r w')
  have "same_threads w w'" using assms(1) [of w] Pair by simp
  then show ?thesis
    using Pair assms(2) same_threads_trans by (cases r) (auto simp: try_io_def)
qed

lemma try_io_Ok: "try_io m f w = (Ok y, w') \<longleftrightarrow> (\<exists>x v. m w = (Ok x, v) \<and> f x v = (Ok y, w'))"
  by (auto simp: try_io_def split: prod.split result.split)

lemma listener_same [io_frames]: "same_threads w (snd (reuseport_listener unix a w))"
  unfolding reuseport_listener_def Let_def by (intro try_io_same) (simp_all add: io_frames)

lemma assign_Ok: "assign a w = (Ok b, w') \<Longrightarrow> b = a\<lparr>port := port b\<rparr> \<and> (port a \<noteq> 0 \<longrightarrow> b = a)"
  by (auto simp: assign_def split: if_splits)

definition listens :: "bool \<Rightarrow> sock_addr \<Rightarrow> listener \<Rightarrow> bool" where
  "listens unix a l \<longleftrightarrow> nonblocking l \<and> reuse_address l \<and> reuse_port l = unix \<and> backlog l = 1024 \<and>
     l_ipv4 l = is_ipv4 a \<and> l_addr l = a\<lparr>port := port (l_addr l)\<rparr> \<and> (port a \<noteq> 0 \<longrightarrow> l_addr l = a)"

lemma listener_Ok:
  assumes "reuseport_listener unix a w = (Ok l, w')"
  shows "listens unix a l \<and> l_id l = next_sock w \<and> next_sock w' = Suc (next_sock w)"
proof -
  obtain v1 v2 v3 v4 v5 v6 v7 b where c: "os_call w = (Ok (), v1)" "os_call (v1\<lparr>next_sock := Suc (next_sock v1)\<rparr>) = (Ok (), v2)"
      "(if unix then os_call else return_io ()) v2 = (Ok (), v3)" "os_call v3 = (Ok (), v4)" "os_call v4 = (Ok (), v5)"
      "assign a v5 = (Ok b, v6)" "os_call v6 = (Ok (), v7)" "w' = v7"
      "l = \<lparr>l_id = next_sock v1, l_addr = b, l_ipv4 = is_ipv4 a, reuse_address = True, reuse_port = unix, nonblocking = True, backlog = 1024\<rparr>"
    using assms unfolding reuseport_listener_def Let_def try_io_Ok new_socket_def
    by (auto simp: return_io_def [of "_ :: listener"])
  have "next_sock v3 = next_sock v2" using c(3) next_sock_kept(1) by (auto simp: return_io_def split: if_splits)
  then have "next_sock v1 = next_sock w" "next_sock w' = Suc (next_sock v1)"
    using c(8) next_sock_kept(1) [OF c(1)] next_sock_kept(1) [OF c(2)] next_sock_kept(1) [OF c(4)] next_sock_kept(1) [OF c(5)]
      next_sock_kept(2) [OF c(6)] next_sock_kept(1) [OF c(7)] by simp_all
  then show ?thesis using assign_Ok [OF c(6)] c(9) by (simp add: listens_def)
qed

lemma spawn_reactor_cases:
  "spawn_reactor linux l stop opts w = (r, w') \<Longrightarrow>
     (case r of
        Ok j \<Rightarrow> j = length (threads w) \<and> next_sock w' = next_sock w \<and> stops w' = stops w \<and> next_stop w' = next_stop w \<and> joined w' = joined w \<and>
          threads w' = threads w @ [\<lparr>r_listener = l, r_options = opts, r_kind = reactor_loop linux opts, r_stop = stop\<rparr>]
      | Err e \<Rightarrow> same_threads w w')"
proof -
  assume s: "spawn_reactor linux l stop opts w = (r, w')"
  obtain x v where c: "os_call w = (x, v)" by fastforce
  have "same_threads w v" using os_call_same [of w] c by simp
  then show ?thesis
    using s c next_sock_kept(1) [OF c] by (cases x) (auto simp: spawn_reactor_def try_io_def same_threads_def)
qed

text \<open>The threads of a call that got as far as the first \<open>k\<close> cores.\<close>

definition started :: "bool \<Rightarrow> nat \<Rightarrow> serve_options \<Rightarrow> usize list \<Rightarrow> listener list \<Rightarrow> reactor list" where
  "started linux stop opts cores ls =
     map2 (\<lambda>c l. \<lparr>r_listener = l, r_options = opts\<lparr>pin_core := Some c\<rparr>, r_kind = reactor_loop linux opts, r_stop = stop\<rparr>)
       (take (length ls) cores) ls"

lemma reactor_loop_pin [simp]: "reactor_loop linux (opts\<lparr>pin_core := p\<rparr>) = reactor_loop linux opts"
  by (simp add: reactor_loop_def)

lemma serve_cores_outcome:
  assumes "serve_cores linux unix a stop opts cores joins w = (r, w')"
  shows "\<exists>ls. length ls \<le> length cores \<and> (\<forall>l\<in>set ls. listens unix a l \<and> next_sock w \<le> l_id l) \<and> distinct (map l_id ls) \<and>
    threads w' = threads w @ started linux stop opts cores ls \<and>
    stops w' = stops w \<and> next_stop w' = next_stop w \<and> joined w' = joined w \<and>
    (case r of
       Ok js \<Rightarrow> length ls = length cores \<and> js = joins @ [length (threads w)..<length (threads w) + length cores]
     | Err e \<Rightarrow> length ls < length cores)"
  using assms
proof (induction cores arbitrary: joins w)
  case Nil
  then show ?case by (intro exI [of _ "[]"]) (auto simp: started_def)
next
  case (Cons c cores)
  obtain rl v where l: "reuseport_listener unix a w = (rl, v)" by fastforce
  have sv: "same_threads w v" using listener_same [of w unix a] l by simp
  show ?case
  proof (cases rl)
    case (Err e)
    then show ?thesis using Cons.prems l sv by (intro exI [of _ "[]"]) (auto simp: try_io_def same_threads_def started_def)
  next
    case (Ok l1)
    obtain rs u where s: "spawn_reactor linux l1 stop (opts\<lparr>pin_core := Some c\<rparr>) v = (rs, u)" by fastforce
    note sp = spawn_reactor_cases [OF s]
    show ?thesis
    proof (cases rs)
      case (Err e)
      then show ?thesis
        using Cons.prems l Ok s sp sv same_threads_trans by (intro exI [of _ "[]"]) (auto simp: try_io_def same_threads_def started_def)
    next
      case (Ok j)
      then have "serve_cores linux unix a stop opts cores (joins @ [j]) u = (r, w')"
        using Cons.prems l \<open>rl = _\<close> s by (simp add: try_io_def)
      from Cons.IH [OF this] obtain ls where ls: "length ls \<le> length cores" "\<forall>l\<in>set ls. listens unix a l \<and> next_sock u \<le> l_id l" "distinct (map l_id ls)"
          "threads w' = threads u @ started linux stop opts cores ls"
          "stops w' = stops u" "next_stop w' = next_stop u" "joined w' = joined u"
          "case r of Ok js \<Rightarrow> length ls = length cores \<and> js = (joins @ [j]) @ [length (threads u)..<length (threads u) + length cores]
           | Err e \<Rightarrow> length ls < length cores" by blast
      have "[length (threads w)..<length (threads w) + length (c # cores)] =
          length (threads w) # [Suc (length (threads w))..<Suc (length (threads w)) + length cores]"
        by (simp add: upt_conv_Cons del: upt_Suc)
      moreover have "listens unix a l1" "l_id l1 = next_sock w" "next_sock u = Suc (next_sock w)"
        using listener_Ok [of unix a w l1 v] l \<open>rl = _\<close> sp Ok by simp_all
      ultimately show ?thesis
        using ls sp sv Ok
        by (intro exI [of _ "l1 # ls"]) (auto simp: started_def same_threads_def simp del: upt_Suc split: result.splits)
    qed
  qed
qed

subsection \<open>Servers\<close>

text \<open>The threads that still serve: their flag is not set.\<close>

definition serving :: "os \<Rightarrow> nat set" where
  "serving w = {i. i < length (threads w) \<and> \<not> stops w (r_stop (threads w ! i))}"

definition flags_used :: "os \<Rightarrow> bool" where
  "flags_used w \<longleftrightarrow> (\<forall>t\<in>set (threads w). r_stop t < next_stop w)"

lemma new_stop_fields:
  "new_stop w = (Ok (next_stop w), w\<lparr>next_stop := Suc (next_stop w), stops := (stops w)(next_stop w := False)\<rparr>)"
  by (simp add: new_stop_def)

lemma length_started: "length ls \<le> length cores \<Longrightarrow> length (started linux stop opts cores ls) = length ls"
  by (simp add: started_def)

lemma started_nth:
  "i < length ls \<Longrightarrow> length ls \<le> length cores \<Longrightarrow> started linux stop opts cores ls ! i =
     \<lparr>r_listener = ls ! i, r_options = opts\<lparr>pin_core := Some (cores ! i)\<rparr>, r_kind = reactor_loop linux opts, r_stop = stop\<rparr>"
  by (simp add: started_def)

lemma serving_after:
  assumes "flags_used w" "threads w' = threads w @ started linux (next_stop w) opts cores ls" "length ls \<le> length cores"
    and "stops w' = (stops w)(next_stop w := b)"
  shows "serving w' = serving w \<union> (if b then {} else {length (threads w)..<length (threads w) + length ls})"
proof -
  have old: "stops w' (r_stop (threads w' ! i)) = stops w (r_stop (threads w ! i))" if "i < length (threads w)" for i
  proof -
    have "r_stop (threads w ! i) \<noteq> next_stop w" using assms(1) nth_mem [OF that] by (auto simp: flags_used_def)
    then show ?thesis using assms(2,4) that by (simp add: nth_append)
  qed
  have new: "r_stop (threads w' ! i) = next_stop w" if "length (threads w) \<le> i" "i < length (threads w) + length ls" for i
    using that assms(2,3) by (simp add: nth_append started_nth)
  have len: "length (threads w') = length (threads w) + length ls" using assms(2,3) by (simp add: length_started)
  show ?thesis
    using old new len assms(4) by (auto simp: serving_def not_less) (metis fun_upd_same leI)+
qed

lemma join_all_outcome:
  "\<forall>j\<in>set js. j < length (threads w) \<and> stops w (r_stop (threads w ! j)) \<Longrightarrow>
     join_all js w = (if set js \<inter> hung w = {} then Some (w\<lparr>joined := joined w \<union> set js\<rparr>) else None)"
proof (induction js arbitrary: w)
  case (Cons j js)
  then show ?case by (simp add: joinable_def)
qed simp

text \<open>
  C39: A successful \<open>serve_on_cores\<close> has started one reactor thread per core, each pinned to its core and with
  a listener of its own on the address, nonblocking and sharing the port: the listeners are different sockets, and none of them existed before. The handle's \<open>shutdown\<close>
  stops exactly these threads; servers started before keep running. If none of these threads is hung in a callback, it returns, and then it has joined
  exactly them; if one is, it never returns. The address the
  handle reports is the one passed in, so for port 0 it is not the port a listener was given.
\<close>

theorem serve_on_cores_shutdown:
  assumes "serve_on_cores linux unix resolve cores opts = Some m" "m w = (Ok h, w')" "flags_used w"
  shows "\<exists>a as ls. resolve = Ok (a # as) \<and> local_addr h = a \<and> length ls = length cores \<and>
    (\<forall>l\<in>set ls. listens unix a l \<and> next_sock w \<le> l_id l) \<and> distinct (map l_id ls) \<and>
    threads w' = threads w @ started linux (next_stop w) opts cores ls \<and>
    h_joins h = [length (threads w)..<length (threads w) + length cores] \<and>
    serving w' = serving w \<union> set (h_joins h) \<and>
    (if set (h_joins h) \<inter> hung w' = {}
     then \<exists>v. shutdown h w' = Some v \<and> serving v = serving w \<and> joined v = joined w \<union> set (h_joins h)
     else shutdown h w' = None)"
proof -
  obtain as where r: "resolve = Ok as" using assms(1,2)
    by (cases resolve) (auto simp: serve_on_cores_def try_io_def split: if_splits)
  obtain a as' where a: "as = a # as'" using assms(1,2) r
    by (cases as) (auto simp: serve_on_cores_def try_io_def fail_io_def split: if_splits)
  let ?v = "w\<lparr>next_stop := Suc (next_stop w), stops := (stops w)(next_stop w := False)\<rparr>"
  obtain js where sc: "serve_cores linux unix a (next_stop w) opts cores [] ?v = (Ok js, w')"
      and h: "h = \<lparr>h_addr = a, h_stop = next_stop w, h_joins = js\<rparr>"
    using assms(1,2) r a
    by (auto simp: serve_on_cores_def try_io_Ok return_io_def new_stop_fields split: if_splits)
  from serve_cores_outcome [OF sc] obtain ls where ls: "length ls = length cores" "\<forall>l\<in>set ls. listens unix a l \<and> next_sock w \<le> l_id l"
      "distinct (map l_id ls)" "threads w' = threads w @ started linux (next_stop w) opts cores ls" "stops w' = (stops w)(next_stop w := False)"
      "joined w' = joined w" "js = [length (threads w)..<length (threads w) + length cores]"
    by auto
  let ?u = "w'\<lparr>stops := (stops w)(next_stop w := True)\<rparr>"
  have "j < length (threads ?u) \<and> stops ?u (r_stop (threads ?u ! j))" if "j \<in> set js" for j
  proof -
    have j: "length (threads w) \<le> j" "j - length (threads w) < length ls" using that ls(1,7) by auto
    then show ?thesis using ls(1,4) started_nth [OF j(2)] by (simp add: length_started nth_append)
  qed
  then have ja: "join_all js ?u = (if set js \<inter> hung w' = {} then Some (?u\<lparr>joined := joined w \<union> set js\<rparr>) else None)"
    using join_all_outcome [of js ?u] ls(6) by simp
  have sd: "shutdown h w' = (if set js \<inter> hung w' = {} then Some (?u\<lparr>joined := joined w \<union> set js\<rparr>) else None)"
    using ja ls(5) by (simp add: shutdown_def handle_stop_def h)
  have "serving w' = serving w \<union> set js"
    using serving_after [OF assms(3) ls(4) _ ls(5)] ls(1,7) by simp
  moreover have "serving (?u\<lparr>joined := joined w \<union> set js\<rparr>) = serving w"
    using serving_after [OF assms(3), of "?u\<lparr>joined := joined w \<union> set js\<rparr>" linux opts cores ls True] ls(1,4) by simp
  ultimately show ?thesis using r a ls(1-4,7) sd h
    by (intro exI [of _ a] exI [of _ as'] exI [of _ ls]) (simp add: local_addr_def)
qed

definition demo_os :: "io_error option list \<Rightarrow> os" where
  "demo_os script = \<lparr>outcomes = script, free_port = 40000, next_sock = 0, next_stop = 0, stops = (\<lambda>_. False), threads = [], joined = {},
     hung = {}\<rparr>"

definition demo_addr :: sock_addr where
  "demo_addr = \<lparr>is_ipv4 = True, host = 1, port = 80\<rparr>"

lemma demo_os_simps [simp]:
  "flags_used (demo_os sc)" "serving (demo_os sc) = {}" "threads (demo_os sc) = []" "outcomes (demo_os sc) = sc"
  "port demo_addr \<noteq> 0"
  by (simp_all add: flags_used_def serving_def demo_os_def demo_addr_def)

lemmas server_eval = serve_on_cores_def try_io_def return_io_def os_call_def assign_def new_stop_def new_socket_def
  reuseport_listener_def spawn_reactor_def demo_os_def demo_addr_def Let_def

text \<open>Two reactors are started; their handle stops them, or waits for ever if the second one is hung.\<close>

theorem serve_on_cores_shutdown_witness:
  "\<exists>m h w' v. serve_on_cores True True (Ok [demo_addr]) [3, 5] serve_options_default = Some m \<and> m (demo_os []) = (Ok h, w') \<and>
     serving w' = {0, 1} \<and> shutdown h w' = Some v \<and> serving v = {} \<and> joined v = {0, 1} \<and>
     (\<exists>w2. m ((demo_os [])\<lparr>hung := {1}\<rparr>) = (Ok h, w2) \<and> shutdown h w2 = None)"
proof -
  obtain m h w' w2 where m: "serve_on_cores True True (Ok [demo_addr]) [3, 5] serve_options_default = Some m"
      "m (demo_os []) = (Ok h, w')" "m ((demo_os [])\<lparr>hung := {1}\<rparr>) = (Ok h, w2)" "hung w' = {}" "hung w2 = {1}" "joined (demo_os []) = {}"
    by (simp add: server_eval)
  have j: "h_joins h = [0, 1]" "serving w' = {0, 1}"
    using serve_on_cores_shutdown [OF m(1,2)] by auto
  obtain v where v: "shutdown h w' = Some v" "serving v = {}" "joined v = {0, 1}"
    using serve_on_cores_shutdown [OF m(1,2)] m(4,6) j by auto
  have "flags_used ((demo_os [])\<lparr>hung := {1}\<rparr>)" by (simp add: flags_used_def demo_os_def)
  from serve_on_cores_shutdown [OF m(1,3) this] have "shutdown h w2 = None" using m(5) j(1) by auto
  then show ?thesis using m(1-3) v j(2) by metis
qed

subsection \<open>Errors on the way\<close>

text \<open>Seven calls per core on Unix; with the first \<open>7 k\<close> successful, \<open>k\<close> threads are up.\<close>

lemma serve_cores_script:
  assumes "k < length cores" "outcomes w = replicate (7 * k) None @ [Some e]" "port a \<noteq> 0"
  shows "\<exists>w'. serve_cores linux True a stop opts cores joins w = (Err e, w') \<and> length (threads w') = length (threads w) + k"
  using assms
proof (induction k arbitrary: cores joins w)
  case 0
  then obtain c cs where "cores = c # cs" by (cases cores) auto
  then show ?case using 0 by (simp add: try_io_def reuseport_listener_def os_call_def)
next
  case (Suc k)
  then obtain c cs where c: "cores = c # cs" "k < length cs" by (cases cores) auto
  let ?l = "\<lparr>l_id = next_sock w, l_addr = a, l_ipv4 = is_ipv4 a, reuse_address = True, reuse_port = True, nonblocking = True, backlog = 1024\<rparr>"
  let ?t = "\<lparr>r_listener = ?l, r_options = opts\<lparr>pin_core := Some c\<rparr>, r_kind = reactor_loop linux opts, r_stop = stop\<rparr>"
  let ?v = "w\<lparr>next_sock := Suc (next_sock w), outcomes := replicate (7 * k) None @ [Some e], threads := threads w @ [?t]\<rparr>"
  have "outcomes w = None # None # None # None # None # None # None # replicate (7 * k) None @ [Some e]"
    using Suc.prems(2) by (simp add: numeral_eq_Suc)
  then have "serve_cores linux True a stop opts cores joins w = serve_cores linux True a stop opts cs (joins @ [length (threads w)]) ?v"
    using Suc.prems(3) c by (simp add: try_io_def reuseport_listener_def spawn_reactor_def os_call_def assign_def new_socket_def return_io_def Let_def)
  then show ?case using Suc.IH [OF c(2), of ?v] Suc.prems(3) by auto
qed

text \<open>
  An error of \<open>serve_on_cores\<close> part of the way leaks threads: for every \<open>k\<close> below the number of cores, if the first
  operating system call for core \<open>k\<close> fails, the function returns that error, while the \<open>k\<close> reactor threads it has
  already started keep accepting connections. Their stop flag is set by no one, and no handle exists that
  could set it or join them.
\<close>

theorem serve_on_cores_error_leaks:
  assumes "k < length cores" "outcomes w = replicate (7 * k) None @ [Some e]" "port a \<noteq> 0" "flags_used w"
  shows "\<exists>m w'. serve_on_cores linux True (Ok (a # as)) cores opts = Some m \<and> m w = (Err e, w') \<and>
    serving w' = serving w \<union> {length (threads w)..<length (threads w) + k} \<and>
    \<not> stops w' (next_stop w) \<and> joined w' = joined w"
proof -
  let ?v = "w\<lparr>next_stop := Suc (next_stop w), stops := (stops w)(next_stop w := False)\<rparr>"
  obtain w' where w': "serve_cores linux True a (next_stop w) opts cores [] ?v = (Err e, w')"
      "length (threads w') = length (threads w) + k"
    using serve_cores_script [OF assms(1) _ assms(3), of ?v e linux "next_stop w" opts "[]"] assms(2) by auto
  from serve_cores_outcome [OF w'(1)] obtain ls where ls: "length ls \<le> length cores"
      "threads w' = threads w @ started linux (next_stop w) opts cores ls" "stops w' = (stops w)(next_stop w := False)"
      "joined w' = joined w"
    by auto
  have "length ls = k" using w'(2) ls(1,2) by (simp add: length_started)
  then have "serving w' = serving w \<union> {length (threads w)..<length (threads w) + k}"
    using serving_after [OF assms(4) ls(2,1,3)] by simp
  moreover have "cores \<noteq> []" using assms(1) by auto
  ultimately show ?thesis
    using w'(1) ls(3,4) by (simp add: serve_on_cores_def try_io_def return_io_def new_stop_fields)
qed

theorem serve_on_cores_error_leaks_witness:
  "\<exists>m w'. serve_on_cores True True (Ok [demo_addr]) [3, 5] serve_options_default = Some m \<and>
     m (demo_os (replicate 7 None @ [Some (OsError 98)])) = (Err (OsError 98), w') \<and> serving w' = {0}"
  using serve_on_cores_error_leaks [of 1 "[3, 5]" "demo_os (replicate 7 None @ [Some (OsError 98)])" "OsError 98" demo_addr
      True "[]" serve_options_default] by auto

end
