(* ===== verification/Trading.thy ===== *)
theory Trading
  imports Contract "HOL-Library.Sublist"
begin

text \<open>
  The program of \<open>core/examples/matching_engine.rs\<close>, the largest client in the repository: a gateway
  routes orders to one engine per symbol, each on a core of its own. Its handlers meet the contract of
  the core loop, so its routing and its running totals are right on every core and in every schedule; and
  a shutdown may lose an order on its way.
\<close>

subsection \<open>The program\<close>

record order =
  symbol :: "8 word"
  oid :: u64
  qty :: u32

text \<open>The lines that \<open>format!\<close> builds, by their fields.\<close>

datatype line = StartedLine "8 word" | FillLine "8 word" u64 u32 u64 | StoppedLine "8 word" u64

datatype trade_msg = OrderMsg order | LineMsg line

text \<open>
  An engine has its symbol, the quantity filled and the sending end of the log, a \<open>std::sync::mpsc\<close>
  channel, which has no bound; a gateway has the references to the engines. References and the channel
  are the numbers of their mailboxes.
\<close>

datatype trader = Engine "8 word" u64 nat | Gateway "nat list"

definition chan_send :: "nat \<Rightarrow> line \<Rightarrow> trade_msg world \<Rightarrow> bool \<times> trade_msg world" where
  "chan_send out l w =
     (if receiver_alive (mail w out)
      then (True, deposit out (LineMsg l) w)
      else (False, w))"

text \<open>\<open>unwrap\<close>: the result of a failed send is a panic.\<close>

definition unwrap_send :: "nat \<Rightarrow> line \<Rightarrow> trader \<Rightarrow> trade_msg world \<Rightarrow> trader option \<times> trade_msg world" where
  "unwrap_send out l a w = (case chan_send out l w of (ok, w') \<Rightarrow> (if ok then Some a else None, w'))"

fun trade_start :: "(trader, trade_msg) hook" where
  "trade_start (Engine s f out) w = unwrap_send out (StartedLine s) (Engine s f out) w"
| "trade_start (Gateway es) w = (Some (Gateway es), w)"

text \<open>An engine adds the quantity up; the gateway routes by \<open>symbol % engines.len()\<close>, ignoring the result.\<close>

fun trade_handle :: "trade_msg \<Rightarrow> (trader, trade_msg) hook" where
  "trade_handle (OrderMsg x) (Engine s f out) w =
     (let f = f + ucast (qty x)
      in unwrap_send out (FillLine (symbol x) (oid x) (qty x) f) (Engine s f out) w)"
| "trade_handle (OrderMsg x) (Gateway es) w =
     (if es = [] then (None, w)
      else (let e = es ! (unat (symbol x) mod length es)
            in (Some (Gateway es), snd (post e (OrderMsg x) w))))"
| "trade_handle (LineMsg _) a w = (None, w)"

fun trade_stop :: "(trader, trade_msg) hook" where
  "trade_stop (Engine s f out) w = unwrap_send out (StoppedLine s f) (Engine s f out) w"
| "trade_stop (Gateway es) w = (Some (Gateway es), w)"

definition trade_ops :: "(trader, trade_msg) actor_ops" where
  "trade_ops = \<lparr>op_handle = trade_handle, op_start = trade_start, op_restart = trade_start, op_stop = trade_stop\<rparr>"

text \<open>The cells that \<open>main\<close> spawns, and the orders it submits.\<close>

definition trade_cell :: "nat \<Rightarrow> trader \<Rightarrow> (trader, trade_msg) cell" where
  "trade_cell i a = \<lparr>actor = a, rx = i, factory = None, cell_policy = Never, restarts = restart_state_default, metrics = None\<rparr>"

definition engine_cell :: "nat list \<Rightarrow> nat \<Rightarrow> nat \<Rightarrow> (trader, trade_msg) cell" where
  "engine_cell engines out i = trade_cell (engines ! i) (Engine (of_nat i) 0 out)"

definition gateway_cell :: "nat list \<Rightarrow> nat \<Rightarrow> (trader, trade_msg) cell" where
  "gateway_cell engines g = trade_cell g (Gateway engines)"

definition main_order :: "nat \<Rightarrow> order" where
  "main_order k = \<lparr>symbol = of_nat (k mod 3), oid = of_nat k, qty = of_nat (k * 10)\<rparr>"

subsection \<open>What it keeps\<close>

fun for_engine :: "nat \<Rightarrow> nat \<Rightarrow> trade_msg \<Rightarrow> bool" where
  "for_engine n i (OrderMsg x) = (unat (symbol x) mod n = i)"
| "for_engine n i (LineMsg _) = False"

fun msg_qty :: "trade_msg \<Rightarrow> u64" where
  "msg_qty (OrderMsg x) = ucast (qty x)"
| "msg_qty (LineMsg _) = 0"

definition total_qty :: "trade_msg list \<Rightarrow> u64" where
  "total_qty ms = sum_list (map msg_qty ms)"

text \<open>The orders at an engine, handled or waiting, are orders for it that the gateway has handled, in order.\<close>

definition routed :: "nat list \<Rightarrow> nat \<Rightarrow> trade_msg world \<Rightarrow> bool" where
  "routed engines g w \<longleftrightarrow>
     (\<forall>i<length engines. subseq (handled w (engines ! i) @ items (mail w (engines ! i)))
        (filter (for_engine (length engines) i) (handled w g)))"

text \<open>
  A line about an order shows an order that an engine has handled and its total up to there. A last line
  shows the total of everything the engine has handled.
\<close>

fun line_ok :: "nat list \<Rightarrow> trade_msg world \<Rightarrow> trade_msg \<Rightarrow> bool" where
  "line_ok engines w (LineMsg (FillLine s k q t)) =
     (\<exists>i<length engines. \<exists>j<length (handled w (engines ! i)).
        handled w (engines ! i) ! j = OrderMsg \<lparr>symbol = s, oid = k, qty = q\<rparr> \<and>
        t = total_qty (take (Suc j) (handled w (engines ! i))))"
| "line_ok engines w (LineMsg (StoppedLine s t)) =
     (\<exists>i<length engines. s = of_nat i \<and> (\<exists>b. EvStop b \<in> set (trace w (engines ! i))) \<and> t = total_qty (handled w (engines ! i)))"
| "line_ok engines w _ = True"

definition trade_ok :: "nat list \<Rightarrow> nat \<Rightarrow> nat \<Rightarrow> trade_msg world \<Rightarrow> bool" where
  "trade_ok engines g out w \<longleftrightarrow> routed engines g w \<and> (\<forall>m\<in>set (items (mail w out)). line_ok engines w m)"

text \<open>The state of a running actor, given its history.\<close>

definition trader_ok :: "nat list \<Rightarrow> nat \<Rightarrow> nat \<Rightarrow> nat \<Rightarrow> trader \<Rightarrow> trade_msg entry list \<Rightarrow> bool" where
  "trader_ok engines g out k a es \<longleftrightarrow>
     (\<forall>b. EvStop b \<notin> set es) \<and>
     (k = g \<and> a = Gateway engines \<or>
      (\<exists>i<length engines. k = engines ! i \<and> a = Engine (of_nat i) (total_qty (msgs es)) out))"

subsection \<open>The laws of the contract\<close>

lemma total_simps [simp]: "total_qty [] = 0" "total_qty (ms @ [m]) = total_qty ms + msg_qty m"
  by (simp_all add: total_qty_def)

lemma line_ok_mono:
  assumes "line_ok engines w m"
    and "\<And>i. i < length engines \<Longrightarrow> \<exists>new. handled w' (engines ! i) = handled w (engines ! i) @ new \<and>
      (new \<noteq> [] \<longrightarrow> (\<forall>b. EvStop b \<notin> set (trace w (engines ! i))))"
    and "\<And>i. i < length engines \<Longrightarrow> set (trace w (engines ! i)) \<subseteq> set (trace w' (engines ! i))"
  shows "line_ok engines w' m"
proof (cases "(engines, w, m)" rule: line_ok.cases)
  case (1 en v s k q t)
  then obtain i j where i: "i < length engines" "j < length (handled w (engines ! i))"
      "handled w (engines ! i) ! j = OrderMsg \<lparr>symbol = s, oid = k, qty = q\<rparr>"
      "t = total_qty (take (Suc j) (handled w (engines ! i)))"
    using assms(1) by auto
  obtain new where "handled w' (engines ! i) = handled w (engines ! i) @ new" using assms(2) [OF i(1)] by blast
  then have "j < length (handled w' (engines ! i)) \<and>
      handled w' (engines ! i) ! j = OrderMsg \<lparr>symbol = s, oid = k, qty = q\<rparr> \<and>
      t = total_qty (take (Suc j) (handled w' (engines ! i)))"
    using i by (simp add: nth_append)
  then show ?thesis using 1 i(1) by auto
next
  case (2 en v s t)
  then obtain i b where i: "i < length engines" "s = of_nat i" "EvStop b \<in> set (trace w (engines ! i))"
      "t = total_qty (handled w (engines ! i))"
    using assms(1) by auto
  then have "handled w' (engines ! i) = handled w (engines ! i)" "EvStop b \<in> set (trace w' (engines ! i))"
    using assms(2,3) [OF i(1)] by fastforce+
  then show ?thesis using 2 i by auto
qed simp_all

text \<open>A step at mailbox \<open>k\<close>: the orders at an engine may lose their tail, the log gains lines that are right.\<close>

lemma trade_ok_step:
  assumes ok: "trade_ok engines g out w" and tr: "trace w' = (trace w)(k := trace w k @ [e])"
    and run: "msgs [e] \<noteq> [] \<longrightarrow> (\<forall>b. EvStop b \<notin> set (trace w k))"
    and route: "\<And>i. i < length engines \<Longrightarrow>
      subseq (handled w' (engines ! i) @ items (mail w' (engines ! i)))
        (filter (for_engine (length engines) i) (handled w' g))"
    and log: "items (mail w' out) = items (mail w out) @ ls" "\<forall>m\<in>set ls. line_ok engines w' m"
  shows "trade_ok engines g out w'"
proof -
  have "line_ok engines w' m" if "m \<in> set (items (mail w out))" for m
  proof (rule line_ok_mono)
    show "line_ok engines w m" using ok that by (simp add: trade_ok_def)
  qed (use tr run in \<open>auto simp: handled_def\<close>)
  then show ?thesis using route log by (auto simp: trade_ok_def routed_def)
qed

text \<open>Where the mailboxes of the engines and the gateway's history stay as they are.\<close>

lemma trade_ok_quiet:
  assumes "trade_ok engines g out w" "trace w' = (trace w)(k := trace w k @ [e])" "msgs [e] = []"
    and "\<And>i. i < length engines \<Longrightarrow> items (mail w' (engines ! i)) = items (mail w (engines ! i))"
    and "items (mail w' out) = items (mail w out) @ ls" "\<forall>m\<in>set ls. line_ok engines w' m"
  shows "trade_ok engines g out w'"
proof (rule trade_ok_step [OF assms(1,2) _ _ assms(5,6)])
  have "handled w' j = handled w j" for j using assms(2,3) by (auto simp: handled_def)
  then show "subseq (handled w' (engines ! i) @ items (mail w' (engines ! i)))
      (filter (for_engine (length engines) i) (handled w' g))" if "i < length engines" for i
    using assms(1,4) that by (simp add: trade_ok_def routed_def)
qed (use assms(3) in simp)

lemma unwrap_send_facts:
  assumes "unwrap_send out l a w = (r, w')"
  shows "trace w' = trace w" "\<And>k. k \<noteq> out \<Longrightarrow> mail w' k = mail w k"
    "items (mail w' out) = items (mail w out) @ (if r = None then [] else [LineMsg l])" "r = None \<or> r = Some a"
  using assms by (auto simp: unwrap_send_def chan_send_def split: if_splits)

text \<open>Who is who.\<close>

definition trade_names :: "nat list \<Rightarrow> nat \<Rightarrow> nat \<Rightarrow> bool" where
  "trade_names engines g out \<longleftrightarrow> distinct (g # out # engines) \<and> engines \<noteq> []"

lemma trade_names_facts:
  assumes "trade_names engines g out" "i < length engines"
  shows "engines ! i \<noteq> g" "engines ! i \<noteq> out" "g \<noteq> out" "j < length engines \<Longrightarrow> engines ! i = engines ! j \<longleftrightarrow> i = j"
  using assms by (auto simp: trade_names_def nth_eq_iff_index_eq)

lemma trade_start_law:
  assumes n: "trade_names engines g out" and ok: "trade_ok engines g out w" and a: "trader_ok engines g out k a (trace w k)"
    and h: "trade_start a w = (r, w')"
  shows "trace w' = trace w \<and> trade_ok engines g out (log_ev k (EvStart (r \<noteq> None)) w') \<and>
    (\<forall>b. r = Some b \<longrightarrow> trader_ok engines g out k b (trace w k @ [EvStart True]))"
proof (cases a)
  case (Gateway es)
  then have w: "w' = w" "r = Some a" using h by auto
  have "trade_ok engines g out (log_ev k (EvStart True) w)"
    by (rule trade_ok_quiet [OF ok, of _ k "EvStart True" "[]"]) (simp_all add: log_ev_def)
  then show ?thesis using a w by (auto simp: trader_ok_def)
next
  case (Engine s f c)
  then have c: "c = out" using a by (auto simp: trader_ok_def)
  note u = unwrap_send_facts [OF h [unfolded Engine trade_start.simps c]]
  have "trade_ok engines g out (log_ev k (EvStart (r \<noteq> None)) w')"
    by (rule trade_ok_quiet [OF ok, of _ k "EvStart (r \<noteq> None)" "if r = None then [] else [LineMsg (StartedLine s)]"])
      (simp_all add: u trade_names_facts [OF n], simp_all add: log_ev_def u)
  then show ?thesis using a u Engine c by (auto simp: trader_ok_def)
qed

lemma trade_stop_law:
  assumes n: "trade_names engines g out" and ok: "trade_ok engines g out w" and a: "trader_ok engines g out k a (trace w k)"
    and h: "trade_stop a w = (r, w')"
  shows "trace w' = trace w \<and> trade_ok engines g out (log_ev k (EvStop (r \<noteq> None)) w')"
proof (cases a)
  case (Gateway es)
  then have w: "w' = w" "r = Some a" using h by auto
  have "trade_ok engines g out (log_ev k (EvStop True) w)"
    by (rule trade_ok_quiet [OF ok, of _ k "EvStop True" "[]"]) (simp_all add: log_ev_def)
  then show ?thesis using w by simp
next
  case (Engine s f c)
  then obtain i where i: "c = out" "i < length engines" "k = engines ! i" "s = of_nat i" "f = total_qty (handled w k)"
    using a by (auto simp: trader_ok_def handled_def)
  note u = unwrap_send_facts [OF h [unfolded Engine trade_stop.simps i(1)]]
  have "line_ok engines (log_ev k (EvStop b) w') (LineMsg (StoppedLine s f))" for b
    using i u(1) by (auto simp: log_ev_def handled_def intro!: exI [of _ i])
  then have "trade_ok engines g out (log_ev k (EvStop (r \<noteq> None)) w')"
    by (intro trade_ok_quiet [OF ok, of _ k "EvStop (r \<noteq> None)" "if r = None then [] else [LineMsg (StoppedLine s f)]"])
      (simp_all add: u trade_names_facts [OF n] del: line_ok.simps, simp add: log_ev_def u)
  then show ?thesis using u by simp
qed

text \<open>An order that the gateway handles: it reaches its engine or is lost, and no other engine gets it.\<close>

lemma gateway_law:
  assumes n: "trade_names engines g out" and ok: "trade_ok engines g out w" and run: "\<forall>b. EvStop b \<notin> set (trace w g)"
    and m: "mb_try_recv (mail w g) = (Some m, mb)"
    and h: "trade_handle m (Gateway engines) (w\<lparr>mail := (mail w)(g := mb)\<rparr>) = (r, w')"
  shows "trace w' = trace w \<and> trade_ok engines g out (log_ev g (EvHandle m (r \<noteq> None)) w') \<and>
    (r = None \<or> r = Some (Gateway engines))"
proof -
  let ?n = "length engines"
  let ?w = "log_ev g (EvHandle m (r \<noteq> None)) w'"
  have t: "trace w' = trace w" and rr: "r = None \<or> r = Some (Gateway engines)"
    using h by (cases m; auto simp: Let_def split: if_splits)+
  have H: "handled ?w j = (if j = g then handled w g @ [m] else handled w j)" for j
    by (simp add: log_ev_def handled_def t)
  have o: "mail ?w out = mail w out"
    using h trade_names_facts [OF n] n
    by (cases m) (auto simp: Let_def trade_names_def split: if_splits)
  have "trade_ok engines g out ?w"
  proof (rule trade_ok_step [OF ok, of _ g "EvHandle m (r \<noteq> None)" "[]"])
    fix i assume i: "i < ?n"
    have old: "subseq (handled w (engines ! i) @ items (mail w (engines ! i))) (filter (for_engine ?n i) (handled w g))"
      using ok i by (simp add: trade_ok_def routed_def)
    have new: "items (mail ?w (engines ! i)) = items (mail w (engines ! i)) \<or>
        for_engine ?n i m \<and> items (mail ?w (engines ! i)) = items (mail w (engines ! i)) @ [m]"
    proof (cases m)
      case (OrderMsg x)
      have "unat (symbol x) mod ?n < ?n" using n by (simp add: trade_names_def)
      then show ?thesis
        using h trade_names_facts [OF n i] trade_names_facts [OF n] OrderMsg n
        by (auto simp: Let_def mb_try_send_def trade_names_def split: if_splits)
    qed (use h trade_names_facts [OF n i] in auto)
    show "subseq (handled ?w (engines ! i) @ items (mail ?w (engines ! i))) (filter (for_engine ?n i) (handled ?w g))"
      using new old trade_names_facts(1) [OF n i] unfolding H
      by (auto simp: list_emb_append_mono subseq_rev_drop_many simp flip: append_assoc)
  qed (use run o t in \<open>simp_all add: log_ev_def\<close>)
  then show ?thesis using t rr by blast
qed

lemma engine_law:
  assumes n: "trade_names engines g out" and ok: "trade_ok engines g out w" and i: "i < length engines" "k = engines ! i"
    and run: "\<forall>b. EvStop b \<notin> set (trace w k)" and m: "mb_try_recv (mail w k) = (Some m, mb)"
    and h: "trade_handle m (Engine (of_nat i) (total_qty (handled w k)) out) (w\<lparr>mail := (mail w)(k := mb)\<rparr>) = (r, w')"
  shows "trace w' = trace w \<and> trade_ok engines g out (log_ev k (EvHandle m (r \<noteq> None)) w') \<and>
    (r = None \<or> r = Some (Engine (of_nat i) (total_qty (handled w k @ [m])) out))"
proof -
  let ?w = "log_ev k (EvHandle m (r \<noteq> None)) w'"
  let ?f = "total_qty (handled w k @ [m])"
  have mb: "items (mail w k) = m # items mb" using m by (auto simp: mb_try_recv_def split: list.splits)
  have u: "trace w' = trace w" "\<And>j. j \<noteq> out \<Longrightarrow> mail w' j = (if j = k then mb else mail w j)"
      "r = None \<or> r = Some (Engine (of_nat i) ?f out)"
      "\<exists>ls. items (mail w' out) = items (mail w out) @ ls \<and> (\<forall>l\<in>set ls. \<exists>x. m = OrderMsg x \<and>
        l = LineMsg (FillLine (symbol x) (oid x) (qty x) ?f))"
    using h trade_names_facts [OF n i(1)] i(2)
    by (cases m; force simp: unwrap_send_def chan_send_def Let_def split: if_splits)+
  obtain ls where ls: "items (mail ?w out) = items (mail w out) @ ls"
      "\<forall>l\<in>set ls. \<exists>x. m = OrderMsg x \<and> l = LineMsg (FillLine (symbol x) (oid x) (qty x) ?f)"
    using u(4) by auto
  have H: "handled ?w j = (if j = k then handled w k @ [m] else handled w j)" for j
    by (simp add: log_ev_def handled_def u(1))
  have new: "line_ok engines ?w l" if "l \<in> set ls" for l
  proof -
    obtain x where x: "m = OrderMsg x" "l = LineMsg (FillLine (symbol x) (oid x) (qty x) ?f)" using ls(2) \<open>l \<in> set ls\<close> by blast
    let ?j = "length (handled w k)"
    have "?j < length (handled ?w k)" "handled ?w k ! ?j = OrderMsg \<lparr>symbol = symbol x, oid = oid x, qty = qty x\<rparr>"
        "?f = total_qty (take (Suc ?j) (handled ?w k))"
      unfolding H by (simp_all add: x(1))
    then show ?thesis unfolding x(2) line_ok.simps i(2) [symmetric] using i by blast
  qed
  have "trade_ok engines g out ?w"
  proof (rule trade_ok_step [OF ok, of _ k "EvHandle m (r \<noteq> None)" ls])
    fix j assume j: "j < length engines"
    have "subseq (handled w (engines ! j) @ items (mail w (engines ! j))) (filter (for_engine (length engines) j) (handled w g))"
      using ok j by (simp add: trade_ok_def routed_def)
    then show "subseq (handled ?w (engines ! j) @ items (mail ?w (engines ! j))) (filter (for_engine (length engines) j) (handled ?w g))"
      using u(2) mb trade_names_facts [OF n j] trade_names_facts [OF n i(1)] i(2) unfolding H by auto
  qed (use run ls(1) new u(1) in \<open>simp_all add: log_ev_def\<close>)
  then show ?thesis using u by blast
qed

lemma trade_handle_law:
  assumes n: "trade_names engines g out" and ok: "trade_ok engines g out w" and a: "trader_ok engines g out k a (trace w k)"
    and m: "mb_try_recv (mail w k) = (Some m, mb)" and h: "trade_handle m a (w\<lparr>mail := (mail w)(k := mb)\<rparr>) = (r, w')"
  shows "trace w' = trace w \<and> trade_ok engines g out (log_ev k (EvHandle m (r \<noteq> None)) w') \<and>
    (\<forall>b. r = Some b \<longrightarrow> trader_ok engines g out k b (trace w k @ [EvHandle m True]))"
proof -
  have run: "\<forall>b. EvStop b \<notin> set (trace w k)" using a by (simp add: trader_ok_def)
  consider "k = g" "a = Gateway engines"
    | i where "i < length engines" "k = engines ! i" "a = Engine (of_nat i) (total_qty (handled w k)) out"
    using a by (auto simp: trader_ok_def handled_def)
  then show ?thesis
  proof cases
    case 1
    then show ?thesis using gateway_law [OF n ok _ _ h [unfolded 1]] run m by (auto simp: trader_ok_def)
  next
    case (2 i)
    then show ?thesis using engine_law [OF n ok 2(1,2) run m h [unfolded 2(3)]] run by (auto simp: trader_ok_def handled_def)
  qed
qed

lemma trade_contract:
  assumes n: "trade_names engines g out"
    and env: "\<And>w. trade_ok engines g out w \<Longrightarrow> trade_ok engines g out (env w)"
      "\<And>w i. i \<in> mine \<Longrightarrow> trace (env w) i = trace w i"
  shows "actor_contract env trade_ops mine (trade_ok engines g out) (trader_ok engines g out) (\<lambda>_ _. False)"
proof (unfold_locales, goal_cases)
  case (3 k w a r w')
  then show ?case using trade_start_law [OF n 3(2,3)] by (simp add: trade_ops_def)
next
  case (4 k w a m mb r w')
  then show ?case using trade_handle_law [OF n 4(2-4)] by (simp add: trade_ops_def)
next
  case (6 k w a r w')
  then show ?case using trade_stop_law [OF n 6(2,3)] by (simp add: trade_ops_def)
next
  case (7 k w)
  then show ?case
    by (intro trade_ok_quiet [OF 7(2), of _ k EvDrop "[]"]) (simp_all add: log_ev_def mb_drop_receiver_def)
qed (simp_all add: env)

subsection \<open>The program as \<open>main\<close> sets it up\<close>

text \<open>Three engines, mailboxes 1 to 3, the gateway at 0 and the log at 4; all handles of \<open>main\<close> are dropped.\<close>

definition main_world :: "order list \<Rightarrow> trade_msg world" where
  "main_world xs =
     \<lparr>mail = (\<lambda>_. mb_new 1024)(0 := (mb_new 1024)\<lparr>items := map OrderMsg xs, senders := 0\<rparr>), now = 0, trace = (\<lambda>_. []),
      posted = (\<lambda>_. [])(0 := map OrderMsg xs)\<rparr>"

lemma main_names: "trade_names [1, 2, 3] 0 4"
  by (simp add: trade_names_def)

interpretation main_program:
  actor_contract id trade_ops UNIV "trade_ok [1, 2, 3] 0 4" "trader_ok [1, 2, 3] 0 4" "\<lambda>_ _. False"
  using main_names by (rule trade_contract) simp_all

abbreviation on_core :: "(trader, trade_msg) cell \<Rightarrow> trade_msg world \<Rightarrow> ((trader, trade_msg) core \<times> trade_msg world + trade_msg world) option" where
  "on_core c w \<equiv> core_loop id trade_ops policy_default [([Add c, Shutdown], False)] core_new w"

lemmas trade_eval = core_eval engine_cell_def gateway_cell_def trade_cell_def trade_ops_def unwrap_send_def chan_send_def

lemma main_gateway:
  "\<exists>w. on_core (gateway_cell [1, 2, 3] 0) (main_world (map main_order [1..<13])) = Some (Inr w)"
  by (simp add: trade_eval main_world_def main_order_def upt_conv_Cons)

lemma main_world_ok: "trade_ok [1, 2, 3] 0 4 (main_world xs)"
  by (auto simp: trade_ok_def routed_def main_world_def handled_def nth_Cons' split: if_splits)

text \<open>
  C9: The matching engine routes and adds up correctly, on whichever core its actors are placed, with any
  orders, and whatever the other cores do as long as they keep to the same. The orders that an engine has
  handled or has waiting are orders for its symbol that the gateway has handled, each at most once and
  in the gateway's order; every line of the log about an order shows an order its engine handled
  and the sum of the quantities up to it, and the last line of an engine shows the sum of all it handled.
\<close>

theorem matching_engine_routes:
  assumes "trade_names engines g out"
    and "\<And>v. trade_ok engines g out v \<Longrightarrow> trade_ok engines g out (env v)"
    and "\<And>v i. i \<in> mine \<Longrightarrow> trace (env v) i = trace v i"
    and "\<forall>c\<in>set (all_adds runs). rx c \<in> mine \<and> trace w (rx c) = [] \<and>
      (c = gateway_cell engines g \<or> (\<exists>i<length engines. c = engine_cell engines out i))"
    and "distinct (map rx (all_adds runs))" "trade_ok engines g out w"
    and "core_loop env trade_ops pol runs core_new w = Some r" "w' = (case r of Inl (k, v) \<Rightarrow> v | Inr v \<Rightarrow> v)"
  shows "(\<forall>i<length engines. subseq (handled w' (engines ! i) @ items (mail w' (engines ! i)))
        (filter (for_engine (length engines) i) (handled w' g))) \<and>
    (\<forall>m\<in>set (items (mail w' out)). line_ok engines w' m)"
proof -
  note contract = trade_contract [OF assms(1-3)]
  have "actor_contract.all_fit mine (trader_ok engines g out) (\<lambda>_ _. False) (actors core_new @ all_adds runs) w"
    using assms(4,5)
    by (fastforce simp: actor_contract.all_fit_def [OF contract] actor_contract.fits_def [OF contract] core_new_def
        trader_ok_def gateway_cell_def engine_cell_def trade_cell_def)
  from actor_contract.core_loop_keeps [OF contract assms(6) this assms(7)] assms(8)
  have "trade_ok engines g out w'" by (auto split: sum.splits prod.splits)
  then show ?thesis by (simp add: trade_ok_def routed_def)
qed

theorem matching_engine_routes_witness:
  "\<exists>w. on_core (gateway_cell [1, 2, 3] 0) (main_world (map main_order [1..<13])) = Some (Inr w) \<and>
     subseq (handled w 1 @ items (mail w 1)) (filter (for_engine 3 0) (handled w 0))"
proof -
  obtain w where w: "on_core (gateway_cell [1, 2, 3] 0) (main_world (map main_order [1..<13])) = Some (Inr w)"
    using main_gateway by blast
  let ?es = "[1, 2, 3] :: nat list"
  have "(\<forall>i<length ?es. subseq (handled w (?es ! i) @ items (mail w (?es ! i)))
        (filter (for_engine (length ?es) i) (handled w 0))) \<and>
      (\<forall>m\<in>set (items (mail w 4)). line_ok ?es w m)"
    by (rule matching_engine_routes [where env = id and mine = UNIV, OF main_names _ _ _ _ main_world_ok w])
      (simp_all add: all_adds_def main_world_def gateway_cell_def trade_cell_def)
  then have "subseq (handled w (?es ! 0) @ items (mail w (?es ! 0))) (filter (for_engine (length ?es) 0) (handled w 0))"
    by blast
  then show ?thesis using w by (auto simp: numeral_3_eq_3)
qed

text \<open>
  The twelve orders of \<open>main\<close>, when the gateway's core comes to its end first: every order is filled, and the
  totals are 300, 220 and 260.
\<close>

theorem matching_engine_main:
  "\<exists>w0 w1 w2 w3. on_core (gateway_cell [1, 2, 3] 0) (main_world (map main_order [1..<13])) = Some (Inr w0) \<and>
     on_core (engine_cell [1, 2, 3] 4 0) w0 = Some (Inr w1) \<and> on_core (engine_cell [1, 2, 3] 4 1) w1 = Some (Inr w2) \<and>
     on_core (engine_cell [1, 2, 3] 4 2) w2 = Some (Inr w3) \<and>
     filter (\<lambda>m. \<exists>s t. m = LineMsg (StoppedLine s t)) (items (mail w3 4)) =
       map LineMsg [StoppedLine 0 300, StoppedLine 1 220, StoppedLine 2 260] \<and>
     handled w3 1 = map (OrderMsg \<circ> main_order) [3, 6, 9, 12] \<and>
     handled w3 2 = map (OrderMsg \<circ> main_order) [1, 4, 7, 10] \<and>
     handled w3 3 = map (OrderMsg \<circ> main_order) [2, 5, 8, 11]"
  by (simp add: trade_eval main_world_def main_order_def handled_def upt_conv_Cons)

text \<open>
  A shutdown may lose an order that was accepted. If the core of an engine comes to its end before the
  gateway's core handles the order, which nothing in \<open>shutdown\<close> excludes, the gateway finds the engine closed
  and drops the order: both cores end normally, the engine reports a total of 0, no mailbox holds the order
  and no engine has handled it.
\<close>

theorem shutdown_may_lose_order:
  "\<exists>w1 w2. on_core (engine_cell [1, 2, 3] 4 0) (main_world [main_order 3]) = Some (Inr w1) \<and>
     on_core (gateway_cell [1, 2, 3] 0) w1 = Some (Inr w2) \<and>
     (\<forall>i. handled w2 i = (if i = 0 then [OrderMsg (main_order 3)] else [])) \<and>
     (\<forall>i. items (mail w2 i) = (if i = 4 then [LineMsg (StartedLine 0), LineMsg (StoppedLine 0 0)] else []))"
  by (simp add: trade_eval main_world_def main_order_def handled_def)

end
