(* ===== verification/Apps.thy ===== *)
theory Apps
  imports Contract "HOL-Library.AList"
begin

text \<open>
  Three programs of \<open>core/examples\<close> whose actors only compute: the greeter of \<open>hello_actor.rs\<close>, the
  store of \<open>request_reply.rs\<close> and the counting shards of \<open>sharded.rs\<close>. Such an actor's state is, at any time
  of any run of a core, whatever other actors the core runs, what its handler makes of the messages handled so far; what the programs promise
  follows from their handlers. What an actor prints and what it replies through a \<open>Responder\<close> is kept in its
  state, in order; a responder is a number. A \<open>HashMap\<close> is an association list with distinct keys.
  Counters wrap, as in a build without overflow checks.
\<close>

subsection \<open>Actors that only compute\<close>

text \<open>
  Actors of one such kind on a core that runs any other actors too: their states are the left summand and their
  messages are the left summand of the messages, the rest belongs to \<open>others\<close>. A message of another type cannot
  reach them in Rust; here it would end them. The default of \<open>on_restart\<close> calls \<open>on_start\<close>.
\<close>

definition tagged :: "'o option \<times> 'w \<Rightarrow> ('s + 'o) option \<times> 'w" where
  "tagged r = (map_option Inr (fst r), snd r)"

definition pure_ops ::
  "('s \<Rightarrow> 's) \<Rightarrow> ('m \<Rightarrow> 's \<Rightarrow> 's) \<Rightarrow> ('s \<Rightarrow> 's) \<Rightarrow> ('o, 'm + 'n) actor_ops \<Rightarrow> ('s + 'o, 'm + 'n) actor_ops" where
  "pure_ops start step stop others =
     \<lparr>op_handle = \<lambda>m a w. case a of
          Inl s \<Rightarrow> (case m of Inl x \<Rightarrow> (Some (Inl (step x s)), w) | Inr _ \<Rightarrow> (None, w))
        | Inr t \<Rightarrow> tagged (op_handle others m t w),
      op_start = \<lambda>a w. case a of Inl s \<Rightarrow> (Some (Inl (start s)), w) | Inr t \<Rightarrow> tagged (op_start others t w),
      op_restart = \<lambda>a w. case a of Inl s \<Rightarrow> (Some (Inl (start s)), w) | Inr t \<Rightarrow> tagged (op_restart others t w),
      op_stop = \<lambda>a w. case a of Inl s \<Rightarrow> (Some (Inl (stop s)), w) | Inr t \<Rightarrow> tagged (op_stop others t w)\<rparr>"

text \<open>A second kind of actors that only compute, to stand beside the first.\<close>

definition right_ops :: "('s \<Rightarrow> 's) \<Rightarrow> ('n \<Rightarrow> 's \<Rightarrow> 's) \<Rightarrow> ('s \<Rightarrow> 's) \<Rightarrow> ('s, 'm + 'n) actor_ops" where
  "right_ops start step stop =
     \<lparr>op_handle = \<lambda>m s w. (case m of Inl _ \<Rightarrow> None | Inr x \<Rightarrow> Some (step x s), w), op_start = \<lambda>s w. (Some (start s), w),
      op_restart = \<lambda>s w. (Some (start s), w), op_stop = \<lambda>s w. (Some (stop s), w)\<rparr>"

text \<open>
  The history of an actor is written by the core loop alone: handlers, hooks and factories cannot touch it. That is all
  that is asked of the other actors, which may send, panic and be rebuilt.
\<close>

definition leaves_traces :: "('o, 'm) actor_ops \<Rightarrow> bool" where
  "leaves_traces ops \<longleftrightarrow>
     (\<forall>m s w. trace (snd (op_handle ops m s w)) = trace w) \<and> (\<forall>s w. trace (snd (op_start ops s w)) = trace w) \<and>
     (\<forall>s w. trace (snd (op_restart ops s w)) = trace w) \<and> (\<forall>s w. trace (snd (op_stop ops s w)) = trace w)"

definition other_factory :: "('m world \<Rightarrow> ('s + 'o) option \<times> 'm world) \<Rightarrow> bool" where
  "other_factory mk \<longleftrightarrow> (\<forall>w. trace (snd (mk w)) = trace w \<and> (\<forall>a. fst (mk w) = Some a \<longrightarrow> \<not> isl a))"

definition settled :: "nat set \<Rightarrow> (nat \<Rightarrow> 's) \<Rightarrow> 'm world \<Rightarrow> ('s + 'o, 'm) cell \<Rightarrow> bool" where
  "settled mine initial w c \<longleftrightarrow> rx c \<in> mine \<and> trace w (rx c) = [] \<and>
     (case actor c of
        Inl s \<Rightarrow> s = initial (rx c) \<and> factory c = None
      | Inr _ \<Rightarrow> \<forall>mk. factory c = Some mk \<longrightarrow> other_factory mk)"

lemma right_ops_quiet [simp]: "leaves_traces (right_ops start step stop)"
  by (simp add: leaves_traces_def right_ops_def)

text \<open>The state after a history.\<close>

fun replay :: "('s \<Rightarrow> 's) \<Rightarrow> ('m \<Rightarrow> 's \<Rightarrow> 's) \<Rightarrow> 'm entry list \<Rightarrow> 's \<Rightarrow> 's" where
  "replay start step [] s = s"
| "replay start step (EvStart _ # es) s = replay start step es (start s)"
| "replay start step (EvHandle m _ # es) s = replay start step es (step m s)"
| "replay start step (_ # es) s = replay start step es s"

lemma replay_append [simp]: "replay start step (es @ fs) s = replay start step fs (replay start step es s)"
  by (induction start step es s rule: replay.induct) simp_all

lemma replay_id: "replay id step es s = fold step (msgs es) s"
proof (induction es arbitrary: s)
  case (Cons e es)
  then show ?case by (cases e) simp_all
qed simp

lemma msgs_map_entry: "msgs (map (map_entry f) es) = map f (msgs es)"
proof (induction es)
  case (Cons e es)
  then show ?case by (cases e) simp_all
qed simp

text \<open>A state of the first kind is what its handler makes of its history.\<close>

definition replayed :: "('s \<Rightarrow> 's) \<Rightarrow> ('m \<Rightarrow> 's \<Rightarrow> 's) \<Rightarrow> 's \<Rightarrow> 's + 'o \<Rightarrow> ('m + 'n) entry list \<Rightarrow> bool" where
  "replayed start step s0 a es \<longleftrightarrow>
     (\<forall>s. a = Inl s \<longrightarrow> (\<exists>fs. es = map (map_entry Inl) fs \<and> s = replay start step fs s0))"

lemma replayed_step:
  assumes "replayed start step s0 (Inl s) es"
  shows "replayed start step s0 (Inl (start s)) (es @ [EvStart True])"
    and "replayed start step s0 (Inl (step x s)) (es @ [EvHandle (Inl x) True])"
proof -
  obtain fs where fs: "es = map (map_entry Inl) fs" "s = replay start step fs s0" using assms by (auto simp: replayed_def)
  have "es @ [EvStart True] = map (map_entry Inl) (fs @ [EvStart True])"
    "es @ [EvHandle (Inl x) True] = map (map_entry Inl) (fs @ [EvHandle x True])" using fs(1) by simp_all
  then show "replayed start step s0 (Inl (start s)) (es @ [EvStart True])"
    "replayed start step s0 (Inl (step x s)) (es @ [EvHandle (Inl x) True])"
    using fs(2) unfolding replayed_def by (metis replay_append replay.simps(1-3) sum.inject(1))+
qed

lemma replayed_Inr [simp]: "replayed start step s0 (Inr t) es"
  by (simp add: replayed_def)

locale pure_actors =
  fixes start :: "'s \<Rightarrow> 's" and step :: "'m \<Rightarrow> 's \<Rightarrow> 's" and stop :: "'s \<Rightarrow> 's" and others :: "('o, 'm + 'n) actor_ops"
    and env :: "('m + 'n) world \<Rightarrow> ('m + 'n) world" and mine :: "nat set" and initial :: "nat \<Rightarrow> 's"
  assumes quiet_env: "i \<in> mine \<Longrightarrow> trace (env w) i = trace w i"
    and quiet_others: "leaves_traces others"
begin

lemma ops_trace:
  "trace (snd (op_handle (pure_ops start step stop others) m a w)) = trace w"
  "trace (snd (op_start (pure_ops start step stop others) a w)) = trace w"
  "trace (snd (op_restart (pure_ops start step stop others) a w)) = trace w"
  "trace (snd (op_stop (pure_ops start step stop others) a w)) = trace w"
  using quiet_others by (auto simp: leaves_traces_def pure_ops_def tagged_def split: sum.split)

lemma rebuilds_other:
  assumes "other_factory mk" "rebuild (pure_ops start step stop others) mk w = (r, w')"
  shows "trace w' = trace w \<and> (\<forall>a. r = Some a \<longrightarrow> \<not> isl a)"
proof -
  obtain q v where q: "mk w = (q, v)" by force
  have m: "trace v = trace w" "\<forall>a. q = Some a \<longrightarrow> \<not> isl a"
    using assms(1) q unfolding other_factory_def by (metis fst_conv snd_conv)+
  show ?thesis
    using assms(2) q m ops_trace(3) quiet_others
    by (auto simp: rebuild_def pure_ops_def tagged_def leaves_traces_def split: option.splits sum.splits)
qed

end

sublocale pure_actors \<subseteq>
  actor_contract env "pure_ops start step stop others" mine "\<lambda>_. True" "\<lambda>i. replayed start step (initial i)" "\<lambda>_. other_factory"
proof
  show "trace w' = trace w \<and> True \<and> (\<forall>a. r = Some a \<longrightarrow> replayed start step (initial i) a (trace w i @ [EvStart True]))"
    if "replayed start step (initial i) s (trace w i)" "op_start (pure_ops start step stop others) s w = (r, w')" for i w s r w'
    using that ops_trace(2) [of s w] replayed_step(1)
    by (auto simp: pure_ops_def tagged_def split: sum.splits)
  show "trace w' = trace w \<and> True \<and> (\<forall>a. r = Some a \<longrightarrow> replayed start step (initial i) a (trace w i @ [EvHandle m True]))"
    if "replayed start step (initial i) s (trace w i)"
      "op_handle (pure_ops start step stop others) m s (w\<lparr>mail := (mail w)(i := mb)\<rparr>) = (r, w')" for i w s m mb r w'
    using that ops_trace(1) [of m s "w\<lparr>mail := (mail w)(i := mb)\<rparr>"] replayed_step(2)
    by (auto simp: pure_ops_def tagged_def split: sum.splits)
  show "trace w' = trace w \<and> True \<and> (\<forall>a. r = Some a \<longrightarrow> replayed start step (initial i) a (trace w i @ [EvRebuild True]))"
    if "other_factory mk" "rebuild (pure_ops start step stop others) mk w = (r, w')" for i w mk r w'
    using rebuilds_other [OF that] by (auto simp: replayed_def)
  show "trace w' = trace w \<and> True" if "op_stop (pure_ops start step stop others) s w = (r, w')" for w s r w'
    using that ops_trace(4) [of s w] by simp
qed (simp_all add: quiet_env)

context pure_actors
begin

lemma state_is_replay:
  assumes "\<forall>c\<in>set (all_adds runs). settled mine initial w c" "distinct (map rx (all_adds runs))"
    and "core_loop env (pure_ops start step stop others) pol runs core_new w = Some (Inl (k, w'))" "c \<in> set (actors k)"
    and "actor c = Inl s"
  shows "\<exists>fs. trace w' (rx c) = map (map_entry Inl) fs \<and> s = replay start step fs (initial (rx c))"
proof -
  have "fits c w" if "c \<in> set (all_adds runs)" for c
    using bspec [OF assms(1) that] by (cases "actor c") (auto simp: settled_def fits_def replayed_def)
  then have "all_fit (actors core_new @ all_adds runs) w"
    using assms(2) by (simp add: all_fit_def core_new_def)
  from core_loop_keeps [OF TrueI this assms(3)] assms(4,5) show ?thesis
    by (auto simp: all_fit_def fits_def replayed_def)
qed

end

subsection \<open>The greeter of \<open>hello_actor.rs\<close>\<close>

datatype greet_line = GreeterStarted | Hello string u32 | GreeterStopped u32

record greeter =
  greet_count :: u32
  greeted :: "greet_line list"

definition greeter_new :: greeter where
  "greeter_new = \<lparr>greet_count = 0, greeted = []\<rparr>"

definition greeter_start :: "greeter \<Rightarrow> greeter" where
  "greeter_start g = g\<lparr>greeted := greeted g @ [GreeterStarted]\<rparr>"

definition greeter_step :: "string \<Rightarrow> greeter \<Rightarrow> greeter" where
  "greeter_step name g =
     (let n = greet_count g + 1 in g\<lparr>greet_count := n, greeted := greeted g @ [Hello name n]\<rparr>)"

definition greeter_stop :: "greeter \<Rightarrow> greeter" where
  "greeter_stop g = g\<lparr>greeted := greeted g @ [GreeterStopped (greet_count g)]\<rparr>"

lemma greeter_lines:
  "greet_count (fold greeter_step names g) = greet_count g + of_nat (length names) \<and>
   greeted (fold greeter_step names g) =
     greeted g @ map (\<lambda>i. Hello (names ! i) (greet_count g + of_nat i + 1)) [0..<length names]"
proof (induction names rule: rev_induct)
  case (snoc n names)
  then show ?case by (auto simp: greeter_step_def Let_def nth_append)
qed simp

subsection \<open>The store of \<open>request_reply.rs\<close>\<close>

type_synonym i64 = "64 word"

datatype cmd = Set string i64 | Get string nat | Len nat

datatype kv_reply = GotValue "i64 option" | GotLen usize

record kv_store =
  kv_map :: "(string \<times> i64) list"
  kv_replies :: "(nat \<times> kv_reply) list"

definition kv_new :: kv_store where
  "kv_new = \<lparr>kv_map = [], kv_replies = []\<rparr>"

fun kv_step :: "cmd \<Rightarrow> kv_store \<Rightarrow> kv_store" where
  "kv_step (Set k v) s = s\<lparr>kv_map := AList.update k v (kv_map s)\<rparr>"
| "kv_step (Get k r) s = s\<lparr>kv_replies := kv_replies s @ [(r, GotValue (map_of (kv_map s) k))]\<rparr>"
| "kv_step (Len r) s = s\<lparr>kv_replies := kv_replies s @ [(r, GotLen (of_nat (length (kv_map s))))]\<rparr>"

text \<open>Stores and greeters on one core.\<close>

interpretation stores: pure_actors id kv_step id "right_ops greeter_start greeter_step greeter_stop" id UNIV "\<lambda>_. kv_new"
  by unfold_locales simp_all

interpretation greeters: pure_actors greeter_start greeter_step greeter_stop "right_ops id kv_step id" id UNIV "\<lambda>_. greeter_new"
  by unfold_locales simp_all

text \<open>The reference: a store is what was last set for each key.\<close>

fun last_set :: "string \<Rightarrow> cmd list \<Rightarrow> i64 option" where
  "last_set k [] = None"
| "last_set k (c # cs) =
     (case last_set k cs of
        Some v \<Rightarrow> Some v
      | None \<Rightarrow> (case c of Set k' v \<Rightarrow> if k' = k then Some v else None | _ \<Rightarrow> None))"

fun keys_set :: "cmd list \<Rightarrow> string list" where
  "keys_set [] = []"
| "keys_set (Set k _ # cs) = List.insert k (keys_set cs)"
| "keys_set (_ # cs) = keys_set cs"

fun answer :: "cmd list \<Rightarrow> cmd \<Rightarrow> (nat \<times> kv_reply) list" where
  "answer before (Set _ _) = []"
| "answer before (Get k r) = [(r, GotValue (last_set k before))]"
| "answer before (Len r) = [(r, GotLen (of_nat (length (keys_set before))))]"

definition kv_spec :: "cmd list \<Rightarrow> (nat \<times> kv_reply) list" where
  "kv_spec cs = concat (map (\<lambda>i. answer (take i cs) (cs ! i)) [0..<length cs])"

lemma kv_spec_snoc [simp]: "kv_spec (cs @ [c]) = kv_spec cs @ answer cs c"
  by (auto simp: kv_spec_def nth_append intro!: arg_cong [of _ _ concat] map_cong)

lemma last_set_snoc:
  "last_set k (cs @ [c]) = (case c of Set k' v \<Rightarrow> if k' = k then Some v else last_set k cs | _ \<Rightarrow> last_set k cs)"
  by (induction cs) (auto split: cmd.splits option.splits)

lemma keys_set_props: "distinct (keys_set cs)" "set (keys_set cs) = {k. last_set k cs \<noteq> None}"
proof (induction cs)
  case (Cons c cs)
  { case 1 then show ?case using Cons by (cases c) simp_all }
  { case 2 then show ?case using Cons by (cases c) (auto split: option.splits) }
qed simp_all

lemma kv_state:
  "map_of (kv_map (fold kv_step cs kv_new)) = (\<lambda>k. last_set k cs) \<and> distinct (map fst (kv_map (fold kv_step cs kv_new))) \<and>
   kv_replies (fold kv_step cs kv_new) = kv_spec cs"
proof (induction cs rule: rev_induct)
  case Nil
  show ?case by (simp add: kv_new_def kv_spec_def)
next
  case (snoc c cs)
  let ?s = "fold kv_step cs kv_new"
  have len: "length (kv_map ?s) = length (keys_set cs)"
  proof -
    have "set (map fst (kv_map ?s)) = set (keys_set cs)"
      using snoc keys_set_props(2) [of cs] by (simp add: dom_map_of_conv_image_fst [symmetric] dom_def)
    then show ?thesis using snoc keys_set_props(1) [of cs] by (metis distinct_card length_map)
  qed
  show ?case
    using snoc len by (cases c) (auto simp: last_set_snoc update_conv distinct_update fun_eq_iff)
qed

text \<open>The states of the stores on a core that runs any other actors too.\<close>

lemma store_state:
  assumes "\<And>v i. i \<in> mine \<Longrightarrow> trace (env v) i = trace v i" "leaves_traces others"
    and "\<forall>c\<in>set (all_adds runs). settled mine (\<lambda>_. kv_new) w c" "distinct (map rx (all_adds runs))"
    and "core_loop env (pure_ops id kv_step id others) pol runs core_new w = Some (Inl (k, w'))" "c \<in> set (actors k)"
    and "actor c = Inl s"
  shows "\<exists>cs. handled w' (rx c) = map Inl cs \<and> s = fold kv_step cs kv_new"
proof -
  have "pure_actors others env mine" by unfold_locales (fact assms)+
  from pure_actors.state_is_replay [OF this assms(3-7)]
  obtain fs where "trace w' (rx c) = map (map_entry Inl) fs" "s = fold kv_step (msgs fs) kv_new" by (auto simp: replay_id)
  then show ?thesis by (auto simp: handled_def msgs_map_entry)
qed

text \<open>
  C11: The store of the request-reply example answers as the reference does, wherever it runs and whatever else
  happens on its core and elsewhere: on a core with any other actors, which may send, panic, be restarted and be removed, the
  replies of each store, in order, are for each \<open>Get\<close> the value of the last
  \<open>Set\<close> of that key handled before it, if any, and for each \<open>Len\<close> the number of different keys set before
  it. The table holds each key once, with the value last set.
\<close>

theorem kv_store_answers:
  assumes "\<And>v i. i \<in> mine \<Longrightarrow> trace (env v) i = trace v i" "leaves_traces others"
    and "\<forall>c\<in>set (all_adds runs). settled mine (\<lambda>_. kv_new) w c" "distinct (map rx (all_adds runs))"
    and "core_loop env (pure_ops id kv_step id others) pol runs core_new w = Some (Inl (k, w'))" "c \<in> set (actors k)"
    and "actor c = Inl s"
  shows "\<exists>cs. handled w' (rx c) = map Inl cs \<and> kv_replies s = kv_spec cs \<and>
    (\<forall>key. map_of (kv_map s) key = last_set key cs) \<and> distinct (map fst (kv_map s))"
  using store_state [OF assms] kv_state by (metis fun_eq_iff)

text \<open>The commands of \<open>main\<close>: the answers are 3, nothing, and 2. A greeter runs on the same core.\<close>

definition kv_main :: "cmd list" where
  "kv_main = [Set ''apples'' 3, Set ''pears'' 7, Get ''apples'' 0, Get ''bananas'' 1, Len 2]"

definition kv_cell :: "nat \<Rightarrow> kv_store + greeter \<Rightarrow> (kv_store + greeter, cmd + string) cell" where
  "kv_cell i a = \<lparr>actor = a, rx = i, factory = None, cell_policy = Never, restarts = restart_state_default, metrics = None\<rparr>"

definition kv_world :: "(cmd + string) world" where
  "kv_world = \<lparr>mail = (\<lambda>_. mb_new 8)(0 := (mb_new 8)\<lparr>items := map Inl kv_main\<rparr>, 1 := (mb_new 8)\<lparr>items := [Inr ''world'']\<rparr>), now = 0, trace = (\<lambda>_. []),
     posted = (\<lambda>_. [])(0 := map Inl kv_main, 1 := [Inr ''world''])\<rparr>"

definition kv_ops :: "(kv_store + greeter, cmd + string) actor_ops" where
  "kv_ops = pure_ops id kv_step id (right_ops greeter_start greeter_step greeter_stop)"

definition kv_runs :: "((kv_store + greeter, cmd + string) control list \<times> bool) list" where
  "kv_runs = [([Add (kv_cell 0 (Inl kv_new)), Add (kv_cell 1 (Inr greeter_new))], False)]"

lemma kv_main_run:
  "\<exists>k w c s. core_loop id kv_ops policy_default kv_runs core_new kv_world = Some (Inl (k, w)) \<and>
     c \<in> set (actors k) \<and> actor c = Inl s \<and> rx c = 0 \<and> handled w 0 = map Inl kv_main \<and> handled w 1 = [Inr ''world''] \<and>
     (0, GotValue (Some 3)) \<in> set (kv_replies s) \<and> (2, GotLen 2) \<in> set (kv_replies s)"
  by (simp add: core_eval kv_cell_def kv_ops_def kv_runs_def pure_ops_def right_ops_def tagged_def kv_world_def kv_main_def
      handled_def kv_new_def conj_disj_distribR ex_disj_distrib)

lemma kv_settled:
  "\<forall>c\<in>set (all_adds kv_runs). settled UNIV (\<lambda>_. kv_new) kv_world c" "distinct (map rx (all_adds kv_runs))"
  by (simp_all add: kv_runs_def all_adds_def settled_def kv_cell_def kv_world_def)

theorem kv_store_answers_witness:
  "\<exists>k w c s. core_loop id kv_ops policy_default kv_runs core_new kv_world = Some (Inl (k, w)) \<and>
     c \<in> set (actors k) \<and> actor c = Inl s \<and> handled w 1 = [Inr ''world''] \<and>
     kv_replies s = [(0, GotValue (Some 3)), (1, GotValue None), (2, GotLen 2)]"
proof -
  obtain k w c s where r: "core_loop id kv_ops policy_default kv_runs core_new kv_world = Some (Inl (k, w))"
      "c \<in> set (actors k)" "actor c = Inl s" "rx c = 0" "handled w 0 = map Inl kv_main" "handled w 1 = [Inr ''world'']"
    using kv_main_run by blast
  have "\<exists>cs. handled w (rx c) = map Inl cs \<and> kv_replies s = kv_spec cs \<and>
      (\<forall>key. map_of (kv_map s) key = last_set key cs) \<and> distinct (map fst (kv_map s))"
    by (rule kv_store_answers [where mine = UNIV and env = id, OF _ _ kv_settled r(1) [unfolded kv_ops_def] r(2,3)]) simp_all
  then have "kv_replies s = kv_spec kv_main" using r(4,5) by (auto dest: map_injective)
  moreover have "kv_spec kv_main = [(0, GotValue (Some 3)), (1, GotValue None), (2, GotLen 2)]"
    by (simp add: kv_spec_def kv_main_def)
  ultimately show ?thesis using r by metis
qed

subsection \<open>The shards of \<open>sharded.rs\<close>\<close>

datatype shard_msg = Bump string | Total nat

record shard =
  shard_id :: nat
  counts :: "(string \<times> u64) list"
  shard_replies :: "(nat \<times> nat \<times> u64) list"

definition shard_new :: "nat \<Rightarrow> shard" where
  "shard_new i = \<lparr>shard_id = i, counts = [], shard_replies = []\<rparr>"

definition shard_sum :: "shard \<Rightarrow> u64" where
  "shard_sum s = sum_list (map snd (counts s))"

fun shard_step :: "shard_msg \<Rightarrow> shard \<Rightarrow> shard" where
  "shard_step (Bump k) s =
     s\<lparr>counts := AList.update k ((case map_of (counts s) k of None \<Rightarrow> 0 | Some n \<Rightarrow> n) + 1) (counts s)\<rparr>"
| "shard_step (Total r) s = s\<lparr>shard_replies := shard_replies s @ [(r, shard_id s, shard_sum s)]\<rparr>"

text \<open>\<open>hash\<close> is the standard library's hasher.\<close>

definition shard_of :: "(string \<Rightarrow> u64) \<Rightarrow> string \<Rightarrow> nat \<Rightarrow> nat" where
  "shard_of hash key n = unat (hash key mod of_nat n)"

interpretation shards: pure_actors id shard_step id "right_ops id kv_step id" id UNIV shard_new
  by unfold_locales simp_all

lemma sum_update:
  "distinct (map fst al) \<Longrightarrow>
     sum_list (map snd (AList.update k v al)) = sum_list (map snd al) - (case map_of al k of None \<Rightarrow> 0 | Some n \<Rightarrow> n) + (v :: u64)"
  by (induction al) (auto simp: algebra_simps split: option.splits)

lemma shard_sum_step: "distinct (map fst (counts s)) \<Longrightarrow> shard_sum (shard_step (Bump k) s) = shard_sum s + 1"
  by (simp add: shard_sum_def sum_update)

lemma shard_bumps:
  "distinct (map fst (counts (fold shard_step (map Bump ks) (shard_new i)))) \<and>
   shard_sum (fold shard_step (map Bump ks) (shard_new i)) = of_nat (length ks) \<and>
   shard_id (fold shard_step (map Bump ks) (shard_new i)) = i"
proof (induction ks rule: rev_induct)
  case (snoc k ks)
  let ?s = "fold shard_step (map Bump ks) (shard_new i)"
  have "fold shard_step (map Bump (ks @ [k])) (shard_new i) = shard_step (Bump k) ?s" by simp
  then show ?case
    using snoc shard_sum_step [of ?s k] by (simp add: distinct_update add.commute del: shard_step.simps) (simp add: distinct_update)
qed (simp_all add: shard_new_def shard_sum_def)

lemma shard_of_less: "0 < n \<Longrightarrow> n < 2 ^ 64 \<Longrightarrow> shard_of hash key n < n"
  by (simp add: shard_of_def unat_mod_distrib unat_of_nat)

definition routed_keys :: "(string \<Rightarrow> u64) \<Rightarrow> nat \<Rightarrow> string list \<Rightarrow> nat \<Rightarrow> string list" where
  "routed_keys hash n keys i = filter (\<lambda>k. shard_of hash k n = i) keys"

lemma routed_keys_total:
  assumes "0 < n" "n < 2 ^ 64"
  shows "(\<Sum>i<n. length (routed_keys hash n keys i)) = length keys"
proof (induction keys)
  case (Cons k keys)
  have "length (routed_keys hash n (k # keys) i) = (if i = shard_of hash k n then 1 else 0) + length (routed_keys hash n keys i)" for i
    by (simp add: routed_keys_def)
  then show ?case using Cons shard_of_less [OF assms] by (simp add: sum.distrib)
qed (simp add: routed_keys_def)

text \<open>
  Nothing is counted twice or lost by the shards: with any number of shards, any hash and any events, when each
  shard has handled the events routed to it and then the question for its total, it has replied once, with
  its own number and the number of its events, and the totals of all shards add up to the number of
  events. All events of a key are at one shard.
\<close>

theorem sharded_totals:
  assumes "0 < n" "n < 2 ^ 64"
  shows "(\<forall>i. shard_replies (fold shard_step (map Bump (routed_keys hash n keys i) @ [Total r]) (shard_new i)) =
      [(r, i, of_nat (length (routed_keys hash n keys i)))]) \<and>
    (\<Sum>i<n. of_nat (length (routed_keys hash n keys i))) = (of_nat (length keys) :: u64) \<and>
    (\<forall>k\<in>set keys. \<exists>!i. i < n \<and> k \<in> set (routed_keys hash n keys i))"
proof (intro conjI allI ballI)
  fix i
  have "shard_replies (fold shard_step (map Bump ks) (shard_new i)) = []" for ks
    by (induction ks rule: rev_induct) (simp_all add: shard_new_def)
  then show "shard_replies (fold shard_step (map Bump (routed_keys hash n keys i) @ [Total r]) (shard_new i)) =
      [(r, i, of_nat (length (routed_keys hash n keys i)))]"
    using shard_bumps [of "routed_keys hash n keys i" i] by simp
next
  show "(\<Sum>i<n. of_nat (length (routed_keys hash n keys i))) = (of_nat (length keys) :: u64)"
    using routed_keys_total [OF assms, of hash keys] by (metis of_nat_sum)
next
  fix k assume "k \<in> set keys"
  then show "\<exists>!i. i < n \<and> k \<in> set (routed_keys hash n keys i)"
    using shard_of_less [OF assms] by (auto simp: routed_keys_def)
qed

text \<open>The keys of \<open>main\<close>, four shards, and some hash.\<close>

theorem sharded_totals_witness:
  "(\<Sum>i<4. of_nat (length (routed_keys (\<lambda>k. of_nat (length k)) 4 [''alice'', ''bob'', ''carol''] i))) = (3 :: u64)"
  using sharded_totals [of 4 "\<lambda>k. of_nat (length k)" "[''alice'', ''bob'', ''carol'']"] by simp

end
