(* ===== verification/Pubsub.thy ===== *)
theory Pubsub
  imports Contract "HOL-Library.Sublist"
begin

text \<open>
  The program of \<open>core/examples/pubsub.rs\<close>: a hub that hands each published text on to its subscribers,
  whose references reach it inside messages. It is a client of the core loop's contract.
\<close>

subsection \<open>The program\<close>

text \<open>References are the numbers of mailboxes; what a subscriber prints is kept in its state.\<close>

datatype pub_msg = Subscribe nat | Publish string | Text string

datatype pub_actor = Subscriber string "string list" | Hub "nat list"

definition pass_on :: "string \<Rightarrow> nat \<Rightarrow> pub_msg world \<Rightarrow> pub_msg world" where
  "pass_on t i w = snd (post i (Text t) w)"

text \<open>The last equation stands for messages that typed references cannot carry.\<close>

fun pub_handle :: "pub_msg \<Rightarrow> (pub_actor, pub_msg) hook" where
  "pub_handle (Subscribe i) (Hub subs) w = (Some (Hub (subs @ [i])), w)"
| "pub_handle (Publish t) (Hub subs) w = (Some (Hub subs), fold (pass_on t) subs w)"
| "pub_handle (Text t) (Subscriber name printed) w = (Some (Subscriber name (printed @ [t])), w)"
| "pub_handle _ _ w = (None, w)"

definition pub_ops :: "(pub_actor, pub_msg) actor_ops" where
  "pub_ops = \<lparr>op_handle = pub_handle, op_start = \<lambda>s w. (Some s, w), op_restart = \<lambda>s w. (Some s, w), op_stop = \<lambda>s w. (Some s, w)\<rparr>"

definition pub_cell :: "nat \<Rightarrow> pub_actor \<Rightarrow> (pub_actor, pub_msg) cell" where
  "pub_cell i a = \<lparr>actor = a, rx = i, factory = None, cell_policy = Never, restarts = restart_state_default, metrics = None\<rparr>"

subsection \<open>What a subscriber should get\<close>

fun subscriptions :: "pub_msg list \<Rightarrow> nat list" where
  "subscriptions [] = []"
| "subscriptions (Subscribe i # ms) = i # subscriptions ms"
| "subscriptions (_ # ms) = subscriptions ms"

text \<open>Each text published after its subscription, as often as it has subscribed by then.\<close>

definition due_at :: "nat \<Rightarrow> pub_msg list \<Rightarrow> pub_msg \<Rightarrow> pub_msg list" where
  "due_at i before m = (case m of Publish t \<Rightarrow> replicate (count_list (subscriptions before) i) (Text t) | _ \<Rightarrow> [])"

definition deliveries :: "nat \<Rightarrow> pub_msg list \<Rightarrow> pub_msg list" where
  "deliveries i ms = concat (map (\<lambda>k. due_at i (take k ms) (ms ! k)) [0..<length ms])"

fun texts :: "pub_msg list \<Rightarrow> string list" where
  "texts [] = []"
| "texts (Text t # ms) = t # texts ms"
| "texts (_ # ms) = texts ms"

definition reaches :: "pub_msg world \<Rightarrow> nat \<Rightarrow> pub_msg list" where
  "reaches w i = handled w i @ items (mail w i)"

definition pub_ok :: "nat \<Rightarrow> pub_msg world \<Rightarrow> bool" where
  "pub_ok h w \<longleftrightarrow> (\<forall>i. i \<noteq> h \<longrightarrow>
     subseq (reaches w i) (deliveries i (handled w h)) \<and>
     (receiver_alive (mail w i) \<and> length (deliveries i (handled w h)) \<le> mb_cap (mail w i) \<longrightarrow>
        reaches w i = deliveries i (handled w h)))"

definition pub_actor_ok :: "nat \<Rightarrow> (nat \<Rightarrow> string) \<Rightarrow> nat \<Rightarrow> pub_actor \<Rightarrow> pub_msg entry list \<Rightarrow> bool" where
  "pub_actor_ok h name i a es \<longleftrightarrow>
     a = (if i = h then Hub (subscriptions (msgs es)) else Subscriber (name i) (texts (msgs es)))"

subsection \<open>The laws of the contract\<close>

lemma deliveries_snoc [simp]: "deliveries i (ms @ [m]) = deliveries i ms @ due_at i ms m"
  by (auto simp: deliveries_def nth_append intro!: arg_cong [of _ _ concat] map_cong)

lemma subscriptions_append [simp]: "subscriptions (ms @ ns) = subscriptions ms @ subscriptions ns"
  by (induction ms rule: subscriptions.induct) simp_all

lemma texts_append [simp]: "texts (ms @ ns) = texts ms @ texts ns"
  by (induction ms rule: texts.induct) simp_all

lemma pass_on_fold:
  "trace (fold (pass_on t) subs w) = trace w \<and>
   mail (fold (pass_on t) subs w) i = ((\<lambda>mb. snd (mb_try_send mb (Text t))) ^^ count_list subs i) (mail w i)"
proof (induction subs arbitrary: w)
  case (Cons j subs)
  then show ?case
    using funpow_swap1 [of "\<lambda>mb. snd (mb_try_send mb (Text t))" "count_list subs i" "mail w i"] by (auto simp: pass_on_def)
qed simp

lemma try_send_many:
  "\<exists>k\<le>n. (((\<lambda>mb. snd (mb_try_send mb m)) ^^ n) mb) = mb\<lparr>items := items mb @ replicate k m\<rparr> \<and>
     (receiver_alive mb \<and> length (items mb) + n \<le> mb_cap mb \<longrightarrow> k = n)"
proof (induction n)
  case (Suc n)
  then obtain k where k: "k \<le> n" "((\<lambda>mb. snd (mb_try_send mb m)) ^^ n) mb = mb\<lparr>items := items mb @ replicate k m\<rparr>"
      "receiver_alive mb \<and> length (items mb) + n \<le> mb_cap mb \<longrightarrow> k = n" by blast
  show ?case
  proof (cases "receiver_alive mb \<and> length (items mb) + k < mb_cap mb")
    case True
    then show ?thesis using k
      by (intro exI [of _ "Suc k"]) (auto simp: mb_try_send_def replicate_append_same)
  next
    case False
    then show ?thesis using k by (intro exI [of _ k]) (auto simp: mb_try_send_def)
  qed
qed simp

text \<open>A step that reaches no subscriber and is no message of the hub.\<close>

lemma pub_ok_quiet:
  assumes "pub_ok h w" "handled w' h = handled w h" "\<And>i. i \<noteq> h \<Longrightarrow> reaches w' i = reaches w i"
    and "\<And>i. i \<noteq> h \<Longrightarrow> mb_cap (mail w' i) = mb_cap (mail w i) \<and> (receiver_alive (mail w' i) \<longrightarrow> receiver_alive (mail w i))"
  shows "pub_ok h w'"
  using assms by (auto simp: pub_ok_def)

lemma hub_law:
  assumes ok: "pub_ok h w" and m: "mb_try_recv (mail w h) = (Some m, mb)"
    and h: "pub_handle m (Hub (subscriptions (handled w h))) (w\<lparr>mail := (mail w)(h := mb)\<rparr>) = (r, w')"
  shows "trace w' = trace w \<and> pub_ok h (log_ev h (EvHandle m (r \<noteq> None)) w') \<and>
    (\<forall>a. r = Some a \<longrightarrow> a = Hub (subscriptions (handled w h @ [m])))"
proof -
  let ?w = "log_ev h (EvHandle m (r \<noteq> None)) w'"
  let ?v = "w\<lparr>mail := (mail w)(h := mb)\<rparr>"
  have t: "trace w' = trace w" using h pass_on_fold [of _ _ ?v] by (cases m) auto
  have H: "handled ?w i = (if i = h then handled w h @ [m] else handled w i)" for i
    by (simp add: log_ev_def handled_def t)
  have step: "\<exists>k\<le>length (due_at i (handled w h) m). \<exists>x. due_at i (handled w h) m = replicate (length (due_at i (handled w h) m)) x \<and>
      mail ?w i = (mail w i)\<lparr>items := items (mail w i) @ replicate k x\<rparr> \<and>
      (receiver_alive (mail w i) \<and> length (items (mail w i)) + length (due_at i (handled w h) m) \<le> mb_cap (mail w i) \<longrightarrow>
         k = length (due_at i (handled w h) m))"
    if i: "i \<noteq> h" for i
  proof (cases m)
    case (Publish x)
    then have "mail ?w i = ((\<lambda>mb. snd (mb_try_send mb (Text x))) ^^ count_list (subscriptions (handled w h)) i) (mail w i)"
      using h pass_on_fold [of x "subscriptions (handled w h)" ?v i] i by (auto simp: log_ev_def)
    then show ?thesis
      using try_send_many [of "count_list (subscriptions (handled w h)) i" "Text x" "mail w i"] Publish by (auto simp: due_at_def)
  qed (use h i in \<open>auto simp: due_at_def log_ev_def\<close>)
  have "pub_ok h ?w"
    unfolding pub_ok_def
  proof (intro allI impI)
    fix i assume i: "i \<noteq> h"
    let ?d = "due_at i (handled w h) m"
    obtain k x where k: "k \<le> length ?d" "?d = replicate (length ?d) x" "mail ?w i = (mail w i)\<lparr>items := items (mail w i) @ replicate k x\<rparr>"
        "receiver_alive (mail w i) \<and> length (items (mail w i)) + length ?d \<le> mb_cap (mail w i) \<longrightarrow> k = length ?d"
      using step [OF i] by blast
    have r: "reaches ?w i = reaches w i @ replicate k x" using k(3) H i by (simp add: reaches_def)
    have d: "deliveries i (handled ?w h) = deliveries i (handled w h) @ ?d" unfolding H by simp
    have "subseq (replicate k x) ?d" 
    proof -
      have "?d = replicate k x @ replicate (length ?d - k) x"
        using k(1,2) by (metis le_add_diff_inverse replicate_add)
      then show ?thesis by (metis prefixI prefix_imp_subseq)
    qed
    moreover have old: "subseq (reaches w i) (deliveries i (handled w h))"
      "receiver_alive (mail w i) \<and> length (deliveries i (handled w h)) \<le> mb_cap (mail w i) \<longrightarrow> reaches w i = deliveries i (handled w h)"
      using ok i by (auto simp: pub_ok_def)
    ultimately have "subseq (reaches ?w i) (deliveries i (handled ?w h))" unfolding r d by (intro list_emb_append_mono)
    moreover have "reaches ?w i = deliveries i (handled ?w h)"
      if a: "receiver_alive (mail ?w i) \<and> length (deliveries i (handled ?w h)) \<le> mb_cap (mail ?w i)"
    proof -
      have e: "reaches w i = deliveries i (handled w h)" using old(2) a k(3) d by simp
      have "length (items (mail w i)) \<le> length (deliveries i (handled w h))"
        unfolding e [symmetric] by (simp add: reaches_def)
      moreover have "length (deliveries i (handled w h)) + length ?d \<le> mb_cap (mail w i)"
        using a k(3) d by simp
      ultimately have "length (items (mail w i)) + length ?d \<le> mb_cap (mail w i)" by linarith
      then have "k = length ?d" using a k(3,4) by simp
      then show ?thesis using e r d k(2) by metis
    qed
    ultimately show "subseq (reaches ?w i) (deliveries i (handled ?w h)) \<and>
      (receiver_alive (mail ?w i) \<and> length (deliveries i (handled ?w h)) \<le> mb_cap (mail ?w i) \<longrightarrow>
        reaches ?w i = deliveries i (handled ?w h))" by blast
  qed
  then show ?thesis using t h by (cases m) auto
qed

lemma subscriber_law:
  assumes ok: "pub_ok h w" and i: "i \<noteq> h" and m: "mb_try_recv (mail w i) = (Some m, mb)"
    and h: "pub_handle m (Subscriber n ts) (w\<lparr>mail := (mail w)(i := mb)\<rparr>) = (r, w')"
  shows "trace w' = trace w \<and> pub_ok h (log_ev i (EvHandle m (r \<noteq> None)) w') \<and>
    (\<forall>a. r = Some a \<longrightarrow> a = Subscriber n (ts @ texts [m]))"
proof -
  have w: "w' = w\<lparr>mail := (mail w)(i := mb)\<rparr>" "\<forall>a. r = Some a \<longrightarrow> a = Subscriber n (ts @ texts [m])"
    using h by (cases m; auto)+
  have mb: "items (mail w i) = m # items mb" "mb_cap mb = mb_cap (mail w i)" "receiver_alive mb = receiver_alive (mail w i)"
    using m by (auto simp: mb_try_recv_def split: list.splits)
  have "pub_ok h (log_ev i (EvHandle m (r \<noteq> None)) w')"
    by (rule pub_ok_quiet [OF ok]) (use i mb w(1) in \<open>auto simp: reaches_def handled_def log_ev_def\<close>)
  then show ?thesis using w by simp
qed

lemma quiet_log: "pub_ok h w \<Longrightarrow> msgs [e] = [] \<Longrightarrow> pub_ok h (log_ev i e w)"
  by (rule pub_ok_quiet) (auto simp: reaches_def handled_def log_ev_def)

lemma pub_contract:
  assumes env: "\<And>w. pub_ok h w \<Longrightarrow> pub_ok h (env w)" "\<And>w i. i \<in> mine \<Longrightarrow> trace (env w) i = trace w i"
  shows "actor_contract env pub_ops mine (pub_ok h) (pub_actor_ok h name) (\<lambda>_ _. False)"
proof (unfold_locales, goal_cases)
  case (4 i w a m mb r w')
  then show ?case
    using hub_law [OF 4(2), of m mb r w'] subscriber_law [OF 4(2), of i m mb "name i" "texts (handled w i)" r w']
    by (cases "i = h") (auto simp: pub_ops_def pub_actor_ok_def handled_def)
next
  case (7 i w)
  then show ?case
    by (intro quiet_log pub_ok_quiet [OF 7(2)]) (auto simp: reaches_def handled_def mb_drop_receiver_def)
qed (auto simp: env pub_ops_def pub_actor_ok_def intro!: quiet_log)

subsection \<open>Every subscriber gets what was published\<close>

text \<open>
  C13: The hub delivers, on whichever core its actors are placed and whatever the other cores do as long as they
  keep to the same. What has reached a subscriber, handled or waiting, is part of the texts that the hub has handled
  after that subscriber's \<open>Subscribe\<close>, in the order they were published and none too often; and a
  subscriber that is still there and whose mailbox has room for all of them has got every one. A running
  subscriber has printed exactly the texts it has handled.
\<close>

theorem pubsub_delivers:
  assumes "\<And>v. pub_ok h v \<Longrightarrow> pub_ok h (env v)" "\<And>v i. i \<in> mine \<Longrightarrow> trace (env v) i = trace v i"
    and "\<forall>c\<in>set (all_adds runs). rx c \<in> mine \<and> trace w (rx c) = [] \<and>
      (c = pub_cell h (Hub []) \<or> (\<exists>i. i \<noteq> h \<and> c = pub_cell i (Subscriber (name i) [])))"
    and "distinct (map rx (all_adds runs))" "pub_ok h w"
    and "core_loop env pub_ops pol runs core_new w = Some (Inl (k, w'))"
  shows "(\<forall>i. i \<noteq> h \<longrightarrow>
      subseq (handled w' i @ items (mail w' i)) (deliveries i (handled w' h)) \<and>
      (receiver_alive (mail w' i) \<and> length (deliveries i (handled w' h)) \<le> mb_cap (mail w' i) \<longrightarrow>
         handled w' i @ items (mail w' i) = deliveries i (handled w' h))) \<and>
    (\<forall>c\<in>set (actors k). rx c \<noteq> h \<longrightarrow> actor c = Subscriber (name (rx c)) (texts (handled w' (rx c))))"
proof -
  have contract: "actor_contract env pub_ops mine (pub_ok h) (pub_actor_ok h name) (\<lambda>_ _. False)"
    by (rule pub_contract) (rule assms(1,2), assumption)+
  have "actor_contract.all_fit mine (pub_actor_ok h name) (\<lambda>_ _. False) (actors core_new @ all_adds runs) w"
    unfolding actor_contract.all_fit_def [OF contract] actor_contract.fits_def [OF contract]
  proof (intro conjI ballI allI impI)
    fix c assume "c \<in> set (actors core_new @ all_adds runs)"
    then have c: "rx c \<in> mine" "trace w (rx c) = []"
        "c = pub_cell h (Hub []) \<or> (\<exists>i. i \<noteq> h \<and> c = pub_cell i (Subscriber (name i) []))"
      using assms(3) by (simp_all add: core_new_def)
    then show "rx c \<in> mine" "pub_actor_ok h name (rx c) (actor c) (trace w (rx c))"
      by (auto simp: pub_actor_ok_def pub_cell_def)
    show False if "factory c = Some mk" for mk using c(3) that by (auto simp: pub_cell_def)
  qed (use assms(4) in \<open>simp add: core_new_def\<close>)
  from actor_contract.core_loop_keeps [OF contract assms(5) this assms(6)]
  have "pub_ok h w'" "\<forall>c\<in>set (actors k). pub_actor_ok h name (rx c) (actor c) (trace w' (rx c))"
    by (auto simp: actor_contract.all_fit_def [OF contract] actor_contract.fits_def [OF contract])
  then show ?thesis by (auto simp: pub_ok_def reaches_def pub_actor_ok_def handled_def)
qed

text \<open>The program as \<open>main\<close> sets it up: the hub at mailbox 0, three subscribers, two texts.\<close>

definition sub_name :: "nat \<Rightarrow> string" where
  "sub_name i = (if i = 1 then ''alice'' else if i = 2 then ''bob'' else ''carol'')"

definition pub_main :: "pub_msg list" where
  "pub_main = [Subscribe 1, Subscribe 2, Subscribe 3, Publish ''hello everyone'', Publish ''meeting at 3pm'']"

definition pub_world :: "pub_msg world" where
  "pub_world = \<lparr>mail = (\<lambda>_. mb_new 1024)(0 := (mb_new 1024)\<lparr>items := pub_main\<rparr>), now = 0, trace = (\<lambda>_. []),
     posted = (\<lambda>_. [])(0 := pub_main)\<rparr>"

definition pub_adds :: "(pub_actor, pub_msg) control list" where
  "pub_adds = Add (pub_cell 0 (Hub [])) # map (\<lambda>i. Add (pub_cell i (Subscriber (sub_name i) []))) [1, 2, 3]"

interpretation main_hub: actor_contract id pub_ops UNIV "pub_ok 0" "pub_actor_ok 0 sub_name" "\<lambda>_ _. False"
  by (rule pub_contract) simp_all

lemma pub_world_ok: "pub_ok 0 pub_world"
  by (simp add: pub_ok_def reaches_def pub_world_def handled_def deliveries_def)

lemma pub_main_run:
  "\<exists>k w. core_loop id pub_ops policy_default [(pub_adds, False)] core_new pub_world = Some (Inl (k, w)) \<and>
     handled w 0 = pub_main \<and> receiver_alive (mail w 1) \<and> mb_cap (mail w 1) = 1024 \<and> items (mail w 1) = []"
  by (simp add: core_eval pub_adds_def pub_cell_def pub_ops_def pub_world_def pub_main_def handled_def pass_on_def)

theorem pubsub_delivers_witness:
  "\<exists>k w. core_loop id pub_ops policy_default [(pub_adds, False)] core_new pub_world = Some (Inl (k, w)) \<and>
     handled w 1 = [Text ''hello everyone'', Text ''meeting at 3pm'']"
proof -
  obtain k w where r: "core_loop id pub_ops policy_default [(pub_adds, False)] core_new pub_world = Some (Inl (k, w))"
      "handled w 0 = pub_main" "receiver_alive (mail w 1)" "mb_cap (mail w 1) = 1024" "items (mail w 1) = []"
    using pub_main_run by blast
  have d: "deliveries 1 pub_main = [Text ''hello everyone'', Text ''meeting at 3pm'']"
    by (simp add: deliveries_def pub_main_def due_at_def)
  have "(\<forall>i. i \<noteq> 0 \<longrightarrow>
      subseq (handled w i @ items (mail w i)) (deliveries i (handled w 0)) \<and>
      (receiver_alive (mail w i) \<and> length (deliveries i (handled w 0)) \<le> mb_cap (mail w i) \<longrightarrow>
         handled w i @ items (mail w i) = deliveries i (handled w 0))) \<and>
    (\<forall>c\<in>set (actors k). rx c \<noteq> 0 \<longrightarrow> actor c = Subscriber (sub_name (rx c)) (texts (handled w (rx c))))"
    by (rule pubsub_delivers [where env = id and mine = UNIV, OF _ _ _ _ pub_world_ok r(1)])
      (auto simp: all_adds_def pub_adds_def pub_cell_def pub_world_def)
  then have "handled w 1 @ items (mail w 1) = deliveries 1 (handled w 0)" using r(2-4) d by simp
  then show ?thesis using r d by simp
qed

end
