(* ===== verification/Echo.thy ===== *)
theory Echo
  imports Reactor Metrics
begin

text \<open>
  Programs of \<open>core/examples\<close> on top of the network layer: the echo server of \<open>echo_server.rs\<close> under both
  reactors, and the client of \<open>io_bench.rs\<close>, which measures it, with the outcomes of its system calls
  as scripts.
\<close>

subsection \<open>The echo server\<close>

definition greeting :: bytes where
  "greeting = map (of_char :: char \<Rightarrow> u8) ''welcome to aetherflow echo'' @ [10]"

text \<open>\<open>on_open\<close> greets, \<open>on_data\<close> sends back what came, \<open>on_close\<close> is the default and does nothing.\<close>

definition echo :: behaviour where
  "echo h = (case last h of Opened \<Rightarrow> Some (greeting, False) | Got bs \<Rightarrow> Some (bs, False) | Shut \<Rightarrow> Some ([], False))"

lemma echo_never_panics: "echo h \<noteq> None"
  by (cases "last h") (simp_all add: echo_def)

lemma wrote_echo [simp]: "wrote echo (h @ [Opened]) = greeting" "wrote echo (h @ [Got bs]) = bs" "wrote echo (h @ [Shut]) = []"
  by (simp_all add: wrote_def echo_def)

lemma echo_written: "written echo (Opened # map Got ds) = greeting @ concat ds"
proof (induction ds rule: rev_induct)
  case Nil
  then show ?case using written_snoc [of echo "[]" Opened] wrote_echo(1) [of "[]"] by simp
next
  case (snoc d ds)
  then show ?case using written_snoc [of echo "Opened # map Got ds" "Got d"] wrote_echo(2) [of "Opened # map Got ds" d] by simp
qed

subsection \<open>Handlers that never panic\<close>

lemma turns_return:
  assumes "\<forall>h. f h \<noteq> None"
  shows "service (history_cb f) c \<noteq> None" "scan_conn (history_cb f) c \<noteq> None" "epoll_conn (history_cb f) ev c \<noteq> None"
    "open_conn (history_cb f) (Some []) rs ws \<noteq> None" "call_close (history_cb f) c \<noteq> None"
proof -
  have cl: "call_close (history_cb f) c \<noteq> None" for c using assms by (simp add: call_close_def history_cb_def)
  have op: "open_conn (history_cb f) (Some []) rs ws \<noteq> None" for rs ws
    using assms by (simp add: open_conn_def call_open_def history_cb_def react_def)
  have da: "call_data (history_cb f) bs c \<noteq> None" for bs c
    using assms by (simp add: call_data_def history_cb_def react_def)
  have sv: "service (history_cb f) c \<noteq> None" for c
    using cl by (auto simp: service_def split: prod.split)
  have bd: "Option.bind (call_data (history_cb f) bs c) (service (history_cb f)) \<noteq> None" for bs c
    using da [of bs c] sv by auto
  show "service (history_cb f) c \<noteq> None" "open_conn (history_cb f) (Some []) rs ws \<noteq> None" "call_close (history_cb f) c \<noteq> None"
    using sv op cl by auto
  show "scan_conn (history_cb f) c \<noteq> None"
    using sv cl bd by (simp add: scan_conn_def Let_def del: not_None_eq split: list.split read_result.split)
  have rd: "epoll_read (history_cb f) c \<noteq> None" for c
    using cl da by (auto simp: epoll_read_def Let_def split: list.split read_result.split)
  show "epoll_conn (history_cb f) ev c \<noteq> None"
    using sv cl rd [of c] by (auto simp: epoll_conn_def split: option.split)
qed

lemma body_alive:
  assumes "\<forall>c. turn c \<noteq> None" "\<not> snd t" "scan_body turn c t = (r, x, t')"
  shows "\<not> snd t'"
proof -
  obtain remove c' where "turn c = Some (remove, c')" using assms(1) by (metis not_None_eq old.prod.exhaust)
  then show ?thesis using assms(2,3) by (cases t) (auto simp: scan_body_def)
qed

lemma scan_alive:
  assumes "\<forall>c. turn c \<noteq> None"
  shows "\<not> snd (snd (scan (scan_body turn) 0 xs (gone, False)))"
proof -
  obtain ys t where st: "scan (scan_body turn) 0 xs (gone, False) = (ys, t)" by (rule prod.exhaust)
  have "(\<lambda>(i :: nat) xs t. \<not> snd t) (length ys) ys t"
    by (rule scan_invariant [where I = "\<lambda>i xs t. \<not> snd t", OF st])
      (use body_alive [OF assms] in auto)
  then show ?thesis using st by simp
qed

lemma scan_reactor_alive:
  assumes f: "\<forall>h. f h \<noteq> None"
  shows "\<not> snd (snd (scan_reactor (history_cb f) (Some []) runs))"
proof -
  have acc: "\<not> snd (snd (scan_accept (history_cb f) (Some []) as st))" if "\<not> snd (snd st)" for as st
    using that
  proof (induction as arbitrary: st)
    case (Cons a as)
    obtain conns gone dead where st: "st = (conns, gone, dead)" by (metis prod_cases3)
    show ?case
    proof (cases a)
      case (AConn fd nb rs ws)
      obtain c0 rc where c: "open_conn (history_cb f) (Some []) rs ws = Some c0" "service (history_cb f) c0 = Some rc"
        using turns_return(1,4) [OF f] by blast
      then show ?thesis using Cons.IH [of "(_, _, dead)"] Cons.prems AConn st by (cases rc) auto
    qed (use Cons st in auto)
  qed simp
  have it: "\<not> snd (snd (scan_iteration (history_cb f) (Some []) as st))" if "\<not> snd (snd st)" for as st
  proof -
    obtain conns gone dead where a: "scan_accept (history_cb f) (Some []) as st = (conns, gone, dead)" by (metis prod_cases3)
    have "\<not> dead" using acc [OF that, of as] a by simp
    then show ?thesis
      using that a scan_alive [of "scan_conn (history_cb f)" conns gone] turns_return(2) [OF f] by (cases st) (auto simp: scan_iteration_def)
  qed
  have "\<not> snd (snd (fold (scan_iteration (history_cb f) (Some [])) runs st))" if "\<not> snd (snd st)" for st
    using that it by (induction runs arbitrary: st) auto
  then show ?thesis by (simp add: scan_reactor_def)
qed

text \<open>A handler that answers with \<open>g\<close> first and then with what comes in.\<close>

lemma scan_echoes:
  assumes "\<forall>h. f h \<noteq> None" "\<And>ds. written f (Opened # map Got ds) = g @ concat ds"
    and "scan_reactor (history_cb f) (Some []) runs = (conns, gone, dead)"
  shows "\<not> dead \<and> length conns + length gone = sum_list (map arrivals runs) \<and>
    (\<forall>c\<in>set (conns @ gone). \<exists>rs ws. (rs @ reads c, ws @ writes c) \<in> scripts_of (concat runs) \<and>
       handler c = Opened # map Got (chunks rs) @ (if c \<in> set conns then [] else [Shut]) \<and>
       sent c @ out (conn_io c) = g @ concat (chunks rs))"
proof -
  have sh: "written f ((Opened # map Got ds) @ [Shut]) = g @ concat ds" for ds
    unfolding written_snoc assms(2) by simp
  note ok = scan_reactor_ok [of runs f, unfolded assms(3) conns_ok_def fst_conv snd_conv]
  have *: "\<exists>rs ws. (rs @ reads c, ws @ writes c) \<in> scripts_of (concat runs) \<and>
      handler c = Opened # map Got (chunks rs) @ (if c \<in> set conns then [] else [Shut]) \<and>
      sent c @ out (conn_io c) = g @ concat (chunks rs)" if c: "c \<in> set (conns @ gone)" for c
  proof (cases "c \<in> set conns")
    case True
    then obtain rs ws where r: "bytes_ok f c" "(rs @ reads c, ws @ writes c) \<in> scripts_of (concat runs)"
      "handler c = Opened # map Got (chunks rs)" using ok live_okE by metis
    then have "sent c @ out (conn_io c) = g @ concat (chunks rs)" using assms(2) by (simp add: bytes_ok_def)
    then show ?thesis using True r(2,3) by auto
  next
    case False
    then have "gone_ok False (scripts_of (concat runs)) f c" using ok c by simp
    then obtain rs ws where r: "bytes_ok f c" "(rs @ reads c, ws @ writes c) \<in> scripts_of (concat runs)"
      "handler c = (Opened # map Got (chunks rs)) @ [Shut]" unfolding gone_ok_def by auto
    then have "sent c @ out (conn_io c) = g @ concat (chunks rs)" using sh unfolding bytes_ok_def by metis
    then show ?thesis using False r(2,3) by auto
  qed
  have d: "\<not> dead" using scan_reactor_alive [of f runs] assms(1,3) by simp
  then show ?thesis using * scan_reactor_count [of "history_cb f" "Some []" runs conns gone] assms(3) by simp
qed

text \<open>
  C37: The echo server echoes: whatever the network does, its reactor keeps running and loses no connection, and for every connection
  the bytes that went out, followed by those still buffered, are the welcome line and then exactly the
  bytes that its socket has delivered so far, in order: \<open>rs\<close> are the reads done on it, the first ones of the script with which
  it was accepted, and \<open>chunks rs\<close> is their data. So a client never receives anything else.
\<close>

theorem echo_server_echoes:
  assumes "scan_reactor (history_cb echo) (Some []) runs = (conns, gone, dead)"
  shows "\<not> dead \<and> length conns + length gone = sum_list (map arrivals runs) \<and>
    (\<forall>c\<in>set (conns @ gone). \<exists>rs ws. (rs @ reads c, ws @ writes c) \<in> scripts_of (concat runs) \<and>
       handler c = Opened # map Got (chunks rs) @ (if c \<in> set conns then [] else [Shut]) \<and>
       sent c @ out (conn_io c) = greeting @ concat (chunks rs))"
  by (rule scan_echoes [OF _ echo_written assms]) (use echo_never_panics in simp)

lemma echo_server_echoes_witness:
  "\<exists>c. scan_reactor (history_cb echo) (Some []) [[AConn 5 True [RData [7, 8], RInterrupted, RData [9]] [WAccept 27, WAccept 2]], []] = ([c], [], False) \<and>
     sent c = greeting @ [7, 8] \<and> reads c = [RData [9]]"
proof -
  let ?runs = "[[AConn 5 True [RData [7, 8], RInterrupted, RData [9]] [WAccept 27, WAccept 2]], []]"
  obtain c where r: "scan_reactor (history_cb echo) (Some []) ?runs = ([c], [], False)" "out (conn_io c) = []" "reads c = [RData [9]]"
    by (simp add: demo_evals echo_def greeting_def)
  obtain rs ws where "(rs @ [RData [9]], ws @ writes c) \<in> scripts_of (concat ?runs)" "sent c = greeting @ concat (chunks rs)"
    using echo_server_echoes [OF r(1)] r(2,3) by auto
  moreover from this(1) have "rs = [RData [7, 8], RInterrupted]" by (auto simp: scripts_of_def append_eq_Cons_conv)
  ultimately show ?thesis using r by simp
qed

subsection \<open>The other echo servers\<close>

text \<open>The server of \<open>io_bench.rs\<close> does not greet.\<close>

definition bench_echo :: behaviour where
  "bench_echo h = (case last h of Got bs \<Rightarrow> Some (bs, False) | _ \<Rightarrow> Some ([], False))"

lemma bench_echo_never_panics: "bench_echo h \<noteq> None"
  by (cases "last h") (simp_all add: bench_echo_def)

lemma wrote_bench_echo [simp]:
  "wrote bench_echo (h @ [Opened]) = []" "wrote bench_echo (h @ [Got bs]) = bs" "wrote bench_echo (h @ [Shut]) = []"
  by (simp_all add: wrote_def bench_echo_def)

lemma bench_echo_written: "written bench_echo (Opened # map Got ds) = [] @ concat ds"
proof (induction ds rule: rev_induct)
  case Nil
  then show ?case using written_snoc [of bench_echo "[]" Opened] wrote_bench_echo(1) [of "[]"] by simp
next
  case (snoc d ds)
  then show ?case
    using written_snoc [of bench_echo "Opened # map Got ds" "Got d"] wrote_bench_echo(2) [of "Opened # map Got ds" d] by simp
qed

theorem bench_server_echoes:
  assumes "scan_reactor (history_cb bench_echo) (Some []) runs = (conns, gone, dead)"
  shows "\<not> dead \<and> length conns + length gone = sum_list (map arrivals runs) \<and>
    (\<forall>c\<in>set (conns @ gone). \<exists>rs ws. (rs @ reads c, ws @ writes c) \<in> scripts_of (concat runs) \<and>
       handler c = Opened # map Got (chunks rs) @ (if c \<in> set conns then [] else [Shut]) \<and>
       sent c @ out (conn_io c) = [] @ concat (chunks rs))"
  by (rule scan_echoes [OF _ bench_echo_written assms]) (use bench_echo_never_panics in simp)

text \<open>
  The loop that \<open>echo_glommio.rs\<close> runs for a connection, over the outcomes of its reads and of the writes that
  answer them: \<open>None\<close> and the empty read end it, and so does a write that fails after some of its bytes.
\<close>

fun glommio_conn :: "(bytes option \<times> nat option) list \<Rightarrow> bytes" where
  "glommio_conn [] = []"
| "glommio_conn ((None, _) # rest) = []"
| "glommio_conn ((Some bs, w) # rest) =
     (if bs = [] then []
      else case w of None \<Rightarrow> bs @ glommio_conn rest | Some k \<Rightarrow> take k bs)"

text \<open>The accept loop gives each connection its own loop and ends with the first error.\<close>

fun glommio_serve :: "(bytes option \<times> nat option) list option list \<Rightarrow> bytes list" where
  "glommio_serve [] = []"
| "glommio_serve (Some script # rest) = glommio_conn script # glommio_serve rest"
| "glommio_serve (None # rest) = []"

lemma glommio_conn_prefix: "\<exists>rest. concat (map (\<lambda>(r, _). case r of Some bs \<Rightarrow> bs | None \<Rightarrow> []) script) = glommio_conn script @ rest"
proof (induction script rule: glommio_conn.induct)
  case (3 bs w rest)
  then show ?case
  proof (cases w)
    case (Some k)
    then show ?thesis
      by (auto intro: exI [of _ "drop k bs @ concat (map (\<lambda>(r, _). case r of Some bs \<Rightarrow> bs | None \<Rightarrow> []) rest)"]
          simp flip: append_assoc)
  qed auto
qed auto

subsection \<open>The client of \<open>io_bench.rs\<close>\<close>

text \<open>
  The outcome of each round trip of a connection: the nanoseconds it took, or an error of the write or
  the read. A worker that cannot connect, or fails while it warms up, reports failure.
\<close>

datatype trip = Rtt u64 | TripFailed

fun measure_trips :: "nat \<Rightarrow> nat \<Rightarrow> (nat \<Rightarrow> trip) \<Rightarrow> u64 list" where
  "measure_trips 0 i trips = []"
| "measure_trips (Suc n) i trips =
     (case trips i of TripFailed \<Rightarrow> [] | Rtt t \<Rightarrow> t # measure_trips n (Suc i) trips)"

definition conn_worker :: "nat \<Rightarrow> bool \<Rightarrow> (nat \<Rightarrow> trip) \<Rightarrow> u64 list option" where
  "conn_worker iters connected trips =
     (let warm = min iters 5000
      in if \<not> connected \<or> (\<exists>i\<in>set [0..<warm]. trips i = TripFailed) then None
         else Some (measure_trips iters warm trips))"

definition q90 :: nat where "q90 = 8106479329266893"

text \<open>\<open>None\<close> is the panic of an index out of range.\<close>

definition sorted_pct :: "u64 list \<Rightarrow> nat \<Rightarrow> u64 option" where
  "sorted_pct lat q =
     (let i = min (unat (f64_target q (of_nat (length lat)))) (length lat - 1)
      in if i < length lat then Some (lat ! i) else None)"

datatype client_report = AllFailed nat | ClientReport "u64 option list" nat

text \<open>
  \<open>run_client\<close> over what its workers met, one entry per connection; a worker that panics counts as failed.
  The throughput, which depends on the wall clock, is left out.
\<close>

definition client_per :: "nat \<Rightarrow> nat \<Rightarrow> nat" where
  "client_per iters conns = iters div max conns 1"

definition worker_results :: "nat \<Rightarrow> (bool \<times> (nat \<Rightarrow> trip)) list \<Rightarrow> u64 list option list" where
  "worker_results iters workers = map (\<lambda>(c, trips). conn_worker (client_per iters (length workers)) c trips) workers"

definition measured :: "nat \<Rightarrow> (bool \<times> (nat \<Rightarrow> trip)) list \<Rightarrow> u64 list" where
  "measured iters workers = concat (map (\<lambda>r. case r of Some v \<Rightarrow> v | None \<Rightarrow> []) (worker_results iters workers))"

definition run_client :: "nat \<Rightarrow> (bool \<times> (nat \<Rightarrow> trip)) list \<Rightarrow> client_report" where
  "run_client iters workers =
     (let lat = measured iters workers;
          failed = length (filter (\<lambda>r. r = None) (worker_results iters workers))
      in if lat = [] then AllFailed failed
         else ClientReport (map (sorted_pct (sort lat)) [q50, q90, q99, q999]) failed)"

lemma measure_trips_length: "length (measure_trips n i trips) \<le> n"
  by (induction n arbitrary: i) (auto split: trip.split)

lemma conn_worker_length: "conn_worker n c trips = Some v \<Longrightarrow> length v \<le> n"
  by (auto simp: conn_worker_def Let_def measure_trips_length split: if_splits)

lemma measured_length: "length (measured iters workers) \<le> iters"
proof -
  let ?per = "client_per iters (length workers)"
  have "length (measured iters workers) \<le> length ws * ?per" if "ws = workers" for ws
  proof -
    have "length (concat (map (\<lambda>r. case r of Some v \<Rightarrow> v | None \<Rightarrow> []) (map (\<lambda>(c, trips). conn_worker n c trips) ws))) \<le> length ws * n" for n ws
    proof (induction ws)
      case (Cons w ws)
      then show ?case using conn_worker_length by (cases w) (fastforce split: option.split)
    qed simp
    then show ?thesis using that by (simp add: measured_def worker_results_def)
  qed
  also have "length workers * ?per \<le> iters"
    by (cases "workers = []") (simp_all add: client_per_def max_def Suc_le_eq)
  finally show ?thesis by simp
qed

lemma pct_index_mono:
  assumes "n < 2 ^ 53" "a \<le> b" "b \<le> 2 ^ 53"
  shows "unat (f64_target a (of_nat n)) \<le> unat (f64_target b (of_nat n))"
  using assms rn53_mono [of "n * a" "n * b"] by (simp add: target_bound div_le_mono)

lemma sorted_pct_some:
  assumes "lat \<noteq> []"
  shows "\<exists>i<length lat. sorted_pct lat q = Some (lat ! i) \<and> i = min (unat (f64_target q (of_nat (length lat)))) (length lat - 1)"
proof -
  have "length lat - 1 < length lat" using assms by simp
  then have "min (unat (f64_target q (of_nat (length lat)))) (length lat - 1) < length lat" by linarith
  then show ?thesis by (simp add: sorted_pct_def Let_def)
qed

text \<open>
  The client's report never indexes out of range; its percentiles are latencies it measured, in
  ascending order, and it counts at most one failure per connection.
\<close>

theorem client_percentiles:
  assumes "run_client iters workers = ClientReport ps failed" "iters < 2 ^ 53"
  shows "\<exists>p50 p90 p99 p999. ps = map Some [p50, p90, p99, p999] \<and> p50 \<le> p90 \<and> p90 \<le> p99 \<and> p99 \<le> p999 \<and>
    {p50, p90, p99, p999} \<subseteq> set (measured iters workers) \<and> failed \<le> length workers"
proof -
  let ?l = "sort (measured iters workers)"
  have m: "measured iters workers \<noteq> []" and ps: "ps = map (sorted_pct ?l) [q50, q90, q99, q999]"
    and f: "failed = length (filter (\<lambda>r. r = None) (worker_results iters workers))"
    using assms(1) by (auto simp: run_client_def Let_def split: if_splits)
  have ne: "?l \<noteq> []" using m by (metis length_0_conv length_sort)
  have f: "failed \<le> length workers"
    using f length_filter_le [of "\<lambda>r. r = None" "worker_results iters workers"] by (simp add: worker_results_def)
  have small: "length ?l < 2 ^ 53" using measured_length [of iters workers] assms(2) by simp
  define ix where "ix q = min (unat (f64_target q (of_nat (length ?l)))) (length ?l - 1)" for q
  have at: "sorted_pct ?l q = Some (?l ! ix q)" "ix q < length ?l" for q
    using sorted_pct_some [OF ne, of q] by (auto simp: ix_def)
  have mono: "?l ! ix a \<le> ?l ! ix b" if "a \<le> b" "b \<le> 2 ^ 53" for a b
    using pct_index_mono [OF small that] at(2) [of b] by (intro sorted_nth_mono) (auto simp: ix_def)
  have "?l ! ix q \<in> set (measured iters workers)" for q
    using nth_mem [OF at(2) [of q]] by simp
  then show ?thesis
    using f at(1) mono [of q50 q90] mono [of q90 q99] mono [of q99 q999] ps
    by (intro exI [of _ "?l ! ix q50"] exI [of _ "?l ! ix q90"] exI [of _ "?l ! ix q99"] exI [of _ "?l ! ix q999"])
      (simp add: q50_def q90_def q99_def q999_def)
qed

end
