(* ===== verification/Capability.thy ===== *)
theory Capability
  imports "HOL-Library.Word"
begin

text \<open>
  The experiment of \<open>experiments/capability-proof\<close>: an actor behind a channel to which messages are moved. Client
  code is a list of statements over variables that own messages; messages live at addresses, so that
  two owners of one message would show. The compiler's rule that a moved variable is not used is a check
  over the statements, and what it buys is a theorem: no schedule of client and actor can tell that messages
  are passed without a copy.
\<close>

subsection \<open>Statements and the compiler's check\<close>

text \<open>
  \<open>let x = v\<close>, a write to a field of \<open>x\<close>, a use of \<open>x\<close>, \<open>send(x)\<close>, \<open>clone\<close> and drop of a reference to the actor, and
  \<open>tell(x.clone())\<close> of the module \<open>akka_style\<close>.
\<close>

datatype 'v stmt = LetVar nat 'v | Assign nat 'v | Use nat | SendVar nat | CloneRef | DropRef | Tell nat

text \<open>The variables that own a value and the number of references, after a statement; \<open>None\<close> is \<open>E0382\<close>.\<close>

fun check_stmt :: "'v stmt \<Rightarrow> nat list \<times> nat \<Rightarrow> (nat list \<times> nat) option" where
  "check_stmt (LetVar x v) (live, n) = Some (List.insert x live, n)"
| "check_stmt (Assign x v) (live, n) = (if x \<in> set live then Some (live, n) else None)"
| "check_stmt (Use x) (live, n) = (if x \<in> set live then Some (live, n) else None)"
| "check_stmt (SendVar x) (live, n) = (if x \<in> set live \<and> 0 < n then Some (removeAll x live, n) else None)"
| "check_stmt CloneRef (live, n) = (if 0 < n then Some (live, n + 1) else None)"
| "check_stmt DropRef (live, n) = (if 0 < n then Some (live, n - 1) else None)"
| "check_stmt (Tell x) (live, n) = (if x \<in> set live then Some (live, n) else None)"

fun checks :: "'v stmt list \<Rightarrow> nat list \<times> nat \<Rightarrow> (nat list \<times> nat) option" where
  "checks [] c = Some c"
| "checks (t # ts) c = Option.bind (check_stmt t c) (checks ts)"

definition compiles :: "'v stmt list \<Rightarrow> bool" where
  "compiles p \<longleftrightarrow> checks p ([], 1) \<noteq> None"

subsection \<open>The program\<close>

datatype thread = Looping | Finished | Crashed

record ('s, 'v) iso =
  heap :: "nat \<Rightarrow> 'v"
  fresh :: nat
  owner :: "nat \<Rightarrow> nat option"
  chan :: "nat list"
  refs :: nat
  state :: 's
  thread :: thread

definition spawn_actor :: "'s \<Rightarrow> ('s, 'v) iso" where
  "spawn_actor a = \<lparr>heap = (\<lambda>_. undefined), fresh = 0, owner = Map.empty, chan = [], refs = 1, state = a, thread = Looping\<rparr>"

text \<open>One turn of the thread: \<open>recv\<close> waits, hands out a message, or fails when no sender is left.\<close>

definition thread_step :: "('v \<Rightarrow> 's \<Rightarrow> 's option) \<Rightarrow> ('s, 'v) iso \<Rightarrow> ('s, 'v) iso" where
  "thread_step handle s =
     (if thread s \<noteq> Looping then s
      else case chan s of
          [] \<Rightarrow> if refs s = 0 then s\<lparr>thread := Finished\<rparr> else s
        | p # ps \<Rightarrow>
            (case handle (heap s p) (state s) of
               Some a \<Rightarrow> s\<lparr>chan := ps, state := a\<rparr>
             | None \<Rightarrow> s\<lparr>chan := [], thread := Crashed\<rparr>))"

text \<open>\<open>send\<close> moves the address; the failure of a send to a thread that is gone is ignored.\<close>

definition send_addr :: "nat \<Rightarrow> ('s, 'v) iso \<Rightarrow> ('s, 'v) iso" where
  "send_addr p s = (if thread s = Looping then s\<lparr>chan := chan s @ [p]\<rparr> else s)"

definition clone_ref :: "('s, 'v) iso \<Rightarrow> ('s, 'v) iso" where
  "clone_ref s = s\<lparr>refs := refs s + 1\<rparr>"

text \<open>\<open>tell\<close> drops the handle it is given and does nothing else.\<close>

definition tell :: "nat \<Rightarrow> ('s, 'v) iso \<Rightarrow> ('s, 'v) iso" where
  "tell p s = s"

text \<open>A statement; \<open>None\<close> where a variable owns nothing, or no reference is left.\<close>

definition owned :: "nat \<Rightarrow> ('s, 'v) iso \<Rightarrow> (nat \<Rightarrow> ('s, 'v) iso) \<Rightarrow> ('s, 'v) iso option" where
  "owned x s f = map_option f (owner s x)"

fun client_step :: "'v stmt \<Rightarrow> ('s, 'v) iso \<Rightarrow> ('s, 'v) iso option" where
  "client_step (LetVar x v) s =
     Some (s\<lparr>heap := (heap s)(fresh s := v), owner := (owner s)(x \<mapsto> fresh s), fresh := Suc (fresh s)\<rparr>)"
| "client_step (Assign x v) s = owned x s (\<lambda>p. s\<lparr>heap := (heap s)(p := v)\<rparr>)"
| "client_step (Use x) s = owned x s (\<lambda>p. s)"
| "client_step (SendVar x) s =
     (if refs s = 0 then None else owned x s (\<lambda>p. send_addr p (s\<lparr>owner := (owner s)(x := None)\<rparr>)))"
| "client_step CloneRef s = (if refs s = 0 then None else Some (clone_ref s))"
| "client_step DropRef s = (if refs s = 0 then None else Some (s\<lparr>refs := refs s - 1\<rparr>))"
| "client_step (Tell x) s = owned x s (\<lambda>p. tell p s)"

datatype 'v event = Client "'v stmt" | Thread

fun run_events :: "('v \<Rightarrow> 's \<Rightarrow> 's option) \<Rightarrow> 'v event list \<Rightarrow> ('s, 'v) iso \<Rightarrow> ('s, 'v) iso option" where
  "run_events handle [] s = Some s"
| "run_events handle (Thread # es) s = run_events handle es (thread_step handle s)"
| "run_events handle (Client t # es) s = Option.bind (client_step t s) (run_events handle es)"

fun stmts :: "'v event list \<Rightarrow> 'v stmt list" where
  "stmts [] = []"
| "stmts (Thread # es) = stmts es"
| "stmts (Client t # es) = t # stmts es"

subsection \<open>The reference: every message copied when it is sent\<close>

fun copy_stmt :: "'v stmt \<Rightarrow> (nat \<Rightarrow> 'v option) \<times> 'v list \<Rightarrow> (nat \<Rightarrow> 'v option) \<times> 'v list" where
  "copy_stmt (LetVar x v) (env, sent) = (env(x \<mapsto> v), sent)"
| "copy_stmt (Assign x v) (env, sent) = (env(x \<mapsto> v), sent)"
| "copy_stmt (SendVar x) (env, sent) = (env, sent @ (case env x of Some v \<Rightarrow> [v] | None \<Rightarrow> []))"
| "copy_stmt _ (env, sent) = (env, sent)"

definition sent_values :: "'v stmt list \<Rightarrow> 'v list" where
  "sent_values p = snd (fold copy_stmt p (Map.empty, []))"

text \<open>The actor alone on a list of messages; \<open>None\<close> when it panics.\<close>

fun feed :: "('v \<Rightarrow> 's \<Rightarrow> 's option) \<Rightarrow> 'v list \<Rightarrow> 's \<Rightarrow> 's option" where
  "feed handle [] a = Some a"
| "feed handle (v # vs) a = Option.bind (handle v a) (feed handle vs)"

lemma feed_append [simp]: "feed handle (vs @ ws) a = Option.bind (feed handle vs a) (feed handle ws)"
  proof (induction vs arbitrary: a)
  case (Cons v vs)
  then show ?case by (cases "handle v a") simp_all
qed simp

subsection \<open>Every message has one owner\<close>

definition one_owner :: "('s, 'v) iso \<Rightarrow> bool" where
  "one_owner s \<longleftrightarrow> (\<forall>x y p. owner s x = Some p \<longrightarrow> owner s y = Some p \<longrightarrow> x = y) \<and> distinct (chan s) \<and>
     (\<forall>x p. owner s x = Some p \<longrightarrow> p < fresh s \<and> p \<notin> set (chan s)) \<and> (\<forall>p\<in>set (chan s). p < fresh s)"

definition owns :: "nat list \<times> nat \<Rightarrow> ('s, 'v) iso \<Rightarrow> bool" where
  "owns c s \<longleftrightarrow> dom (owner s) = set (fst c) \<and> refs s = snd c"

text \<open>What the thread has made of the values sent.\<close>

definition progress :: "('v \<Rightarrow> 's \<Rightarrow> 's option) \<Rightarrow> 's \<Rightarrow> 'v list \<Rightarrow> ('s, 'v) iso \<Rightarrow> bool" where
  "progress handle a sent s \<longleftrightarrow>
     (case thread s of
        Looping \<Rightarrow> \<exists>k\<le>length sent. feed handle (take k sent) a = Some (state s) \<and> map (heap s) (chan s) = drop k sent
      | Finished \<Rightarrow> refs s = 0 \<and> chan s = [] \<and> feed handle sent a = Some (state s)
      | Crashed \<Rightarrow> chan s = [] \<and> (\<exists>k\<le>length sent. feed handle (take k sent) a = None))"

definition iso_inv :: "('v \<Rightarrow> 's \<Rightarrow> 's option) \<Rightarrow> 's \<Rightarrow> nat list \<times> nat \<Rightarrow> (nat \<Rightarrow> 'v option) \<times> 'v list \<Rightarrow> ('s, 'v) iso \<Rightarrow> bool" where
  "iso_inv handle a c r s \<longleftrightarrow> one_owner s \<and> owns c s \<and>
     (\<forall>x p. owner s x = Some p \<longrightarrow> fst r x = Some (heap s p)) \<and> progress handle a (snd r) s"

lemmas iso_defs = iso_inv_def one_owner_def owns_def

lemma spawn_inv: "iso_inv handle a ([], 1) (Map.empty, []) (spawn_actor a)"
  by (simp add: iso_defs progress_def spawn_actor_def)

lemma progress_cong:
  assumes "thread s' = thread s" "state s' = state s" "chan s' = chan s" "thread s = Finished \<longrightarrow> refs s' = 0"
    and "\<forall>p\<in>set (chan s). heap s' p = heap s p" "progress handle a sent s"
  shows "progress handle a sent s'"
proof -
  have "map (heap s') (chan s) = map (heap s) (chan s)" using assms(5) by simp
  then show ?thesis using assms(1-4,6) by (simp add: progress_def split: thread.splits del: map_eq_conv)
qed

lemma progress_send:
  assumes "progress handle a sent s" "refs s \<noteq> 0"
  shows "progress handle a (sent @ [heap s p]) (send_addr p (s\<lparr>owner := ow\<rparr>))"
proof (cases "thread s")
  case Looping
  then obtain k where k: "k \<le> length sent" "feed handle (take k sent) a = Some (state s)" "map (heap s) (chan s) = drop k sent"
    using assms(1) by (auto simp: progress_def)
  then show ?thesis using Looping by (auto simp: progress_def send_addr_def intro!: exI [of _ k])
next
  case Crashed
  then obtain k where "k \<le> length sent" "feed handle (take k sent) a = None" "chan s = []"
    using assms(1) by (auto simp: progress_def)
  then show ?thesis using Crashed by (auto simp: progress_def send_addr_def intro!: exI [of _ k])
qed (use assms in \<open>simp add: progress_def\<close>)

lemma thread_inv:
  assumes "iso_inv handle a c r s"
  shows "iso_inv handle a c r (thread_step handle s)"
proof (cases "thread s = Looping")
  case True
  then obtain k where k: "k \<le> length (snd r)" "feed handle (take k (snd r)) a = Some (state s)"
      "map (heap s) (chan s) = drop k (snd r)"
    using assms by (auto simp: iso_inv_def progress_def)
  show ?thesis
  proof (cases "chan s")
    case Nil
    then have "k = length (snd r)" using k by simp
    then show ?thesis using assms True Nil k by (auto simp: thread_step_def iso_defs progress_def)
  next
    case (Cons p ps)
    have d: "drop k (snd r) = heap s p # map (heap s) ps" using k(3) Cons by simp
    then have k': "k < length (snd r)" "snd r ! k = heap s p" "drop (Suc k) (snd r) = map (heap s) ps"
      by (metis drop_eq_Nil list.distinct(1) not_le, metis nth_via_drop, metis drop_Suc list.sel(3) tl_drop)
    then have f: "feed handle (take (Suc k) (snd r)) a = handle (heap s p) (state s)"
      using k(2) by (cases "handle (heap s p) (state s)") (simp_all add: take_Suc_conv_app_nth)
    show ?thesis
    proof (cases "handle (heap s p) (state s)")
      case None
      then show ?thesis using assms True Cons f k'(1)
        by (auto simp: thread_step_def iso_defs progress_def intro!: exI [of _ "Suc k"])
    next
      case (Some b)
      then show ?thesis using assms True Cons f k'
        by (auto simp: thread_step_def iso_defs progress_def intro!: exI [of _ "Suc k"])
    qed
  qed
qed (use assms in \<open>simp add: thread_step_def\<close>)

text \<open>The check fails exactly where a statement has nothing to work on, and else keeps the invariant.\<close>

lemma client_inv:
  assumes inv: "iso_inv handle a c r s"
  shows "case check_stmt t c of None \<Rightarrow> client_step t s = None
    | Some c' \<Rightarrow> \<exists>s'. client_step t s = Some s' \<and> iso_inv handle a c' (copy_stmt t r) s'"
proof -
  obtain live n where c: "c = (live, n)" by (cases c)
  obtain env sent where r: "r = (env, sent)" by (cases r)
  have o: "one_owner s" "dom (owner s) = set live" "refs s = n" "\<And>x p. owner s x = Some p \<Longrightarrow> env x = Some (heap s p)"
    and pr: "progress handle a sent s"
    using inv by (auto simp: iso_inv_def owns_def c r)
  have ex: "(\<exists>p. owner s x = Some p) \<longleftrightarrow> x \<in> set live" for x using o(2) by (auto simp: dom_def)
  note pc = progress_cong [OF _ _ _ _ _ pr]
  show ?thesis
  proof (cases t)
    case (LetVar x v)
    let ?s = "s\<lparr>heap := (heap s)(fresh s := v), owner := (owner s)(x \<mapsto> fresh s), fresh := Suc (fresh s)\<rparr>"
    have "one_owner ?s" using o(1) by (fastforce simp: one_owner_def)
    moreover have "owns (List.insert x live, n) ?s" using o(2,3) by (simp add: owns_def)
    moreover have "\<forall>y p. owner ?s y = Some p \<longrightarrow> (env(x \<mapsto> v)) y = Some (heap ?s p)"
      using o(1,4) by (fastforce simp: one_owner_def)
    moreover have "progress handle a sent ?s" using o(1,3) pr by (intro pc) (auto simp: one_owner_def progress_def)
    ultimately show ?thesis by (simp add: LetVar c r iso_inv_def)
  next
    case (Assign x v)
    show ?thesis
    proof (cases "owner s x")
      case None
      then show ?thesis using ex [of x] by (simp add: Assign c owned_def)
    next
      case (Some q)
      let ?s = "s\<lparr>heap := (heap s)(q := v)\<rparr>"
      have "\<forall>y p. owner ?s y = Some p \<longrightarrow> (env(x \<mapsto> v)) y = Some (heap ?s p)"
        using o(1,4) Some by (auto simp: one_owner_def)
      moreover have "progress handle a sent ?s" using o(1) pr Some by (intro pc) (auto simp: one_owner_def progress_def)
      ultimately show ?thesis
        using o(1-3) Some ex [of x] by (auto simp: Assign c r iso_defs owned_def)
    qed
  next
    case (SendVar x)
    show ?thesis
    proof (cases "owner s x")
      case None
      then show ?thesis using ex [of x] o(3) by (simp add: SendVar c owned_def)
    next
      case (Some q)
      let ?s = "send_addr q (s\<lparr>owner := (owner s)(x := None)\<rparr>)"
      have "one_owner ?s" using o(1) Some by (auto simp: one_owner_def send_addr_def)
      moreover have "owns (removeAll x live, n) ?s" using o(2,3) by (auto simp: owns_def send_addr_def)
      moreover have "\<forall>y p. owner ?s y = Some p \<longrightarrow> env y = Some (heap ?s p)" using o(4) by (auto simp: send_addr_def)
      ultimately show ?thesis
        using o(3,4) Some ex [of x] progress_send [OF pr] by (auto simp: SendVar c r iso_inv_def owned_def)
    qed
  next
    case CloneRef
    have "progress handle a sent (clone_ref s)" if "n \<noteq> 0"
      using o(3) pr that by (intro pc) (auto simp: clone_ref_def progress_def)
    then show ?thesis using o c r by (auto simp: CloneRef iso_defs clone_ref_def)
  next
    case DropRef
    have "progress handle a sent (s\<lparr>refs := n - 1\<rparr>)" if "n \<noteq> 0"
      using o(3) pr that by (intro pc) (auto simp: progress_def)
    then show ?thesis using o c r by (auto simp: DropRef iso_defs)
  qed (use o pr ex c r in \<open>auto simp: iso_defs owned_def tell_def\<close>)
qed

lemma run_inv:
  "iso_inv handle a c r s \<Longrightarrow>
     case checks (stmts es) c of None \<Rightarrow> run_events handle es s = None
     | Some c' \<Rightarrow> \<exists>s'. run_events handle es s = Some s' \<and> iso_inv handle a c' (fold copy_stmt (stmts es) r) s'"
proof (induction es arbitrary: c r s rule: stmts.induct)
  case (3 t es)
  show ?case
  proof (cases "check_stmt t c")
    case None
    then show ?thesis using client_inv [OF 3(2), of t] by simp
  next
    case (Some c')
    then obtain s' where "client_step t s = Some s'" "iso_inv handle a c' (copy_stmt t r) s'"
      using client_inv [OF 3(2), of t] by auto
    then show ?thesis using 3(1) [of c' "copy_stmt t r" s'] Some by (simp only: stmts.simps checks.simps run_events.simps fold.simps comp_def bind.simps)
  qed
next
  case (2 es)
  then show ?case using 2(1) [OF thread_inv [OF 2(2)]] by (simp only: stmts.simps run_events.simps)
qed simp

subsection \<open>What the compiler's check buys\<close>

text \<open>
  C38: Moving messages isolates. The compiler's check accepts the client's statements exactly when no schedule of
  client and actor thread can meet a variable whose message is gone. Then, in every schedule, no message
  has two owners, and the actor has been given, in order and each once, the values the messages had when they
  were sent, the rest of them waiting in the channel unchanged: as if each message had been copied. A
  thread that has ended normally has handled them all, and no reference is left; it ends otherwise only
  where the handler panics.
\<close>

theorem send_isolates:
  "(compiles (stmts es) \<longleftrightarrow> run_events handle es (spawn_actor a) \<noteq> None) \<and>
   (\<forall>s. run_events handle es (spawn_actor a) = Some s \<longrightarrow> one_owner s \<and> progress handle a (sent_values (stmts es)) s)"
  using run_inv [OF spawn_inv [of handle a], of es]
  by (auto simp: compiles_def iso_inv_def sent_values_def split: option.splits)

text \<open>
  The three programs of the documentation, with variable 0 for \<open>order\<close>: the first does not compile; the second
  does, and the actor is given 200 in every schedule; the third, which shares the order, compiles too.
\<close>

definition proof1 :: "nat stmt list" where
  "proof1 = [LetVar 0 100, SendVar 0, Use 0]"

definition proof2 :: "nat stmt list" where
  "proof2 = [LetVar 0 100, Assign 0 200, SendVar 0]"

definition proof3 :: "nat stmt list" where
  "proof3 = [LetVar 0 100, Tell 0, Assign 0 200]"

lemma documented_checks: "\<not> compiles proof1" "compiles proof2" "compiles proof3"
  by (simp_all add: compiles_def proof1_def proof2_def proof3_def)

lemma send_isolates_witness:
  "\<exists>s. run_events (\<lambda>v a. Some (v # a)) (map Client proof2 @ [Thread, Client (LetVar 0 7)]) (spawn_actor []) = Some s \<and>
     one_owner s \<and> progress (\<lambda>v a. Some (v # a)) [] [200] s \<and> state s = [200]"
proof -
  let ?es = "map Client proof2 @ [Thread, Client (LetVar 0 7)]"
  have c: "compiles (stmts ?es)" "sent_values (stmts ?es) = [200]"
    by (simp_all add: compiles_def proof2_def sent_values_def)
  then obtain s where s: "run_events (\<lambda>v a. Some (v # a)) ?es (spawn_actor []) = Some s" "one_owner s"
      "progress (\<lambda>v a. Some (v # a)) [] [200] s"
    using send_isolates [of ?es "\<lambda>v a. Some (v # a)" "[]"] by auto
  have "state s = [200]"
    using s(1) by (auto simp: proof2_def owned_def send_addr_def spawn_actor_def thread_step_def)
  then show ?thesis using s by blast
qed

subsection \<open>The demonstration\<close>

text \<open>
  \<open>examples/demo.rs\<close>: an engine that adds up orders (a number and a quantity) and reports each; \<open>main\<close> keeps the
  receiving end of the reports, so sending one does not fail.
\<close>

type_synonym demo_order = "32 word \<times> 32 word"

record demo_engine =
  demo_filled :: "32 word"
  demo_out :: "(32 word \<times> 32 word \<times> 32 word) list"

definition demo_handle :: "demo_order \<Rightarrow> demo_engine \<Rightarrow> demo_engine option" where
  "demo_handle order e =
     (case order of (k, q) \<Rightarrow>
        let f = demo_filled e + q in Some (e\<lparr>demo_filled := f, demo_out := demo_out e @ [(k, q, f)]\<rparr>))"

definition demo_main :: "demo_order stmt list" where
  "demo_main = concat (map (\<lambda>k. [LetVar 0 (k, k * 100), SendVar 0]) [1, 2, 3])"

text \<open>In every schedule the reports are, in order, some or all of the three expected.\<close>

theorem demo_reports:
  assumes "stmts es = demo_main" "run_events demo_handle es (spawn_actor \<lparr>demo_filled = 0, demo_out = []\<rparr>) = Some s"
  shows "\<exists>k. demo_out (state s) = take k [(1, 100, 100), (2, 200, 300), (3, 300, 600)]"
proof -
  let ?e = "\<lparr>demo_filled = 0, demo_out = []\<rparr>" and ?sent = "[(1, 100), (2, 200), (3, 300)] :: demo_order list"
  have c: "checks demo_main ([], 1) = Some ([], 1)" and v: "snd (fold copy_stmt demo_main (Map.empty, [])) = ?sent"
    by (simp_all add: demo_main_def)
  from run_inv [OF spawn_inv [of demo_handle ?e], of es] assms c v
  have p: "progress demo_handle ?e ?sent s" "refs s = 1" by (auto simp: iso_inv_def owns_def)
  have f: "feed demo_handle vs a \<noteq> None" for vs a
    by (induction vs arbitrary: a) (auto simp: demo_handle_def Let_def)
  have "thread s = Looping" using p by (auto simp: progress_def f simp del: not_None_eq split: thread.splits)
  then obtain k where k: "k \<le> Suc (Suc (Suc 0))" "feed demo_handle (take k ?sent) ?e = Some (state s)" using p(1) by (auto simp: progress_def)
  then have "demo_out (state s) = take k [(1, 100, 100), (2, 200, 300), (3, 300, 600)]"
    by (auto simp: le_Suc_eq demo_handle_def Let_def eq_commute [of _ "state s"])
  then show ?thesis ..
qed

end
