(* ===== verification/Supervision.thy ===== *)
theory Supervision
  imports Contract "HOL-Library.Sublist"
begin

text \<open>
  The program of \<open>core/examples/supervision.rs\<close>: a worker that panics on a poisoned job and is rebuilt by its
  supervisor. What one worker after the other does is compared with a plain function of the
  jobs; the contract of the core loop gives what each of them did, the life cycle of a cell how they follow
  each other.
\<close>

subsection \<open>The program\<close>

text \<open>
  The jobs have a mailbox. The static counter \<open>BUILDS\<close> and the standard output are two more that nobody
  receives from: the value of the counter is the number of marks in one, the lines printed are in the other.
\<close>

type_synonym i32 = "32 word"

datatype worker_line = Restarted u32 | Processed u32 i32 u32

datatype worker_msg = Job i32 | Built | Line worker_line

record worker =
  generation :: u32
  processed :: u32

text \<open>\<open>Worker::new\<close>: \<open>fetch_add\<close> gives the value before.\<close>

definition worker_new :: "nat \<Rightarrow> worker_msg world \<Rightarrow> worker option \<times> worker_msg world" where
  "worker_new builds w =
     (Some \<lparr>generation = of_nat (length (items (mail w builds))), processed = 0\<rparr>, deposit builds Built w)"

definition worker_restart :: "nat \<Rightarrow> (worker, worker_msg) hook" where
  "worker_restart out a w = (Some a, deposit out (Line (Restarted (generation a))) w)"

fun worker_handle :: "nat \<Rightarrow> worker_msg \<Rightarrow> (worker, worker_msg) hook" where
  "worker_handle out (Job job) a w =
     (if job = 0 then (None, w)
      else let a = a\<lparr>processed := processed a + 1\<rparr>
           in (Some a, deposit out (Line (Processed (generation a) job (processed a))) w))"
| "worker_handle out _ a w = (None, w)"

definition worker_ops :: "nat \<Rightarrow> (worker, worker_msg) actor_ops" where
  "worker_ops out = \<lparr>op_handle = worker_handle out, op_start = \<lambda>a w. (Some a, w),
     op_restart = worker_restart out, op_stop = \<lambda>a w. (Some a, w)\<rparr>"

text \<open>The cell of \<open>spawn_on_supervised(0, Worker::new)\<close>, whose first worker has been built.\<close>

definition worker_cell :: "nat \<Rightarrow> nat \<Rightarrow> restart_policy \<Rightarrow> (worker, worker_msg) cell" where
  "worker_cell builds i p = \<lparr>actor = \<lparr>generation = 0, processed = 0\<rparr>, rx = i, factory = Some (worker_new builds),
     cell_policy = p, restarts = restart_state_default, metrics = None\<rparr>"

subsection \<open>The reference\<close>

text \<open>
  The number of restarts, the jobs done since the last one and the lines printed, for a list of jobs: a poisoned
  job only brings in the next generation.
\<close>

type_synonym progress = "nat \<times> nat \<times> worker_line list"

fun next_generation :: "progress \<Rightarrow> progress" where
  "next_generation (g, p, ls) = (g + 1, 0, ls @ [Restarted (of_nat (g + 1))])"

fun one_more :: "i32 \<Rightarrow> progress \<Rightarrow> progress" where
  "one_more job (g, p, ls) = (g, p + 1, ls @ [Processed (of_nat g) job (of_nat (p + 1))])"

fun work :: "worker_msg \<Rightarrow> progress \<Rightarrow> progress" where
  "work (Job job) st = (if job = 0 then next_generation st else one_more job st)"
| "work _ st = next_generation st"

definition worked :: "worker_msg list \<Rightarrow> progress" where
  "worked ms = fold work ms (0, 0, [])"

text \<open>The same, by what the trace says has happened.\<close>

fun happen :: "worker_msg entry \<Rightarrow> progress \<Rightarrow> progress" where
  "happen (EvHandle (Job job) True) st = one_more job st"
| "happen (EvRebuild True) st = next_generation st"
| "happen _ st = st"

definition happened :: "worker_msg entry list \<Rightarrow> progress" where
  "happened es = fold happen es (0, 0, [])"

fun good :: "worker_msg \<Rightarrow> bool" where
  "good (Job job) = (job \<noteq> 0)"
| "good _ = False"

fun entry_ok :: "worker_msg entry \<Rightarrow> bool" where
  "entry_ok (EvHandle m b) = (b \<longleftrightarrow> good m)"
| "entry_ok (EvStart b) = b"
| "entry_ok (EvRebuild b) = b"
| "entry_ok _ = True"

lemma worked_simps [simp]: "worked [] = (0, 0, [])" "worked (ms @ [m]) = work m (worked ms)"
  by (simp_all add: worked_def)

lemma happened_simps [simp]: "happened [] = (0, 0, [])" "happened (es @ [e]) = happen e (happened es)"
  by (simp_all add: happened_def)

lemma poisoned:
  "\<not> good m \<Longrightarrow> work m st = next_generation st \<and> happen (EvHandle m False) st = st"
  "good m \<Longrightarrow> work m st = happen (EvHandle m True) st"
  by (cases m; simp)+

text \<open>Where the life cycle is right, the two agree up to a last poisoned job without a restart.\<close>

lemma happened_worked:
  "list_all entry_ok es \<Longrightarrow> phase_of es \<noteq> Wrong \<Longrightarrow>
     worked (msgs es) = happened es \<and> phase_of es \<notin> {Broken, Failed} \<or>
     worked (msgs es) = next_generation (happened es) \<and> phase_of es \<in> {Broken, Dropped}"
proof (induction es rule: rev_induct)
  case Nil
  then show ?case by (simp add: phase_of_def)
next
  case (snoc e es)
  have p: "phase_of (es @ [e]) = phase_step (phase_of es) e" by (simp add: phase_of_append)
  have "phase_of es \<noteq> Wrong" using snoc.prems(2) p by (cases e) auto
  then show ?case
    using snoc p by (cases "(phase_of es, e)" rule: phase_step.cases) (auto simp: poisoned split: if_splits)
qed

subsection \<open>The laws of the contract\<close>

definition worker_world :: "nat \<Rightarrow> nat \<Rightarrow> nat \<Rightarrow> worker_msg world \<Rightarrow> bool" where
  "worker_world i out builds w \<longleftrightarrow> list_all entry_ok (trace w i) \<and>
     items (mail w out) = map Line (snd (snd (happened (trace w i)))) \<and>
     length (items (mail w builds)) = fst (happened (trace w i)) + 1"

definition worker_state :: "worker \<Rightarrow> worker_msg entry list \<Rightarrow> bool" where
  "worker_state a es \<longleftrightarrow> a = \<lparr>generation = of_nat (fst (happened es)), processed = of_nat (fst (snd (happened es)))\<rparr>"

lemma worker_contract:
  assumes "distinct [i, out, builds]"
    and "\<And>w. trace (env w) i = trace w i" "\<And>w j. j \<in> {out, builds} \<Longrightarrow> items (mail (env w) j) = items (mail w j)"
  shows "actor_contract env (worker_ops out) {i} (worker_world i out builds) (\<lambda>_. worker_state) (\<lambda>_ mk. mk = worker_new builds)"
proof (unfold_locales, goal_cases)
  case (4 j w a m mb r w')
  obtain g p ls where h: "happened (trace w i) = (g, p, ls)" by (metis prod_cases3)
  show ?case
    using 4 assms(1) h
    by (cases m) (auto simp: worker_ops_def worker_world_def worker_state_def deposit_def log_ev_def Let_def split: if_splits)
next
  case (5 j w mk r w')
  obtain g p ls where h: "happened (trace w i) = (g, p, ls)" by (metis prod_cases3)
  show ?case
    using 5 assms(1) h
    by (auto simp: rebuild_def worker_ops_def worker_new_def worker_restart_def worker_world_def worker_state_def deposit_def log_ev_def)
qed (use assms in \<open>auto simp: worker_ops_def worker_world_def worker_state_def log_ev_def mb_drop_receiver_def\<close>)

lemma worker_user_ok: "(\<And>w. sends w (env w)) \<Longrightarrow> user_ok env (worker_ops out)" "cell_ok (worker_cell builds i p)"
proof -
  have "sends w (snd (worker_handle out m a w))" for m a w
    by (cases m) (simp_all add: Let_def deposit_sends)
  then show "user_ok env (worker_ops out)" if "\<And>w. sends w (env w)"
    using that by (simp add: user_ok_def worker_ops_def worker_restart_def deposit_sends)
qed (simp add: cell_ok_def worker_cell_def worker_new_def deposit_sends)

subsection \<open>One generation after the other\<close>

text \<open>
  C10: The supervised worker does what the plain function does, under any restart policy and whatever is sent to it:
  the lines printed are those of a worker that a poisoned job replaces by the next generation, which
  starts counting anew, so no good job is lost, done twice or done out of order, and \<open>BUILDS\<close> counts the first worker and
  each restart. The only other end is that the restart policy refuses a restart: then the worker is gone, and just
  the last restart is missing from the lines and from the count.
\<close>

theorem supervised_worker:
  assumes "distinct [i, out, builds]" "\<And>v. sends v (env v)"
    and "\<And>v j. j \<in> {out, builds} \<Longrightarrow> items (mail (env v) j) = items (mail v j)"
    and "all_adds runs = [worker_cell builds i p]" "1 \<le> pol_batch pol" "\<forall>j. trace w j = []"
    and "items (mail w out) = []" "items (mail w builds) = [Built]"
    and "core_loop env (worker_ops out) pol runs core_new w = Some r"
    and "(cells, w') = (case r of Inl (k, v) \<Rightarrow> (actors k, v) | Inr v \<Rightarrow> ([], v))"
    and "worked (handled w' i) = (g, n, ls)"
  shows "items (mail w' out) = map Line ls \<and> length (items (mail w' builds)) = g + 1 \<or>
    cells = [] \<and> ls \<noteq> [] \<and> items (mail w' out) = map Line (butlast ls) \<and> length (items (mail w' builds)) = g"
proof -
  have tr: "trace (env v) = trace v" for v using assms(2) by (simp add: sends_def)
  have contract: "actor_contract env (worker_ops out) {i} (worker_world i out builds) (\<lambda>_. worker_state) (\<lambda>_ mk. mk = worker_new builds)"
    by (rule worker_contract [OF assms(1)]) (simp_all add: tr assms(3))
  have start: "worker_world i out builds w" using assms(6-8) by (simp add: worker_world_def)
  have "actor_contract.all_fit {i} (\<lambda>_. worker_state) (\<lambda>_ mk. mk = worker_new builds) (actors core_new @ all_adds runs) w"
    unfolding actor_contract.all_fit_def [OF contract] actor_contract.fits_def [OF contract]
    using assms(4,6) by (simp add: core_new_def worker_cell_def worker_state_def)
  note kept = actor_contract.core_loop_keeps [OF contract start this assms(9)]
  have ok: "worker_world i out builds w'" using kept assms(10) by (auto split: sum.splits prod.splits)
  have mine: "rx c = i" if "c \<in> set cells" for c
    using kept assms(10) that
    by (auto simp: actor_contract.all_fit_def [OF contract] actor_contract.fits_def [OF contract] split: sum.splits prod.splits)
  have "run_ok w [] r"
    by (rule core_loop_spec [OF worker_user_ok(1) [OF assms(2)] assms(5) _ _ assms(9)])
      (use assms(6) in \<open>simp_all add: assms(4) worker_user_ok(2) life_inv_def core_new_def phase_of_def\<close>)
  then have "life_inv cells w' []" using assms(10) by (auto simp: run_ok_def split: sum.splits prod.splits)
  then have life: "phase_of (trace w' i) \<in> (if i \<in> rx ` set cells then {Running} else {Fresh, Dropped})"
    by (auto simp: life_inv_def split: if_splits)
  obtain g' n' ls' where h: "happened (trace w' i) = (g', n', ls')" by (metis prod_cases3)
  have saw: "items (mail w' out) = map Line ls'" "length (items (mail w' builds)) = g' + 1"
    using ok h by (simp_all add: worker_world_def)
  have "phase_of (trace w' i) \<noteq> Wrong" using life by (auto split: if_splits)
  with happened_worked [of "trace w' i"] ok
  consider "worked (handled w' i) = happened (trace w' i)"
    | "worked (handled w' i) = next_generation (happened (trace w' i))" "phase_of (trace w' i) \<in> {Broken, Dropped}"
    by (auto simp: worker_world_def handled_def)
  then show ?thesis
  proof cases
    case 1
    then show ?thesis using assms(11) h saw by simp
  next
    case 2
    then have "i \<notin> rx ` set cells" using life by (auto split: if_splits)
    then have "cells = []" using mine by (cases cells) auto
    then show ?thesis using 2(1) assms(11) h saw by auto
  qed
qed

text \<open>The program as \<open>main\<close> sets it up: the jobs 1, 2, 0, 3, 4 make two generations.\<close>

definition jobs_world :: "worker_msg world" where
  "jobs_world = \<lparr>mail = (\<lambda>_. mb_new 1024)(0 := (mb_new 1024)\<lparr>items := map Job [1, 2, 0, 3, 4]\<rparr>, 2 := (mb_new 0)\<lparr>items := [Built]\<rparr>),
     now = 0, trace = (\<lambda>_. []), posted = (\<lambda>_. [])(0 := map Job [1, 2, 0, 3, 4], 2 := [Built])\<rparr>"

interpretation main_worker:
  actor_contract id "worker_ops 1" "{0}" "worker_world 0 1 2" "\<lambda>_. worker_state" "\<lambda>_ mk. mk = worker_new 2"
  by (rule worker_contract) simp_all

lemma jobs_run:
  "\<exists>k w. core_loop id (worker_ops 1) policy_default [([Add (worker_cell 2 0 default_supervised)], False)] core_new jobs_world =
     Some (Inl (k, w)) \<and> handled w 0 = map Job [1, 2, 0, 3, 4] \<and> actors k \<noteq> []"
  by (simp add: core_eval worker_cell_def worker_ops_def jobs_world_def deposit_def after_panic_def rebuild_def
      worker_new_def worker_restart_def allow_restart_def default_supervised_def restart_state_default_def handled_def)

theorem supervised_worker_witness:
  "\<exists>k w. core_loop id (worker_ops 1) policy_default [([Add (worker_cell 2 0 default_supervised)], False)] core_new jobs_world =
       Some (Inl (k, w)) \<and>
     items (mail w 1) = map Line [Processed 0 1 1, Processed 0 2 2, Restarted 1, Processed 1 3 1, Processed 1 4 2] \<and>
     length (items (mail w 2)) = 2"
proof -
  obtain k w where r: "core_loop id (worker_ops 1) policy_default [([Add (worker_cell 2 0 default_supervised)], False)] core_new jobs_world =
      Some (Inl (k, w))" "handled w 0 = map Job [1, 2, 0, 3, 4]" "actors k \<noteq> []"
    using jobs_run by blast
  have d: "worked (handled w 0) = (1, 2, [Processed 0 1 1, Processed 0 2 2, Restarted 1, Processed 1 3 1, Processed 1 4 2])"
    by (simp add: r(2) worked_def)
  show ?thesis
    using supervised_worker [OF _ _ _ _ _ _ _ _ r(1) _ d, where builds = 2 and p = default_supervised and cells = "actors k"] r(1,3)
    by (simp add: all_adds_def policy_default_def jobs_world_def)
qed

end
