(* ===== verification/Requests.thy ===== *)
theory Requests
  imports Apps Ask
begin

text \<open>
  Requests end to end: the caller's side of \<open>ask\<close> (theory \<open>Ask\<close>) together with actors that answer through
  responders while the core loop runs them (theory \<open>Apps\<close>): the store of \<open>request_reply.rs\<close>, the shards of
  \<open>sharded.rs\<close> and the counters of \<open>tokio_interop.rs\<close>. What the two sides need of each other is the locale
  \<open>answering\<close>.
\<close>

subsection \<open>Callers and answers\<close>

lemma answer_replied: "ask_run h as s = Some t \<Longrightarrow> Ask.answer t = Some v \<Longrightarrow> Ask.answer s = Some v \<or> Reply v \<in> set as"
proof (induction as arbitrary: s)
  case (Cons a as)
  then obtain u where u: "ask_act h a s = Some u" "ask_run h as u = Some t" by (auto split: option.splits)
  have "Ask.answer u = Ask.answer s \<or> (\<exists>x. a = Reply x \<and> Ask.answer u = Some x)"
  proof (cases a)
    case (CallerStep e)
    then show ?thesis
      using u(1) by (auto simp: touch_def drop_cell_def drop_ref_def Let_def
          split: caller_pc.splits option.splits if_splits cell_holding.splits)
  next
    case RespStep
    then show ?thesis
      using u(1) by (auto simp: touch_def drop_cell_def drop_ref_def Let_def
          split: resp_pc.splits option.splits if_splits cell_holding.splits)
  qed (use u(1) in \<open>auto split: if_splits\<close>)
  then show ?case using Cons.IH [OF u(2) Cons.prems(2)] by auto
qed simp

text \<open>
  A call whose responder is only ever used to reply \<open>v\<close>: if it returns a value, that is \<open>v\<close>, and once it has been
  used, a few steps of both sides end it so.
\<close>

definition returns_only :: "cell_holding \<Rightarrow> 'r ask \<Rightarrow> 'r \<Rightarrow> bool" where
  "returns_only h s v \<longleftrightarrow>
     (\<forall>x. caller s = KDone (Ok x) \<longrightarrow> x = v) \<and>
     (caller s = KWait \<and> Ask.answer s \<noteq> None \<longrightarrow>
        (\<exists>m \<le> 3. \<exists>n \<le> 4. \<exists>t. ask_run h (replicate m RespStep @ replicate n (CallerStep False)) s = Some t \<and>
           caller t = KDone (Ok v)))"

lemma call_returns_only:
  assumes "ask_run h as (ask_new h) = Some s" "SendClosed True \<notin> set as \<or> h = Owned" "\<And>x. Reply x \<in> set as \<Longrightarrow> x = v"
  shows "returns_only h s v"
proof -
  have I: "ask_inv h s" using ask_schedule_inv [OF assms(1,2)] .
  have a: "x = v" if "Ask.answer s = Some x" for x
    using answer_replied [OF assms(1) that] assms(3) by (auto simp: ask_new_def)
  have "x = v" if "caller s = KDone (Ok x)" for x
    using left_result [OF I that] a by simp
  moreover have "\<exists>m \<le> 3. \<exists>n \<le> 4. \<exists>t. ask_run h (replicate m RespStep @ replicate n (CallerStep False)) s = Some t \<and>
      caller t = KDone (Ok v)" if w: "caller s = KWait" "Ask.answer s \<noteq> None"
  proof -
    have "resp s \<notin> {RMsg, RHeld}" using inv_resp [OF I] w(2) by auto
    from resp_finishes [OF this, of h] obtain t where t: "ask_run h (replicate (resp_left (resp s)) RespStep) s = Some t"
        "resp t = RGone" "caller t = KWait" "Ask.answer t = Some v"
      using w a by auto
    have "ask_inv h t"
      using ask_runs_inv [OF I t(1)] by simp
    from caller_finishes [OF this t(3,2), of False] t(4) obtain u
      where "ask_run h (replicate 4 (CallerStep False)) t = Some u" "caller u = KDone (Ok v)" by auto
    moreover have "resp_left (resp s) \<le> 3" by (cases "resp s") simp_all
    ultimately show ?thesis using t(1) by (metis (no_types, lifting) ask_run_append option.simps(5) order_refl)
  qed
  ultimately show ?thesis by (simp add: returns_only_def)
qed

subsection \<open>Actors that answer\<close>

text \<open>
  \<open>replies\<close> are the answers given so far, \<open>spec before m\<close> those that message \<open>m\<close> should get after the messages
  \<open>before\<close>, and \<open>who m\<close> are the responders that \<open>m\<close> carries.
\<close>

locale answering =
  fixes step :: "'m \<Rightarrow> 's \<Rightarrow> 's" and s0 :: 's and replies :: "'s \<Rightarrow> (nat \<times> 'r) list"
    and spec :: "'m list \<Rightarrow> 'm \<Rightarrow> (nat \<times> 'r) list" and who :: "'m \<Rightarrow> nat set"
  assumes none_at_first: "replies s0 = []"
    and answers: "replies (step m (fold step ms s0)) = replies (fold step ms s0) @ spec ms m"
    and through_own: "(r, v) \<in> set (spec ms m) \<Longrightarrow> r \<in> who m"
begin

lemma reply_from:
  "(r, v) \<in> set (replies (fold step ms s0)) \<Longrightarrow> \<exists>bs m as. ms = bs @ m # as \<and> (r, v) \<in> set (spec bs m)"
proof (induction ms rule: rev_induct)
  case Nil
  then show ?case using none_at_first by simp
next
  case (snoc m ms)
  then consider "(r, v) \<in> set (replies (fold step ms s0))" | "(r, v) \<in> set (spec ms m)" using answers by auto
  then show ?case
  proof cases
    case 1
    then obtain bs n as where "ms = bs @ n # as" "(r, v) \<in> set (spec bs n)" using snoc.IH by blast
    then show ?thesis by (intro exI [of _ bs] exI [of _ n] exI [of _ "as @ [m]"]) simp
  next
    case 2
    then show ?thesis by blast
  qed
qed

text \<open>A responder that occurs in one message only is used to reply to that message.\<close>

lemma one_reply:
  assumes "ms = before @ q # after" "\<forall>m\<in>set (before @ after). r \<notin> who m"
    and "(r, v) \<in> set (replies (fold step ms s0))"
  shows "(r, v) \<in> set (spec before q)"
proof -
  obtain bs m as where m: "ms = bs @ m # as" "(r, v) \<in> set (spec bs m)" using reply_from [OF assms(3)] by blast
  have w: "r \<in> who m" using through_own [OF m(2)] .
  have "length bs = length before"
  proof (rule ccontr)
    assume "length bs \<noteq> length before"
    then have "ms ! length bs \<in> set (before @ after)"
      using assms(1) arg_cong [OF m(1), of length]
      by (cases "length bs < length before") (auto simp: nth_append nth_Cons' intro!: nth_mem)
    then show False using w assms(2) m(1) by simp
  qed
  then have "bs = before" "m = q" using assms(1) m(1) by auto
  then show ?thesis using m(2) by simp
qed

lemma call_answered:
  assumes "ms = before @ q # after" "\<forall>m\<in>set (before @ after). r \<notin> who m" "spec before q = [(r, v)]"
    and "ask_run h as (ask_new h) = Some s" "SendClosed True \<notin> set as \<or> h = Owned"
    and "\<And>x. Reply x \<in> set as \<Longrightarrow> (r, x) \<in> set (replies (fold step ms s0))"
  shows "returns_only h s v"
  by (rule call_returns_only [OF assms(4,5)]) (use one_reply [OF assms(1,2)] assms(3,6) in fastforce)

end

subsection \<open>The store\<close>

fun cmd_responders :: "cmd \<Rightarrow> nat set" where
  "cmd_responders (Set _ _) = {}"
| "cmd_responders (Get _ r) = {r}"
| "cmd_responders (Len r) = {r}"

interpretation store: answering kv_step kv_new kv_replies Apps.answer cmd_responders
proof
  show "kv_replies (kv_step m (fold kv_step ms kv_new)) = kv_replies (fold kv_step ms kv_new) @ Apps.answer ms m" for m ms
    using kv_state [of ms] kv_state [of "ms @ [m]"] by simp
  show "r \<in> cmd_responders m" if "(r, v) \<in> set (Apps.answer ms m)" for r v ms m
    using that by (cases m) auto
qed (simp add: kv_new_def)

text \<open>
  C12: A request to the store is answered end to end. Let the core loop run the store among any other actors,
  let it have handled a request \<open>q\<close>, a \<open>Get\<close> or a \<open>Len\<close>, with the responder \<open>r\<close> of some \<open>ask\<close> or \<open>ask_timeout\<close> call, and let that
  call run in any schedule (but those in which \<open>ask\<close> keeps its responder out of a refused message), its responder being used as the
  store uses it. If the call returns a value, it is the one the reference gives for \<open>q\<close>: the value
  of the last \<open>Set\<close> of that key handled before the \<open>Get\<close>, or the number of keys set before the \<open>Len\<close>; and from the moment of the reply, at most three
  steps of the core and four of the caller make it return so.
\<close>

theorem kv_ask_answered:
  assumes "\<And>v i. i \<in> mine \<Longrightarrow> trace (env v) i = trace v i" "leaves_traces others"
    and "\<forall>c\<in>set (all_adds runs). settled mine (\<lambda>_. kv_new) w c" "distinct (map rx (all_adds runs))"
    and "core_loop env (pure_ops id kv_step id others) pol runs core_new w = Some (Inl (k, w'))" "c \<in> set (actors k)"
    and "actor c = Inl s"
    and "handled w' (rx c) = map Inl (before @ q # after)" "\<forall>m\<in>set (before @ after). r \<notin> cmd_responders m"
    and "Apps.answer before q = [(r, y)]"
    and "ask_run h as (ask_new h) = Some call" "SendClosed True \<notin> set as \<or> h = Owned"
    and "\<And>x. Reply x \<in> set as \<Longrightarrow> (r, x) \<in> set (kv_replies s)"
  shows "(\<forall>x. caller call = KDone (Ok x) \<longrightarrow> x = y) \<and>
    (caller call = KWait \<and> Ask.answer call \<noteq> None \<longrightarrow>
       (\<exists>m \<le> 3. \<exists>n \<le> 4. \<exists>t. ask_run h (replicate m RespStep @ replicate n (CallerStep False)) call = Some t \<and>
          caller t = KDone (Ok y)))"
proof -
  obtain cs where cs: "handled w' (rx c) = map Inl cs" "s = fold kv_step cs kv_new"
    using store_state [OF assms(1-7)] by blast
  then have "cs = before @ q # after" using assms(8) by (metis inj_Inl inj_map_eq_map)
  then have "returns_only h call y"
    using store.call_answered [OF _ assms(9-12)] assms(13) cs(2) by blast
  then show ?thesis by (simp add: returns_only_def)
qed

text \<open>The calls \<open>ask(|reply| Get("apples", reply))\<close> and \<open>ask(Len)\<close> of \<open>main\<close>, beside a greeter.\<close>

lemma kv_call:
  "\<exists>s. ask_run Borrowed [SendOk, CallerStep False, Reply v, RespStep, RespStep, CallerStep False, CallerStep False, RespStep,
       CallerStep False, CallerStep False] (ask_new Borrowed) = Some s \<and> (\<exists>x. caller s = KDone (Ok x))"
  by (simp add: ask_new_def touch_def drop_cell_def state_defs)

theorem kv_ask_answered_witness:
  "\<exists>s t. ask_run Borrowed [SendOk, CallerStep False, Reply (GotValue (Some 3)), RespStep, RespStep, CallerStep False, CallerStep False,
       RespStep, CallerStep False, CallerStep False] (ask_new Borrowed) = Some s \<and> caller s = KDone (Ok (GotValue (Some 3))) \<and>
     ask_run Borrowed [SendOk, CallerStep False, Reply (GotLen 2), RespStep, RespStep, CallerStep False, CallerStep False,
       RespStep, CallerStep False, CallerStep False] (ask_new Borrowed) = Some t \<and> caller t = KDone (Ok (GotLen 2))"
proof -
  obtain k w c s where r: "core_loop id kv_ops policy_default kv_runs core_new kv_world = Some (Inl (k, w))"
      "c \<in> set (actors k)" "actor c = Inl s" "rx c = 0" "handled w 0 = map Inl kv_main"
      "(0, GotValue (Some 3)) \<in> set (kv_replies s)" "(2, GotLen 2) \<in> set (kv_replies s)"
    using kv_main_run by blast
  note store = kv_ask_answered [where mine = UNIV and env = id, OF _ _ kv_settled r(1) [unfolded kv_ops_def] r(2,3)]
  let ?as = "\<lambda>v. [SendOk, CallerStep False, Reply v, RespStep, RespStep, CallerStep False, CallerStep False,
      RespStep, CallerStep False, CallerStep False]"
  let ?init = "[Set ''apples'' 3, Set ''pears'' 7]"
  obtain a x where a: "ask_run Borrowed (?as (GotValue (Some 3))) (ask_new Borrowed) = Some a" "caller a = KDone (Ok x)"
    using kv_call [of "GotValue (Some 3)"] by metis
  obtain b y where b: "ask_run Borrowed (?as (GotLen 2)) (ask_new Borrowed) = Some b" "caller b = KDone (Ok y)"
    using kv_call [of "GotLen 2"] by metis
  have "handled w (rx c) = map Inl (?init @ Get ''apples'' 0 # [Get ''bananas'' 1, Len 2])"
    "handled w (rx c) = map Inl ((?init @ [Get ''apples'' 0, Get ''bananas'' 1]) @ Len 2 # [])"
    using r(4,5) by (simp_all add: kv_main_def)
  note h = this
  have "x = GotValue (Some 3)"
    using store [OF _ _ h(1) _ _ a(1)] a(2) r(6) by simp
  moreover have "y = GotLen 2"
    using store [OF _ _ h(2) _ _ b(1)] b(2) r(7) by simp
  ultimately show ?thesis using a b by blast
qed

subsection \<open>The shards\<close>

fun shard_responders :: "shard_msg \<Rightarrow> nat set" where
  "shard_responders (Bump _) = {}"
| "shard_responders (Total r) = {r}"

fun bumps :: "shard_msg list \<Rightarrow> nat" where
  "bumps [] = 0"
| "bumps (Bump _ # ms) = Suc (bumps ms)"
| "bumps (Total _ # ms) = bumps ms"

fun shard_answer :: "nat \<Rightarrow> shard_msg list \<Rightarrow> shard_msg \<Rightarrow> (nat \<times> nat \<times> u64) list" where
  "shard_answer i before (Bump _) = []"
| "shard_answer i before (Total r) = [(r, i, of_nat (bumps before))]"

lemma bumps_append [simp]: "bumps (ms @ ns) = bumps ms + bumps ns"
  by (induction ms rule: bumps.induct) simp_all

lemma shard_state:
  "distinct (map fst (counts (fold shard_step ms (shard_new i)))) \<and>
   shard_sum (fold shard_step ms (shard_new i)) = of_nat (bumps ms) \<and> shard_id (fold shard_step ms (shard_new i)) = i"
proof (induction ms rule: rev_induct)
  case (snoc m ms)
  let ?s = "fold shard_step ms (shard_new i)"
  have f: "fold shard_step (ms @ [m]) (shard_new i) = shard_step m ?s" by simp
  show ?case
  proof (cases m)
    case (Bump k)
    then show ?thesis
      unfolding f using snoc shard_sum_step [of ?s k]
      by (simp add: distinct_update add.commute del: shard_step.simps) (simp add: distinct_update)
  next
    case (Total r)
    then show ?thesis unfolding f using snoc by (simp add: shard_sum_def)
  qed
qed (simp_all add: shard_new_def shard_sum_def)

interpretation shard: answering shard_step "shard_new i" shard_replies "shard_answer i" shard_responders for i
proof
  show "shard_replies (shard_step m (fold shard_step ms (shard_new i))) =
      shard_replies (fold shard_step ms (shard_new i)) @ shard_answer i ms m" for m ms
    using shard_state [of ms i] by (cases m) simp_all
  show "r \<in> shard_responders m" if "(r, v) \<in> set (shard_answer i ms m)" for r v ms m
    using that by (cases m) auto
qed (simp add: shard_new_def)

subsection \<open>The counters of \<open>tokio_interop.rs\<close>\<close>

datatype tally_cmd = Record u64 | Snapshot nat

record tally =
  requests :: u64
  bytes :: u64
  tally_replies :: "(nat \<times> u64 \<times> u64) list"

definition tally_new :: tally where
  "tally_new = \<lparr>requests = 0, bytes = 0, tally_replies = []\<rparr>"

fun tally_step :: "tally_cmd \<Rightarrow> tally \<Rightarrow> tally" where
  "tally_step (Record n) s = s\<lparr>requests := requests s + 1, bytes := bytes s + n\<rparr>"
| "tally_step (Snapshot r) s = s\<lparr>tally_replies := tally_replies s @ [(r, requests s, bytes s)]\<rparr>"

interpretation tallies: pure_actors id tally_step id "right_ops id kv_step id" id UNIV "\<lambda>_. tally_new"
  by unfold_locales simp_all

fun tally_responders :: "tally_cmd \<Rightarrow> nat set" where
  "tally_responders (Record _) = {}"
| "tally_responders (Snapshot r) = {r}"

fun recorded :: "tally_cmd list \<Rightarrow> u64 list" where
  "recorded [] = []"
| "recorded (Record n # ms) = n # recorded ms"
| "recorded (Snapshot _ # ms) = recorded ms"

fun tally_answer :: "tally_cmd list \<Rightarrow> tally_cmd \<Rightarrow> (nat \<times> u64 \<times> u64) list" where
  "tally_answer before (Record _) = []"
| "tally_answer before (Snapshot r) = [(r, of_nat (length (recorded before)), sum_list (recorded before))]"

lemma recorded_append [simp]: "recorded (ms @ ns) = recorded ms @ recorded ns"
  by (induction ms rule: recorded.induct) simp_all

lemma tally_state:
  "requests (fold tally_step ms tally_new) = of_nat (length (recorded ms)) \<and>
   bytes (fold tally_step ms tally_new) = sum_list (recorded ms)"
proof (induction ms rule: rev_induct)
  case (snoc m ms)
  then show ?case by (cases m) simp_all
qed (simp add: tally_new_def)

interpretation tally: answering tally_step tally_new tally_replies tally_answer tally_responders
proof
  show "tally_replies (tally_step m (fold tally_step ms tally_new)) =
      tally_replies (fold tally_step ms tally_new) @ tally_answer ms m" for m ms
    using tally_state [of ms] by (cases m) simp_all
  show "r \<in> tally_responders m" if "(r, v) \<in> set (tally_answer ms m)" for r v ms m
    using that by (cases m) auto
qed (simp add: tally_new_def)

text \<open>The hundred tasks of \<open>main\<close>, each with its send.\<close>

definition task_cmds :: "tally_cmd list" where
  "task_cmds = map (\<lambda>i. Record (100 + of_nat i)) [0..<100]"

text \<open>
  The snapshot of \<open>main\<close>: the tasks have all sent, in whatever order they were scheduled, before the snapshot is asked
  for; the call can only return 100 requests and the sum of their bytes.
\<close>

theorem interop_snapshot:
  assumes "mset before = mset task_cmds"
    and "ask_run h as (ask_new h) = Some s" "SendClosed True \<notin> set as \<or> h = Owned"
    and "\<And>x. Reply x \<in> set as \<Longrightarrow> (r, x) \<in> set (tally_replies (fold tally_step (before @ [Snapshot r]) tally_new))"
  shows "returns_only h s (100, 14950)"
proof -
  have r: "mset (recorded ms) = image_mset (\<lambda>m. case m of Record n \<Rightarrow> n | _ \<Rightarrow> 0) (filter_mset (\<lambda>m. tally_responders m = {}) (mset ms))" for ms
    by (induction ms rule: recorded.induct) simp_all
  have t: "recorded task_cmds = map (\<lambda>i. 100 + of_nat i) [0..<100]"
    unfolding task_cmds_def by (induction "100 :: nat") (simp_all add: upt_rec)
  have "mset (recorded before) = mset (map (\<lambda>i. 100 + of_nat i) [0..<100])" using r [of before] r [of task_cmds] assms(1) t by simp
  then have "length (recorded before) = 100" "sum_list (recorded before) = 14950"
    using mset_eq_length [of "recorded before" "map (\<lambda>i. 100 + of_nat i) [0..<100]"]
      sum_mset_sum_list [of "recorded before"] sum_mset_sum_list [of "map (\<lambda>i. 100 + of_nat i :: u64) [0..<100]"]
    by (simp_all add: upt_rec)
  then have a: "tally_answer before (Snapshot r) = [(r, 100, 14950)]" by simp
  have none: "\<forall>m\<in>set (before @ []). r \<notin> tally_responders m"
    using mset_eq_setD [OF assms(1)] by (auto simp: task_cmds_def)
  show ?thesis by (rule tally.call_answered [OF refl none a assms(2,3)]) (use assms(4) in simp)
qed

end
