(* ===== verification/Heartbeat.thy ===== *)
theory Heartbeat
  imports Timer
begin

text \<open>
  The program of \<open>core/examples/timers.rs\<close>: a heartbeat actor, a one-shot message after 50 ms and a tick every 30 ms. The
  timer service and the actor's mailbox are those of theory \<open>Timer\<close>, in any schedule; the actor receives
  from its mailbox at any time. So the theorem is about the timer thread and the actor together.
\<close>

subsection \<open>The program\<close>

datatype hb_msg = HbTick | WarmupDone

datatype hb_line = TickLine u32 | WarmupLine

record heartbeat =
  ticks :: u32
  hb_lines :: "hb_line list"

definition hb_new :: heartbeat where
  "hb_new = \<lparr>ticks = 0, hb_lines = []\<rparr>"

fun hb_handle :: "hb_msg \<Rightarrow> heartbeat \<Rightarrow> heartbeat" where
  "hb_handle HbTick h = (let n = ticks h + 1 in h\<lparr>ticks := n, hb_lines := hb_lines h @ [TickLine n]\<rparr>)"
| "hb_handle WarmupDone h = h\<lparr>hb_lines := hb_lines h @ [WarmupLine]\<rparr>"

text \<open>The two registrations of \<open>main\<close>, times in nanoseconds; the closure of the ticker makes a \<open>Tick\<close>.\<close>

definition tick_maker :: "unit \<Rightarrow> (hb_msg \<times> unit) option" where
  "tick_maker f = Some (HbTick, f)"

definition hb_main :: "nat \<Rightarrow> nat \<Rightarrow> (hb_msg, unit) timer \<Rightarrow> (hb_msg, unit) timer option" where
  "hb_main lim a s = Option.bind (send_after lim a 50000000 WarmupDone s) (send_every lim a 30000000 ())"

text \<open>The program in a schedule, with the messages that the actor has received.\<close>

fun got_now :: "nat \<Rightarrow> (hb_msg, unit) timer_action \<Rightarrow> (hb_msg, unit) timer \<Rightarrow> hb_msg list" where
  "got_now a (AtMailbox b Recv) s =
     (if b = a then (case fst (mb_try_recv (mbs s a)) of Some m \<Rightarrow> [m] | None \<Rightarrow> []) else [])"
| "got_now a _ s = []"

fun hb_run :: "nat \<Rightarrow> nat \<Rightarrow> (hb_msg, unit) timer_action list \<Rightarrow> (hb_msg, unit) timer \<times> hb_msg list \<Rightarrow>
    ((hb_msg, unit) timer \<times> hb_msg list) option" where
  "hb_run lim a [] st = Some st"
| "hb_run lim a (x # xs) (s, got) =
     (case timer_act lim tick_maker x s of
        None \<Rightarrow> None
      | Some t \<Rightarrow> hb_run lim a xs (t, got @ got_now a x s))"

text \<open>Nothing but the two timers sends to the actor: \<open>main\<close> makes no other call.\<close>

fun only_timers :: "nat \<Rightarrow> (hb_msg, unit) timer_action \<Rightarrow> bool" where
  "only_timers a (SendAfter _ _ _) = False"
| "only_timers a (SendEvery _ _ _) = False"
| "only_timers a (AtMailbox b (Send _)) = (b \<noteq> a)"
| "only_timers a _ = True"

subsection \<open>Invariant\<close>

text \<open>The timers are the two registered ones, due no earlier than asked for at time \<open>t0\<close>.\<close>

definition hb_due :: "nat \<Rightarrow> nat \<Rightarrow> nat \<Rightarrow> bool" where
  "hb_due t0 i dl \<longleftrightarrow> i = 0 \<and> t0 + 50000000 \<le> dl \<or> i = 1 \<and> t0 + 30000000 \<le> dl"

definition hb_entry :: "nat \<Rightarrow> (hb_msg, unit) timer_entry \<Rightarrow> bool" where
  "hb_entry t0 e \<longleftrightarrow> hb_due t0 (cflag e) (deadline e) \<and>
     fire e \<in> (if cflag e = 0 then {Once None, Once (Some WarmupDone)} else {Every 30000000 ()})"

definition hb_firing :: "nat \<Rightarrow> firing \<Rightarrow> bool" where
  "hb_firing t0 f \<longleftrightarrow> hb_due t0 (which f) (due_at f) \<and> every f = (if which f = 0 then None else Some 30000000)"

fun hb_pc :: "nat \<Rightarrow> (hb_msg, unit) thread_pc \<Rightarrow> bool" where
  "hb_pc t0 (TFired now e (Some dl)) = (cflag e = 1 \<and> t0 + 30000000 \<le> dl)"
| "hb_pc t0 _ = True"

definition fires :: "(hb_msg, unit) timer \<Rightarrow> nat \<Rightarrow> nat" where
  "fires s i = length (filter (\<lambda>f. which f = i) (fired s))"

definition hb_inv :: "nat \<Rightarrow> nat \<Rightarrow> (hb_msg, unit) timer \<Rightarrow> hb_msg list \<Rightarrow> bool" where
  "hb_inv t0 a s got \<longleftrightarrow> t0 \<le> clock s \<and> (\<forall>e\<in>#live s. hb_entry t0 e) \<and> hb_pc t0 (tpc s) \<and> (\<forall>f\<in>set (fired s). hb_firing t0 f) \<and>
     count_list (got @ items (mbs s a)) WarmupDone \<le> fires s 0 \<and> count_list (got @ items (mbs s a)) HbTick \<le> fires s 1"

lemmas hb_defs = hb_inv_def hb_entry_def hb_firing_def hb_due_def fires_def

text \<open>What the thread does not change stays right.\<close>

lemma hb_inv_keep:
  assumes "hb_inv t0 a s got" "clock s \<le> clock t" "set_mset (live t) \<subseteq> set_mset (live s)" "hb_pc t0 (tpc t)" "fired t = fired s"
    and "got' @ items (mbs t a) = got @ items (mbs s a)"
  shows "hb_inv t0 a t got'"
  using assms unfolding hb_inv_def fires_def by (metis (no_types, lifting) order_trans subsetD)

lemma hb_inv_fired:
  assumes "hb_inv t0 a s got" "hb_entry t0 e" "clock t = clock s" "fired t = fired s @ [firing_of e (clock s)]" "hb_pc t0 (tpc t)"
    and "\<And>x. x \<in># live t \<Longrightarrow> x \<in># live s \<or> hb_entry t0 x"
    and "items (mbs t a) \<in> {items (mbs s a), items (mbs s a) @ [if cflag e = 0 then WarmupDone else HbTick]}"
  shows "hb_inv t0 a t got"
proof -
  have c: "cflag e = 0 \<or> cflag e = 1" "hb_firing t0 (firing_of e (clock s))"
    using assms(2) by (auto simp: hb_entry_def hb_firing_def hb_due_def firing_of_def split: if_splits)
  have "fires t i = fires s i + (if cflag e = i then 1 else 0)" for i
    by (simp add: fires_def assms(4) firing_of_def)
  then show ?thesis using assms c by (auto simp: hb_inv_def)
qed

lemma hb_step_inv:
  assumes "hb_inv t0 a s got" "timer_step lim tick_maker s = Some t"
  shows "hb_inv t0 a t got"
proof (cases "tpc s")
  case (TLocked now)
  show ?thesis
  proof (rule hb_inv_keep [OF assms(1)])
    show "set_mset (live t) \<subseteq> set_mset (live s)"
      using assms(2) TLocked
      by (cases "heap s") (auto simp: timer_step_def live_def waiting_def drop_entry_def heap_pop_def Let_def split: if_splits)
  qed (use assms(2) TLocked in \<open>auto simp: timer_step_def drop_entry_def mb_drop_sender_def heap_pop_def Let_def split: if_splits option.splits\<close>)
next
  case (TFiring now e)
  have e: "hb_entry t0 e" "t0 \<le> clock s" using assms(1) TFiring by (auto simp: hb_inv_def live_def)
  have new: "x \<in># live s \<or> hb_entry t0 x" if "x \<in># live t" for x
    using that assms(2) TFiring e(1)
    by (cases "fire e") (auto simp: timer_step_def live_def waiting_def Let_def drop_entry_def hb_entry_def hb_due_def
        tick_maker_def split: if_splits option.splits prod.splits result.splits try_send_error.splits)
  have out: "fired t = fired s @ [firing_of e (clock s)]" "clock t = clock s"
    using assms(2) TFiring
    by (auto simp: timer_step_def Let_def drop_entry_def split: option.splits prod.splits)
  consider "cflag e = 0" "fire e = Once None" | "cflag e = 0" "fire e = Once (Some WarmupDone)" | "cflag e = 1" "fire e = Every 30000000 ()"
    using e(1) by (auto simp: hb_entry_def hb_due_def split: if_splits)
  then have "hb_pc t0 (tpc t) \<and> items (mbs t a) \<in> {items (mbs s a), items (mbs s a) @ [if cflag e = 0 then WarmupDone else HbTick]}"
    by cases (use assms(2) TFiring e(2) in \<open>auto simp: timer_step_def Let_def drop_entry_def mb_drop_sender_def mb_try_send_def
        tick_maker_def instant_add_def split: if_splits\<close>)
  then show ?thesis by (intro hb_inv_fired [OF assms(1) e(1) out(2,1) _ new]) simp_all
next
  case (TFired now e n)
  show ?thesis
  proof (cases "n = None \<or> cancelled s (cflag e)")
    case True
    then show ?thesis
      by (intro hb_inv_keep [OF assms(1)])
        (use assms(2) TFired in \<open>auto simp: timer_step_def live_def waiting_def drop_entry_def mb_drop_sender_def split: option.splits\<close>)
  next
    case False
    then obtain dl where n: "n = Some dl" "t = s\<lparr>heap := heap_push (e\<lparr>deadline := dl\<rparr>) (heap s), tpc := TLocked now\<rparr>"
      using assms(2) TFired by (auto simp: timer_step_def)
    have "hb_entry t0 (e\<lparr>deadline := dl\<rparr>)"
      using assms(1) TFired n(1) by (auto simp: hb_inv_def live_def hb_entry_def hb_due_def)
    then show ?thesis
      using assms(1) TFired n(2) by (auto simp: hb_inv_def fires_def live_def waiting_def mset_heap_push)
  qed
next
  case (TWaiting n)
  show ?thesis
    by (rule hb_inv_keep [OF assms(1)]) (use assms(2) TWaiting in \<open>auto simp: timer_step_def live_def waiting_def\<close>)
qed (use assms(2) in \<open>simp add: timer_step_def\<close>)

lemma hb_act_inv:
  assumes "hb_inv t0 a s got" "timer_act lim tick_maker x s = Some t" "only_timers a x"
  shows "hb_inv t0 a t (got @ got_now a x s)"
proof (cases x)
  case (PushEntry j)
  then have j: "j < length (pending s)" "t = s\<lparr>heap := heap_push (pending s ! j) (heap s), pending := take j (pending s) @ drop (Suc j) (pending s)\<rparr>"
    using assms(2) by (auto split: if_splits)
  have "mset (pending s) = add_mset (pending s ! j) (mset (pending t))" using mset_remove_nth [OF j(1)] j(2) by simp
  then have "live t = live s" using j(2) by (simp add: live_def waiting_def mset_heap_push)
  then show ?thesis
    by (intro hb_inv_keep [OF assms(1)]) (use assms(1) PushEntry j(2) in \<open>auto simp: hb_inv_def\<close>)
next
  case (AtMailbox b op)
  have r: "got_now a x s @ items (mbs t a) = items (mbs s a)"
  proof (cases op)
    case (Send m)
    then show ?thesis using AtMailbox assms(2,3) by auto
  next
    case Recv
    then show ?thesis using AtMailbox assms(2)
      by (cases "items (mbs s a)") (auto simp: mb_try_recv_def split: prod.splits)
  qed (use AtMailbox assms(2) in \<open>auto simp: mb_drop_receiver_def mb_clone_def mb_drop_sender_def split: if_splits\<close>)
  show ?thesis
    by (rule hb_inv_keep [OF assms(1)])
      (use assms(1,2) AtMailbox r in \<open>auto simp: hb_inv_def live_def waiting_def split: if_splits\<close>)
next
  case TimerStep
  then show ?thesis using hb_step_inv [OF assms(1)] assms(2) by simp
qed (use assms in \<open>auto simp: hb_inv_def fires_def live_def waiting_def cancel_def mb_clone_def mb_drop_sender_def split: if_splits\<close>)

lemma hb_run_inv:
  "hb_inv t0 a s got \<Longrightarrow> timer_inv s \<Longrightarrow> hb_run lim a xs (s, got) = Some (t, got') \<Longrightarrow> \<forall>x\<in>set xs. only_timers a x \<Longrightarrow>
     hb_inv t0 a t got' \<and> timer_inv t"
proof (induction xs arbitrary: s got)
  case (Cons x xs)
  then obtain u where u: "timer_act lim tick_maker x s = Some u" "hb_run lim a xs (u, got @ got_now a x s) = Some (t, got')"
    by (auto split: option.splits)
  then show ?case using Cons.IH [OF _ _ u(2)] hb_act_inv [OF Cons.prems(1) u(1)] timer_act_inv [OF Cons.prems(2) u(1)] Cons.prems(4) by simp
qed simp

lemma hb_main_inv:
  assumes "hb_main lim a (timer_new t0 caps hs) = Some s"
  shows "hb_inv t0 a s [] \<and> timer_inv s"
proof -
  obtain s1 where s1: "send_after lim a 50000000 WarmupDone (timer_new t0 caps hs) = Some s1" "send_every lim a 30000000 () s1 = Some s"
    using assms by (auto simp: hb_main_def bind_eq_Some_conv)
  have "hb_inv t0 a s []"
    using s1 by (auto simp: send_after_def send_every_def instant_add_def schedule_timer_def timer_new_def hb_defs live_def
        waiting_def mb_clone_def split: if_splits)
  moreover have "timer_inv s1" using s1(1) by (auto simp: send_after_def intro!: schedule_inv timer_new_inv)
  then have "timer_inv s" using s1(2) by (auto simp: send_every_def schedule_inv split: if_splits)
  ultimately show ?thesis by simp
qed

subsection \<open>How often the heart beats\<close>

lemma spaced:
  "sorted_wrt (\<lambda>x y. x + d \<le> y) ts \<Longrightarrow> \<forall>x\<in>set ts. t0 + d \<le> x \<and> x \<le> c \<Longrightarrow> t0 \<le> c \<Longrightarrow> t0 + length ts * d \<le> (c :: nat)"
proof (induction ts arbitrary: t0)
  case (Cons x ts)
  have "x + length ts * d \<le> c" by (rule Cons.IH) (use Cons.prems in auto)
  then show ?case using Cons.prems(2) by simp
qed simp

lemma ticker_firings:
  assumes "hb_inv t0 a s got" "timer_inv s"
  shows "t0 + fires s 1 * 30000000 \<le> clock s" "fires s 0 \<le> 1" "0 < fires s 0 \<Longrightarrow> t0 + 50000000 \<le> clock s"
proof -
  let ?F = "\<lambda>i. filter (\<lambda>f. which f = i) (fired s)"
  have so: "sorted_wrt apart (?F i)" for i
    using assms(2) by (simp add: timer_inv_def fire_inv_def sorted_wrt_filter)
  have f: "hb_firing t0 f \<and> due_at f \<le> fired_at f \<and> fired_at f \<le> clock s" if "f \<in> set (?F i)" for f i
    using that assms by (auto simp: hb_inv_def timer_inv_def fire_inv_def)
  have "sorted_wrt (\<lambda>x y. x + 30000000 \<le> y) (map fired_at (?F 1))"
    unfolding sorted_wrt_map by (rule sorted_wrt_mono_rel [OF _ so]) (use f in \<open>auto simp: apart_def hb_firing_def\<close>)
  then have "t0 + length (map fired_at (?F 1)) * 30000000 \<le> clock s"
    using f [of _ 1] assms(1) by (intro spaced) (fastforce simp: hb_firing_def hb_due_def hb_inv_def)+
  then show "t0 + fires s 1 * 30000000 \<le> clock s" by (simp add: fires_def)
  show "fires s 0 \<le> 1"
  proof (rule ccontr)
    assume "\<not> fires s 0 \<le> 1"
    then obtain x y r where l: "?F 0 = x # y # r" by (cases "?F 0"; cases "tl (?F 0)") (auto simp: fires_def)
    then have xy: "x \<in> set (?F 0)" "y \<in> set (?F 0)" "apart x y" using so [of 0] by auto
    then show False using f [OF xy(1)] by (auto simp: apart_def hb_firing_def)
  qed
  show "t0 + 50000000 \<le> clock s" if "0 < fires s 0"
  proof -
    have "?F 0 \<noteq> []" using that unfolding fires_def by (metis length_greater_0_conv)
    then obtain x where x: "x \<in> set (?F 0)" by (metis list.set_intros(1) neq_Nil_conv)
    then show ?thesis using f [OF x] by (auto simp: hb_firing_def hb_due_def)
  qed
qed

lemma hb_state: "ticks (fold hb_handle ms hb_new) = of_nat (count_list ms HbTick)"
proof (induction ms rule: rev_induct)
  case (snoc m ms)
  then show ?case by (cases m) (simp_all add: Let_def)
qed (simp add: hb_new_def)

text \<open>
  C19: The heart never beats too often. Whatever the schedule of the timer thread, the core and the clock, and whether the
  ticker is cancelled or not, the \<open>n\<close>-th tick is not counted before \<open>n\<close> times 30 ms have passed since the registration;
  the warm-up message comes at most once, and not before its 50 ms; and the actor's counter is the number of
  ticks it has received.
\<close>

theorem heartbeat_rate:
  assumes "hb_main lim a (timer_new t0 caps hs) = Some s0" "hb_run lim a xs (s0, []) = Some (s, got)"
    and "\<forall>x\<in>set xs. only_timers a x"
  shows "t0 + count_list got HbTick * 30000000 \<le> clock s \<and>
    count_list got WarmupDone \<le> 1 \<and> (WarmupDone \<in> set got \<longrightarrow> t0 + 50000000 \<le> clock s) \<and>
    ticks (fold hb_handle got hb_new) = of_nat (count_list got HbTick)"
proof -
  have i: "hb_inv t0 a s got" "timer_inv s"
    using hb_run_inv [OF _ _ assms(2,3)] hb_main_inv [OF assms(1)] by auto
  note t = ticker_firings [OF i]
  have c: "count_list got WarmupDone \<le> fires s 0" "count_list got HbTick \<le> fires s 1"
    using i(1) by (auto simp: hb_inv_def)
  have "count_list got HbTick * 30000000 \<le> fires s 1 * 30000000" using c(2) by simp
  moreover have "0 < fires s 0" if "WarmupDone \<in> set got"
    using c(1) that by (metis count_list_0_iff gr0I le_zero_eq)
  ultimately show ?thesis using t c(1) hb_state by auto
qed

text \<open>Both timers registered, 30 ms pass, the ticker fires and the actor receives the tick.\<close>

definition hb_acts :: "(hb_msg, unit) timer_action list" where
  "hb_acts = [TimerStep, PushEntry 0, PushEntry 0, Timer.Tick 30000000, TimerStep, TimerStep, TimerStep, TimerStep, AtMailbox 0 Recv]"

lemma hb_demo:
  "\<exists>s0 s. hb_main (10 ^ 18) 0 (timer_new 0 (\<lambda>_. 1024) (\<lambda>_. 1)) = Some s0 \<and> hb_run (10 ^ 18) 0 hb_acts (s0, []) = Some (s, [HbTick])"
  by (simp add: hb_main_def send_after_def send_every_def instant_add_def schedule_timer_def timer_new_def hb_acts_def
      timer_step_def heap_pop_def key_def less_timer_key_def mb_defs tick_maker_def Let_def firing_of_def)

theorem heartbeat_rate_witness:
  "\<exists>s0 s. hb_main (10 ^ 18) 0 (timer_new 0 (\<lambda>_. 1024) (\<lambda>_. 1)) = Some s0 \<and>
     hb_run (10 ^ 18) 0 hb_acts (s0, []) = Some (s, [HbTick]) \<and> 30000000 \<le> clock s"
proof -
  obtain s0 s where r: "hb_main (10 ^ 18) 0 (timer_new 0 (\<lambda>_. 1024) (\<lambda>_. 1)) = Some s0" "hb_run (10 ^ 18) 0 hb_acts (s0, []) = Some (s, [HbTick])"
    using hb_demo by blast
  have "\<forall>x\<in>set hb_acts. only_timers 0 x" by (simp add: hb_acts_def)
  from heartbeat_rate [OF r this] r show ?thesis by auto
qed

end
