(* ===== verification/Bench_Args.thy ===== *)
theory Bench_Args
  imports Server Echo
begin

text \<open>
  The command line of \<open>core/examples/io_bench.rs\<close>, which \<open>echo_glommio.rs\<close> shares for its list of cores: what the
  arguments select, down to the calls that start the server. Arguments are ASCII.
\<close>

subsection \<open>Strings of the standard library\<close>

definition is_space :: "char \<Rightarrow> bool" where
  "is_space c \<longleftrightarrow> (of_char c :: nat) \<in> {9, 10, 11, 12, 13, 32}"

definition trim :: "string \<Rightarrow> string" where
  "trim s = rev (dropWhile is_space (rev (dropWhile is_space s)))"

fun split_at :: "char \<Rightarrow> string \<Rightarrow> string list" where
  "split_at d [] = [[]]"
| "split_at d (c # cs) =
     (if c = d then [] # split_at d cs
      else case split_at d cs of [] \<Rightarrow> [[c]] | p # ps \<Rightarrow> (c # p) # ps)"

definition digit_val :: "char \<Rightarrow> nat option" where
  "digit_val c = (let n = of_char c :: nat in if 48 \<le> n \<and> n \<le> 57 then Some (n - 48) else None)"

text \<open>\<open>usize::from_str\<close>: an optional plus sign, at least one digit, no overflow.\<close>

fun parse_digits :: "nat \<Rightarrow> string \<Rightarrow> nat option" where
  "parse_digits acc [] = Some acc"
| "parse_digits acc (c # cs) =
     (case digit_val c of
        None \<Rightarrow> None
      | Some d \<Rightarrow> if acc * 10 + d < 2 ^ 64 then parse_digits (acc * 10 + d) cs else None)"

definition parse_usize :: "string \<Rightarrow> usize option" where
  "parse_usize s =
     (let ds = (case s of c # cs \<Rightarrow> if c = CHR ''+'' then cs else s | [] \<Rightarrow> [])
      in if ds = [] then None else map_option of_nat (parse_digits 0 ds))"

definition get_arg :: "string list \<Rightarrow> nat \<Rightarrow> string option" where
  "get_arg args i = (if i < length args then Some (args ! i) else None)"

subsection \<open>The command line\<close>

definition parse_cores :: "string \<Rightarrow> usize list" where
  "parse_cores s = List.map_filter (\<lambda>x. parse_usize (trim x)) (split_at (CHR '','') s)"

datatype bench_cmd = StartServer string "usize list" serve_options | RunClient string usize usize | BenchUsage

definition bench_main :: "string list \<Rightarrow> bench_cmd" where
  "bench_main args =
     (let mode = (case get_arg args 1 of Some m \<Rightarrow> m | None \<Rightarrow> ''help'');
          addr = (case get_arg args 2 of Some a \<Rightarrow> a | None \<Rightarrow> ''127.0.0.1:9001'')
      in if mode = ''aether-server''
         then (let cores = (case get_arg args 3 of Some s \<Rightarrow> parse_cores s | None \<Rightarrow> [0]);
                   epoll = (case get_arg args 4 of Some s \<Rightarrow> s = ''epoll'' | None \<Rightarrow> False)
               in StartServer addr cores
                    \<lparr>busy_poll = True, pin_core = (case cores of [] \<Rightarrow> None | c # _ \<Rightarrow> Some c), use_epoll = epoll\<rparr>)
         else if mode = ''client''
         then RunClient addr
                (case Option.bind (get_arg args 3) parse_usize of Some n \<Rightarrow> n | None \<Rightarrow> 200000)
                (case Option.bind (get_arg args 4) parse_usize of Some n \<Rightarrow> n | None \<Rightarrow> 1)
         else BenchUsage)"

text \<open>The server that is started; \<open>None\<close> is a panic before any system call.\<close>

definition bench_server ::
  "bool \<Rightarrow> bool \<Rightarrow> (sock_addr list, io_error) result \<Rightarrow> usize list \<Rightarrow> serve_options \<Rightarrow> server_handle attempt option" where
  "bench_server linux unix resolve cores opts =
     (if length cores = 1 then Some (serve_with linux resolve opts)
      else serve_on_cores linux unix resolve cores opts)"

subsection \<open>Decimal numbers\<close>

fun decimal :: "nat \<Rightarrow> string" where
  "decimal n = (if n < 10 then [char_of (48 + n)] else decimal (n div 10) @ [char_of (48 + n mod 10)])"

declare decimal.simps [simp del]

fun csv :: "usize list \<Rightarrow> string" where
  "csv [] = []"
| "csv [n] = decimal (unat n)"
| "csv (n # ns) = decimal (unat n) @ CHR '','' # csv ns"

definition is_digit :: "char \<Rightarrow> bool" where
  "is_digit c \<longleftrightarrow> digit_val c \<noteq> None"

lemma digit_val_char: "d < 10 \<Longrightarrow> digit_val (char_of (48 + d)) = Some d"
  by (simp add: digit_val_def Let_def)

lemma decimal_digits: "list_all is_digit (decimal n) \<and> decimal n \<noteq> []"
proof (induction n rule: decimal.induct)
  case (1 n)
  then show ?case using digit_val_char [of "n mod 10"] digit_val_char [of n]
    by (auto simp: decimal.simps [of n] is_digit_def)
qed

lemma parse_digits_append: "parse_digits acc (s @ t) = Option.bind (parse_digits acc s) (\<lambda>a. parse_digits a t)"
  by (induction acc s rule: parse_digits.induct) (auto split: option.split)

lemma parse_decimal: "n < 2 ^ 64 \<Longrightarrow> parse_digits 0 (decimal n) = Some n"
proof (induction n rule: decimal.induct)
  case (1 n)
  show ?case
  proof (cases "n < 10")
    case True
    then show ?thesis using digit_val_char [of n] by (simp add: decimal.simps [of n])
  next
    case False
    then have "parse_digits 0 (decimal (n div 10)) = Some (n div 10)" using 1 by simp
    then show ?thesis
      using False 1(2) digit_val_char [of "n mod 10"] by (simp add: decimal.simps [of n] parse_digits_append)
  qed
qed

lemma digit_facts: "is_digit c \<Longrightarrow> c \<noteq> CHR ''+'' \<and> c \<noteq> CHR '','' \<and> \<not> is_space c"
  by (auto simp: is_digit_def digit_val_def Let_def is_space_def split: if_splits)

lemma parse_usize_decimal: "parse_usize (decimal (unat n)) = Some (n :: usize)"
proof -
  obtain c cs where d: "decimal (unat n) = c # cs" "is_digit c"
    using decimal_digits [of "unat n"] by (cases "decimal (unat n)") auto
  have "parse_digits 0 (decimal (unat n)) = Some (unat n)"
    by (rule parse_decimal) (rule u64_bound)
  then show ?thesis using d digit_facts [OF d(2)] by (simp add: parse_usize_def)
qed

lemma dropWhile_digits: "list_all is_digit s \<Longrightarrow> dropWhile is_space s = s"
  by (cases s) (auto simp: digit_facts)

lemma trim_digits: "list_all is_digit s \<Longrightarrow> trim s = s"
  by (simp add: trim_def dropWhile_digits list_all_rev)

lemma split_digits: "list_all is_digit s \<Longrightarrow> split_at (CHR '','') (s @ CHR '','' # t) = s # split_at (CHR '','') t \<and> split_at (CHR '','') s = [s]"
  by (induction s) (auto simp: digit_facts)

lemma parse_cores_csv: "cores \<noteq> [] \<Longrightarrow> parse_cores (csv cores) = cores"
proof (induction cores rule: csv.induct)
  case (2 n)
  then show ?case
    using decimal_digits [of "unat n"] split_digits [of "decimal (unat n)"] trim_digits [of "decimal (unat n)"] parse_usize_decimal [of n]
    by (simp add: parse_cores_def map_filter_simps)
next
  case (3 n m ns)
  then show ?case
    using decimal_digits [of "unat n"] split_digits [of "decimal (unat n)"] trim_digits [of "decimal (unat n)"] parse_usize_decimal [of n]
    by (simp add: parse_cores_def map_filter_simps)
qed simp

text \<open>
  A list of cores given on the command line is the list the server is started with, its first core pinned; numbers for the
  client arrive as they were written. The only arguments that make the server panic before it has
  asked for a socket are those whose list of cores has no number in it.
\<close>

theorem bench_arguments:
  assumes "cores \<noteq> []"
  shows "bench_main [prog, ''aether-server'', addr, csv cores, ''epoll''] =
      StartServer addr cores \<lparr>busy_poll = True, pin_core = Some (hd cores), use_epoll = True\<rparr> \<and>
    bench_main [prog, ''client'', addr, decimal (unat n), decimal (unat m)] = RunClient addr n m \<and>
    (\<forall>s. bench_main [prog, ''aether-server'', addr, s] = StartServer addr [] opts \<longrightarrow>
       bench_server linux unix resolve [] opts = None) \<and>
    bench_server linux unix resolve cores opts \<noteq> None"
proof -
  have "parse_usize (decimal (unat k)) = Some k" for k by (rule parse_usize_decimal)
  then show ?thesis
    using assms parse_cores_csv [OF assms]
    by (cases cores) (simp_all add: bench_main_def get_arg_def Let_def bench_server_def serve_on_cores_def)
qed

lemma bench_no_cores: "parse_cores ''a,b'' = []" "parse_cores ''0, 2,x'' = [0, 2]"
  by (simp_all add: parse_cores_def map_filter_simps parse_usize_def digit_val_def trim_def is_space_def Let_def)

end
