(* ===== verification/Spec2Isabelle.thy ===== *)
theory Spec2Isabelle
  imports Mpsc_Atomic Reactor Scheduler Ask Spsc Timer Runtime Server Trading Apps Pubsub Echo Capability
    Supervision Requests Heartbeat Bench_Args
begin

text \<open>
  A model of AetherFlow, a thread-per-core actor runtime in Rust, and the theorems that make it correct.
  The crate is \<open>core/src\<close>. An actor lives on one core, whose thread runs \<open>core_loop\<close> (\<open>system.rs\<close>)
  over all its actors. Messages reach an actor through a bounded multi-producer queue (\<open>mpsc.rs\<close>), whose
  sending ends are held by \<open>ActorRef\<close>s. On top of it are request and reply (\<open>ask.rs\<close>) and timers
  (\<open>timer.rs\<close>); beside it are a single-producer ring (\<open>spsc.rs\<close>), a latency histogram (\<open>metrics.rs\<close>) and
  a network layer (\<open>net.rs\<close>) with two reactors, a framing adapter and the functions that start servers.

  \<^bold>\<open>Theories.\<close>
  \<^item> \<open>Prelude\<close>: machine integers, \<open>Result\<close>, \<open>next_power_of_two\<close>, \<open>swap_remove\<close> and the scan loop that the
    scheduler and the scan reactor share, with the lemmas on words and lists that the components use.
  \<^item> \<open>Messages\<close>: the error types of \<open>lib.rs\<close>. \<open>Mailbox\<close>: what a mailbox promises, a bounded FIFO with a
    count of sending ends, and the locale \<open>mailbox_impl\<close> of its implementations.
  \<^item> \<open>Mpsc\<close>: the queue of \<open>mpsc.rs\<close>. \<open>enq_step\<close> and \<open>deq_step\<close> are one access to a shared location each
    (\<open>Queue::enqueue\<close>, \<open>Queue::dequeue\<close>); \<open>channel\<close>, the handles, the counters and the drop follow the
    file. Run alone, the queue implements \<open>mailbox_impl\<close>, also across the wrap of its positions.
  \<^item> \<open>Mpsc_Conc\<close>: any number of senders and the receiver interleaved access by access: FIFO, no two accesses
    to one slot, exact verdicts, progress of each end, and what may go wrong when the receiver is dropped.
  \<^item> \<open>Mpsc_Atomic\<close>: each interleaved \<open>try_recv\<close> acts at one instant as the specification's does, on the
    messages that are published without a gap before them, and each interleaved \<open>try_send\<close> on the messages whose
    slot is not handed back.
  \<^item> \<open>Codec\<close>: \<open>Io\<close>, the codecs and \<open>Framed\<close> of \<open>net.rs\<close>; locales \<open>codec_laws\<close> and \<open>codec_roundtrip\<close>, interpreted
    for both codecs: the frames do not depend on how the bytes are cut, and frames survive a round trip.
  \<^item> \<open>Reactor\<close>: connections, the scan reactor and the epoll reactor, the network being scripts of outcomes:
    each handler gets exactly the data its socket delivers, its output is sent in order, and a connection is dropped only for a
    cause. The epoll reactor's registrations follow its table as long as \<open>epoll_ctl\<close> does not fail. Handlers and
    factories may panic, which ends the thread and leaves the other connections as they are.
  \<^item> \<open>Server\<close>: \<open>serve\<close>, \<open>serve_with\<close>, \<open>serve_on_cores\<close>, \<open>ServerHandle\<close>, and the choice made in \<open>pinning.rs\<close>. Sockets have identities;
    joining a thread that is hung in a callback never returns.
  \<^item> \<open>Metrics\<close>: the histogram, with wrapping counters and the exact \<open>f64\<close> product of the percentile target.
  \<^item> \<open>Scheduler\<close>: policies, restart limits, the cell of one actor (\<open>poll_one\<close>, panics, restarts, \<open>stop\<close>) and the
    core loop with its control channel, batches, swap-removal and final drain. The user's hooks and
    factories are parameters that may panic and send; other threads act through \<open>env\<close>. The world records for each mailbox every
    message it ever accepted (\<open>posted\<close>) and everything its actor did (\<open>trace\<close>); neither is read by the code.
  \<^item> \<open>Runtime\<close>: \<open>System\<close>, all spawn calls, \<open>SpawnBuilder\<close>, \<open>ActorRef\<close> with \<open>send_blocking\<close>; and the composition of
    spawning with the core loop. A mailbox of capacity 0 or 1 is recorded as \<open>broken\<close>, since the queue does not work then;
    the theorems on systems exclude it.
  \<^item> \<open>Contract\<close>: the locale \<open>actor_contract\<close> between a program and the core loop, in rely-guarantee style: what the
    program's hooks and the other cores keep true step by step, every run of the loop keeps true. It is used there for every
    program: messages handled once and in order, and panics that stay with their actor.
  \<^item> \<open>Trading\<close>: \<open>examples/matching_engine.rs\<close>, a gateway and engines on different cores, as a client of that contract.
  \<^item> \<open>Apps\<close>: \<open>hello_actor.rs\<close>, \<open>request_reply.rs\<close> and \<open>sharded.rs\<close>, actors that only compute: the locale \<open>pure_actors\<close>
    extends the contract and says that their state is the replay of their history, on a core with any other actors.
  \<^item> \<open>Supervision\<close>: \<open>supervision.rs\<close>, a worker rebuilt after each poisoned job, as a client of the contract with a
    factory, against a plain function of the jobs.
  \<^item> \<open>Requests\<close>: requests answered by actors that only compute. The locale \<open>answering\<close> joins the replay of an actor's history with
    the reply cell of \<open>Ask\<close>; it is interpreted for the store, the shards and the actor of \<open>tokio_interop.rs\<close>.
  \<^item> \<open>Heartbeat\<close>: \<open>timers.rs\<close>, an actor driven by a one-shot and a periodic timer of the timer service.
  \<^item> \<open>Echo\<close>: \<open>echo_server.rs\<close> and the server of \<open>io_bench.rs\<close> on the reactors, the loops of \<open>echo_glommio.rs\<close> and the
    measuring client of \<open>io_bench.rs\<close>. \<open>Bench_Args\<close>: the command line of \<open>io_bench.rs\<close>, down to the calls that start the server.
  \<^item> \<open>Pubsub\<close>: \<open>pubsub.rs\<close>, a hub and its subscribers, again as a client of the contract.
  \<^item> \<open>Capability\<close>: \<open>experiments/capability-proof\<close>, messages moved to an actor thread, with the compiler's
    move check as a definition and the isolation that follows from it; its \<open>demo.rs\<close> is one client.
  \<^item> \<open>Ask\<close>: the reply cell between caller and responder, interleaved, on the stack (\<open>ask\<close>) or counted
    (\<open>ask_timeout\<close>), with its memory: use after free and reads of uninitialised slots are outcomes. \<open>make_msg\<close> may keep the responder out of its
    message; \<open>ask_safe\<close> and \<open>ask_value_once\<close> name that case and exclude it for \<open>ask\<close>, where \<open>ask_stash_uaf\<close> shows what it does.
  \<^item> \<open>Spsc\<close>: the ring of \<open>spsc.rs\<close>, both ends interleaved.
  \<^item> \<open>Timer\<close>: the timer thread and its lock against registrations, cancellations and the clock. What it
    needs of \<open>BinaryHeap\<close> is the locale \<open>max_heap\<close>, interpreted for the list of pops the model keeps.

  \<^bold>\<open>What the theorems show.\<close> Safety of the lock-free structures: order, no loss, no race, no bad memory
  access, for every interleaving (\<open>concurrent_fifo\<close>, \<open>concurrent_no_race\<close>, \<open>spsc_fifo\<close>, \<open>ask_safe\<close>,
  \<open>ask_value_once\<close>). The runtime's contract: messages are handled once and in order, hooks are called
  where they may be, panics stay with their actor, restarts are limited, every pass is fair, a shutdown drains
  (\<open>core_messages_once_in_order\<close>, \<open>core_lifecycle\<close>, \<open>system_runs_actors\<close>, \<open>restart_rate_bounded\<close>,
  \<open>pass_fair\<close>, \<open>shutdown_drains\<close>). Programs on top of it: \<open>matching_engine_routes\<close>,
  \<open>kv_store_answers\<close>, \<open>pubsub_delivers\<close>, \<open>sharded_totals\<close>, \<open>supervised_worker\<close>, and over the network \<open>echo_server_echoes\<close>.
  Programs over two components: a request through the core loop and back through the reply cell
  (\<open>kv_ask_answered\<close>, \<open>interop_snapshot\<close>), an actor fed by the timer service (\<open>heartbeat_rate\<close>).
  Moved messages are never shared (\<open>send_isolates\<close>). Timers are never early, fire once or once per interval, in order,
  and can be cancelled. Calls that block return when they should (\<open>ask_returns\<close>, \<open>ask_timeout_returns\<close>,
  \<open>send_blocking_outcome\<close>). Refinement: the queue implements the mailbox specification
  (\<open>mpsc_refines_fifo\<close>), both its ends also when interleaved
  (\<open>try_recv_atomic\<close>, \<open>try_send_atomic\<close>). Some theorems state what the code does although it should not:
  \<open>channel_one_spins\<close>, \<open>accepted_message_stranded\<close>, \<open>shutdown_may_lose_order\<close>, \<open>ask_stash_uaf\<close>, \<open>spsc_shared_producer_loses\<close>,
  \<open>serve_on_cores_error_leaks\<close>, \<open>reactor_panic_ends_all\<close>, \<open>epoll_ctl_ignored\<close>, \<open>single_sample_percentiles\<close>.

  \<^bold>\<open>Conventions and bounds.\<close> \<open>usize\<close> is 64 bits wide. A schedule is any list of actions of the threads
  involved; a reachable state is one that some schedule leads to. Accesses interleave sequentially
  consistently; the ordering annotations are not modelled. Each \<open>Sender\<close> is used by one thread at a time. Arithmetic wraps as in a build
  without overflow checks, except that \<open>channel\<close> panics when \<open>next_power_of_two\<close> overflows. A loop that may spin is a
  \<open>partial_function\<close>, whose result \<open>None\<close> is the loop that never ends; no fuel is used. The concurrent
  theorems on \<open>mpsc.rs\<close> count at most \<open>2\<^sup>6\<^sup>2\<close> messages, those on \<open>spsc.rs\<close> fewer than \<open>2\<^sup>6\<^sup>4\<close> actions: beyond, stale
  positions can be met again. The scheduler and the timer see mailboxes as the specification has them, one
  call at a time, which is what the queue was shown to implement: interleaved calls
  are atomic by \<open>try_recv_atomic\<close> and \<open>try_send_atomic\<close>, each with the step at which it acts, and messages whose sender has not published yet count as
  sent, for the receiver, when they become visible. Durations and instants are numbers of
  nanoseconds.

  \<^bold>\<open>Not modelled.\<close> Weak memory (the code relies on acquire and release pairs, which loom tests). Threads, sockets and
  epoll as the operating system has them: they appear as their outcomes. \<open>sync.rs\<close>, which only renames types. The crates \<open>cluster\<close>, \<open>persistence\<close>,
  \<open>remote\<close> and \<open>streams\<close>, which are empty. The executors of tokio and glommio, which run code of the examples in an
  order the theorems leave open. The criterion benchmark \<open>latency.rs\<close>, which has no logic of its own, and the throughput figure of
  \<open>io_bench.rs\<close>. The two views of a mailbox that \<open>try_recv_atomic\<close> and \<open>try_send_atomic\<close> speak of differ by the calls under
  way; the scheduler, the timer and the blocking send are proved over the specification with one view, not over the
  interleaved queue itself.
\<close>

end
